(* ===== verification/Quine_Prelude.thy ===== *)
theory Quine_Prelude
  imports Main "HOL-Library.Word" "HOL-Library.Char_ord" "HOL-Library.List_Lexorder"
begin

text \<open>
  Shared vocabulary of the development.

  \<^item> \<open>fault\<close>: the C++ exceptions the sources throw or let escape, and one value for
    executions the language standard leaves undefined. A fallible computation over a state
    \<open>'s\<close> is an \<open>('s, 'a) st\<close>: it returns the fault or the value together with the state it
    leaves behind, because a C++ exception does not roll back the objects it passes through.
  \<^item> \<open>std::to_string\<close> on integers, \<open>std::stoi\<close>, \<open>std::stol\<close> and \<open>std::toupper\<close> in the "C"
    locale (the program never calls \<open>setlocale\<close>).
  \<^item> \<open>std::string\<close> is a list of \<open>char\<close>; HOL-Library's lexicographic order on \<open>char list\<close> is
    \<open>std::string::operator<\<close>, which compares bytes as unsigned values.
\<close>

section \<open>Faults and stateful computations\<close>

datatype fault =
    Runtime_error string
  | Length_error
  | Out_of_range
  | Invalid_argument
  | Undefined_behaviour

type_synonym ('s, 'a) st = "'s \<Rightarrow> (fault + 'a) \<times> 's"

named_theorems st_simps \<open>evaluation rules of the state-and-fault computations\<close>

definition ret :: "'a \<Rightarrow> ('s, 'a) st" where
  "ret x = (\<lambda>s. (Inr x, s))"

definition throw :: "fault \<Rightarrow> ('s, 'a) st" where
  "throw e = (\<lambda>s. (Inl e, s))"

definition bindS :: "('s, 'a) st \<Rightarrow> ('a \<Rightarrow> ('s, 'b) st) \<Rightarrow> ('s, 'b) st" where
  "bindS m f = (\<lambda>s. case m s of (Inl e, s') \<Rightarrow> (Inl e, s') | (Inr x, s') \<Rightarrow> f x s')"

text \<open>Running a computation on one member object of a larger object.\<close>

definition zoom :: "('s \<Rightarrow> 't) \<Rightarrow> ('t \<Rightarrow> 's \<Rightarrow> 's) \<Rightarrow> ('t, 'a) st \<Rightarrow> ('s, 'a) st" where
  "zoom sel upd m = (\<lambda>s. case m (sel s) of (r, t) \<Rightarrow> (r, upd t s))"

text \<open>Reading and writing the state.\<close>

definition getS :: "('s \<Rightarrow> 'a) \<Rightarrow> ('s, 'a) st" where
  "getS f = (\<lambda>s. (Inr (f s), s))"

definition modifyS :: "('s \<Rightarrow> 's) \<Rightarrow> ('s, unit) st" where
  "modifyS f = (\<lambda>s. (Inr (), f s))"

lemma ret_apply [simp, st_simps]: "ret x s = (Inr x, s)"
  by (simp add: ret_def)

lemma throw_apply [simp, st_simps]: "throw e s = (Inl e, s)"
  by (simp add: throw_def)

lemma getS_apply [simp, st_simps]: "getS f s = (Inr (f s), s)"
  by (simp add: getS_def)

lemma modifyS_apply [simp, st_simps]: "modifyS f s = (Inr (), f s)"
  by (simp add: modifyS_def)

lemma bindS_Inr [simp, st_simps]: "m s = (Inr x, s') \<Longrightarrow> bindS m f s = f x s'"
  by (simp add: bindS_def)

lemma bindS_Inl [simp, st_simps]: "m s = (Inl e, s') \<Longrightarrow> bindS m f s = (Inl e, s')"
  by (simp add: bindS_def)

lemma zoom_apply [simp, st_simps]: "m (sel s) = (r, t) \<Longrightarrow> zoom sel upd m s = (r, upd t s)"
  by (simp add: zoom_def)

lemma bindS_cases:
  assumes "bindS m f s = (r, t)"
  obtains (fault) e where "m s = (Inl e, t)" "r = Inl e"
  | (val) x s' where "m s = (Inr x, s')" "f x s' = (r, t)"
  using assms by (auto simp: bindS_def split: prod.splits sum.splits)

lemma bindS_assoc: "bindS (bindS m f) g = bindS m (\<lambda>x. bindS (f x) g)"
  by (rule ext) (auto simp: bindS_def split: prod.splits sum.splits)

section \<open>Decimal numbers\<close>

definition digit_char :: "nat \<Rightarrow> char" where
  "digit_char d = char_of (48 + d)"

definition is_digit :: "char \<Rightarrow> bool" where
  "is_digit c \<longleftrightarrow> 48 \<le> (of_char c :: nat) \<and> (of_char c :: nat) \<le> 57"

definition digit_val :: "char \<Rightarrow> nat" where
  "digit_val c = of_char c - 48"

fun nat_str :: "nat \<Rightarrow> string" where
  "nat_str n =
     (if n < 10 then [digit_char n] else nat_str (n div 10) @ [digit_char (n mod 10)])"

declare nat_str.simps [simp del]

text \<open>\<open>std::to_string\<close> of a signed integer.\<close>

definition int_str :: "int \<Rightarrow> string" where
  "int_str i = (if i < 0 then CHR ''-'' # nat_str (nat (- i)) else nat_str (nat i))"

definition digits_val :: "string \<Rightarrow> nat" where
  "digits_val ds = foldl (\<lambda>n c. 10 * n + digit_val c) 0 ds"

text \<open>\<open>std::isspace\<close> in the "C" locale: space, and the control characters 9 to 13.\<close>

definition is_space :: "char \<Rightarrow> bool" where
  "is_space c \<longleftrightarrow> c = CHR '' '' \<or> (9 \<le> (of_char c :: nat) \<and> (of_char c :: nat) \<le> 13)"

definition split_sign :: "string \<Rightarrow> bool \<times> string" where
  "split_sign t =
     (case t of
        [] \<Rightarrow> (False, [])
      | c # r \<Rightarrow> if c = CHR ''-'' then (True, r) else if c = CHR ''+'' then (False, r)
                 else (False, t))"

text \<open>
  The number \<open>strtol(s, \<dots>, 10)\<close> reads: white space, an optional sign and at least one digit;
  whatever follows the digits is ignored. \<open>None\<close> is "no conversion".
\<close>

definition strtol :: "string \<Rightarrow> int option" where
  "strtol s =
     (let (neg, u) = split_sign (dropWhile is_space s);
          ds = takeWhile is_digit u
      in if ds = [] then None
         else Some (if neg then - int (digits_val ds) else int (digits_val ds)))"

definition in_i32 :: "int \<Rightarrow> bool" where
  "in_i32 i \<longleftrightarrow> - (2 ^ 31) \<le> i \<and> i < 2 ^ 31"

definition in_i64 :: "int \<Rightarrow> bool" where
  "in_i64 i \<longleftrightarrow> - (2 ^ 63) \<le> i \<and> i < 2 ^ 63"

text \<open>\<open>std::stoi\<close> (32-bit \<open>int\<close>) and \<open>std::stol\<close> (64-bit \<open>long\<close>).\<close>

definition stoi :: "string \<Rightarrow> fault + int" where
  "stoi s =
     (case strtol s of None \<Rightarrow> Inl Invalid_argument
      | Some v \<Rightarrow> if in_i32 v then Inr v else Inl Out_of_range)"

definition stol :: "string \<Rightarrow> fault + int" where
  "stol s =
     (case strtol s of None \<Rightarrow> Inl Invalid_argument
      | Some v \<Rightarrow> if in_i64 v then Inr v else Inl Out_of_range)"

text \<open>\<open>std::toupper\<close> in the "C" locale.\<close>

definition to_upper_char :: "char \<Rightarrow> char" where
  "to_upper_char c =
     (if 97 \<le> (of_char c :: nat) \<and> (of_char c :: nat) \<le> 122 then char_of (of_char c - (32 :: nat))
      else c)"

definition to_upper :: "string \<Rightarrow> string" where
  "to_upper s = map to_upper_char s"

lemma of_char_digit_char [simp]: "d < 10 \<Longrightarrow> of_char (digit_char d) = 48 + d"
  by (simp add: digit_char_def)

lemma is_digit_digit_char [simp]: "d < 10 \<Longrightarrow> is_digit (digit_char d)"
  by (simp add: is_digit_def)

lemma digit_val_digit_char [simp]: "d < 10 \<Longrightarrow> digit_val (digit_char d) = d"
  by (simp add: digit_val_def)

lemma nat_str_digits: "\<forall>c \<in> set (nat_str n). is_digit c"
proof (induction n rule: nat_str.induct)
  case (1 n)
  show ?case
  proof (cases "n < 10")
    case True
    then show ?thesis by (subst nat_str.simps) simp
  next
    case False
    with "1.IH" show ?thesis by (subst nat_str.simps) auto
  qed
qed

lemma nat_str_not_Nil [simp]: "nat_str n \<noteq> []"
  by (subst nat_str.simps) simp

lemma digits_val_snoc [simp]: "digits_val (ds @ [c]) = 10 * digits_val ds + digit_val c"
  by (simp add: digits_val_def)

lemma digits_val_nat_str [simp]: "digits_val (nat_str n) = n"
proof (induction n rule: nat_str.induct)
  case (1 n)
  show ?case
  proof (cases "n < 10")
    case True
    then show ?thesis by (subst nat_str.simps) (simp add: digits_val_def)
  next
    case False
    then have "digits_val (nat_str n) = 10 * (n div 10) + n mod 10"
      by (subst nat_str.simps) (simp add: "1.IH")
    then show ?thesis by presburger
  qed
qed

lemma nat_str_inject [simp]: "nat_str m = nat_str n \<longleftrightarrow> m = n"
  by (metis digits_val_nat_str)

lemma is_digit_not_space: "is_digit c \<Longrightarrow> \<not> is_space c"
  by (auto simp: is_digit_def is_space_def)

lemma is_digit_not_sign: "is_digit c \<Longrightarrow> c \<noteq> CHR ''-'' \<and> c \<noteq> CHR ''+''"
  by (auto simp: is_digit_def)

lemma takeWhile_nat_str:
  assumes "\<And>c r. rest = c # r \<Longrightarrow> \<not> is_digit c"
  shows "takeWhile is_digit (nat_str n @ rest) = nat_str n"
  using nat_str_digits [of n] assms by (cases rest) (auto simp: takeWhile_tail)

lemma strtol_nat_str:
  assumes "\<And>c r. rest = c # r \<Longrightarrow> \<not> is_digit c"
  shows "strtol (nat_str n @ rest) = Some (int n)"
proof -
  obtain d ds where s: "nat_str n = d # ds" by (cases "nat_str n") auto
  have d: "is_digit d" using nat_str_digits [of n] s by simp
  have "dropWhile is_space (nat_str n @ rest) = nat_str n @ rest"
    using s is_digit_not_space [OF d] by simp
  moreover have "split_sign (nat_str n @ rest) = (False, nat_str n @ rest)"
    using s is_digit_not_sign [OF d] by (simp add: split_sign_def)
  ultimately show ?thesis
    using takeWhile_nat_str [OF assms] by (simp add: strtol_def)
qed

lemma stoi_nat_str: "n < 2 ^ 31 \<Longrightarrow> stoi (nat_str n) = Inr (int n)"
proof -
  assume n: "n < 2 ^ 31"
  have "strtol (nat_str n) = Some (int n)" using strtol_nat_str [of "[]" n] by simp
  moreover have "in_i32 (int n)" using n by (simp add: in_i32_def)
  ultimately show ?thesis by (simp add: stoi_def)
qed

lemma length_to_upper [simp]: "length (to_upper s) = length s"
  by (simp add: to_upper_def)

lemma to_upper_Nil [simp]: "to_upper s = [] \<longleftrightarrow> s = []"
  by (simp add: to_upper_def)

end
