(* ===== verification/Byte_Stream.thy ===== *)
theory Byte_Stream
  imports Quine_Prelude
begin

text \<open>
  Binary file streams as \<open>RdbManager\<close> uses them: little-endian integers (the byte order of the
  platforms the program runs on) and \<open>std::ifstream\<close>. A read past the end takes what is left
  and puts the stream into its fail state, in which further reads take nothing. The integer
  variables the code reads into have no initial value, so using one after a failed read is
  undefined behaviour.
\<close>

section \<open>Little-endian integers\<close>

primrec le_bytes :: "nat \<Rightarrow> nat \<Rightarrow> string" where
  "le_bytes 0 k = []"
| "le_bytes (Suc n) k = char_of k # le_bytes n (k div 256)"

primrec le_val :: "string \<Rightarrow> nat" where
  "le_val [] = 0"
| "le_val (c # cs) = of_char c + 256 * le_val cs"

lemma length_le_bytes [simp]: "length (le_bytes n k) = n"
  by (induction n arbitrary: k) simp_all

lemma le_val_mod: "le_val (le_bytes n k) = k mod 256 ^ n"
  by (induction n arbitrary: k) (simp_all add: mod_mult2_eq)

lemma le_val_bytes: "k < 256 ^ n \<Longrightarrow> le_val (le_bytes n k) = k"
  by (simp add: le_val_mod)

lemma le_bytes_add: "le_bytes (m + n) k = le_bytes m k @ le_bytes n (k div 256 ^ m)"
  by (induction m arbitrary: k) (simp_all add: div_mult2_eq)

lemma le_val_less: "le_val cs < 256 ^ length cs"
proof (induction cs)
  case (Cons c cs)
  have "(of_char c :: nat) < 256" by (rule nat_of_char_less_256)
  with Cons have "of_char c + 256 * le_val cs < 256 + 256 * (256 ^ length cs - 1)"
    by (intro add_less_le_mono mult_le_mono2) simp_all
  then show ?case by (simp add: algebra_simps)
qed simp

section \<open>Input streams\<close>

record istream =
  unread :: string
  good :: bool

definition open_istream :: "string \<Rightarrow> istream" where
  "open_istream bytes = \<lparr>unread = bytes, good = True\<rparr>"

definition read_bytes :: "nat \<Rightarrow> istream \<Rightarrow> string \<times> istream" where
  "read_bytes n ifs =
     (if \<not> good ifs then ([], ifs)
      else if n \<le> length (unread ifs) then (take n (unread ifs), ifs\<lparr>unread := drop n (unread ifs)\<rparr>)
      else (unread ifs, ifs\<lparr>unread := [], good := False\<rparr>))"

text \<open>\<open>peek() == EOF\<close>.\<close>

definition at_eof :: "istream \<Rightarrow> bool" where
  "at_eof ifs \<longleftrightarrow> \<not> good ifs \<or> unread ifs = []"

text \<open>Reading an uninitialised \<open>n\<close>-byte integer that is used afterwards.\<close>

definition read_int :: "nat \<Rightarrow> (istream, nat) st" where
  "read_int n = (\<lambda>ifs. case read_bytes n ifs of
     (got, ifs') \<Rightarrow> (if length got = n then Inr (le_val got) else Inl Undefined_behaviour, ifs'))"

text \<open>Reading into a zero-initialised buffer of \<open>n\<close> bytes.\<close>

definition read_buffer :: "nat \<Rightarrow> (istream, string) st" where
  "read_buffer n = (\<lambda>ifs. case read_bytes n ifs of
     (got, ifs') \<Rightarrow> (Inr (got @ replicate (n - length got) (CHR 0x00)), ifs'))"

lemma read_bytes_good [simp]:
  "length xs = n \<Longrightarrow> read_bytes n \<lparr>unread = xs @ ys, good = True\<rparr> = (xs, \<lparr>unread = ys, good = True\<rparr>)"
  by (simp add: read_bytes_def)

lemma read_int_good [simp]:
  "k < 256 ^ n \<Longrightarrow>
     read_int n \<lparr>unread = le_bytes n k @ ys, good = True\<rparr> = (Inr k, \<lparr>unread = ys, good = True\<rparr>)"
  by (simp add: read_int_def le_val_bytes)

lemma read_buffer_good [simp]:
  "length xs = n \<Longrightarrow>
     read_buffer n \<lparr>unread = xs @ ys, good = True\<rparr> = (Inr xs, \<lparr>unread = ys, good = True\<rparr>)"
  by (simp add: read_buffer_def)

text \<open>Reads never put bytes back.\<close>

definition shrinks :: "(istream, 'a) st \<Rightarrow> bool" where
  "shrinks m \<longleftrightarrow> (\<forall>ifs. length (unread (snd (m ifs))) \<le> length (unread ifs))"

named_theorems shrinks_intros \<open>computations that never lengthen the unread part of a stream\<close>

lemma shrinks_ret [shrinks_intros]: "shrinks (ret x)"
  by (simp add: shrinks_def)

lemma shrinks_throw [shrinks_intros]: "shrinks (throw e)"
  by (simp add: shrinks_def)

lemma shrinks_bind [shrinks_intros]: "shrinks m \<Longrightarrow> (\<And>x. shrinks (f x)) \<Longrightarrow> shrinks (bindS m f)"
  unfolding shrinks_def bindS_def by (auto split: prod.splits sum.splits) (metis le_trans snd_conv)+

lemma shrinks_read_int [shrinks_intros]: "shrinks (read_int n)"
  by (simp add: shrinks_def read_int_def read_bytes_def split: prod.splits)

lemma shrinks_read_buffer [shrinks_intros]: "shrinks (read_buffer n)"
  by (simp add: shrinks_def read_buffer_def read_bytes_def split: prod.splits)

lemma shrinksD: "shrinks m \<Longrightarrow> m ifs = (r, ifs') \<Longrightarrow> length (unread ifs') \<le> length (unread ifs)"
  unfolding shrinks_def by (metis snd_conv)

text \<open>The converse of reading: \<open>reads m bytes x\<close> says that \<open>m\<close> turns exactly \<open>bytes\<close> into \<open>x\<close>.\<close>

definition reads :: "(istream, 'a) st \<Rightarrow> string \<Rightarrow> 'a \<Rightarrow> bool" where
  "reads m bytes x \<longleftrightarrow>
     (\<forall>rest. m \<lparr>unread = bytes @ rest, good = True\<rparr> = (Inr x, \<lparr>unread = rest, good = True\<rparr>))"

lemma reads_bind: "reads m bs x \<Longrightarrow> reads (f x) cs y \<Longrightarrow> reads (bindS m f) (bs @ cs) y"
  by (simp add: reads_def)

lemma reads_ret: "reads (ret x) [] x"
  by (simp add: reads_def)

lemma reads_int: "k < 256 ^ n \<Longrightarrow> reads (read_int n) (le_bytes n k) k"
  by (simp add: reads_def)

lemma reads_buffer: "length xs = n \<Longrightarrow> reads (read_buffer n) xs xs"
  by (simp add: reads_def)

end
