(* ===== verification/Ordered_Containers.thy ===== *)
theory Ordered_Containers
  imports Quine_Prelude
begin

text \<open>
  The ordered containers of the C++ standard library the sources use: \<open>std::set\<close> with an
  arbitrary comparison, and \<open>std::map\<close> with \<open>std::less\<close>. A container is the list of its
  elements in iteration order. The operations compare elements with the container's
  comparison only, as the library does: two elements neither of which is less than the other
  are the same element of a set.

  \<open>strict_weak_order\<close> states what the standard requires of a comparison, on the elements that
  satisfy a domain predicate, and proves the laws of the set operations from it. It is
  interpreted below on every linear order and, in the theory of values, on the comparison of
  sorted-set entries.
\<close>

section \<open>Sets ordered by a comparison\<close>

fun oset_contains :: "('a \<Rightarrow> 'a \<Rightarrow> bool) \<Rightarrow> 'a \<Rightarrow> 'a list \<Rightarrow> bool" where
  "oset_contains lt x [] = False"
| "oset_contains lt x (y # ys) =
     (if lt x y then False else if lt y x then oset_contains lt x ys else True)"

text \<open>\<open>insert(x)\<close>: the new set, and whether an element was added (\<open>.second\<close>).\<close>

fun oset_insert :: "('a \<Rightarrow> 'a \<Rightarrow> bool) \<Rightarrow> 'a \<Rightarrow> 'a list \<Rightarrow> 'a list \<times> bool" where
  "oset_insert lt x [] = ([x], True)"
| "oset_insert lt x (y # ys) =
     (if lt x y then (x # y # ys, True)
      else if lt y x then (case oset_insert lt x ys of (zs, b) \<Rightarrow> (y # zs, b))
      else (y # ys, False))"

text \<open>\<open>erase(x)\<close>: the new set, and the number of elements removed (0 or 1) as a boolean.\<close>

fun oset_erase :: "('a \<Rightarrow> 'a \<Rightarrow> bool) \<Rightarrow> 'a \<Rightarrow> 'a list \<Rightarrow> 'a list \<times> bool" where
  "oset_erase lt x [] = ([], False)"
| "oset_erase lt x (y # ys) =
     (if lt x y then (y # ys, False)
      else if lt y x then (case oset_erase lt x ys of (zs, b) \<Rightarrow> (y # zs, b))
      else (ys, True))"

definition equivalent :: "('a \<Rightarrow> 'a \<Rightarrow> bool) \<Rightarrow> 'a \<Rightarrow> 'a \<Rightarrow> bool" where
  "equivalent lt x y \<longleftrightarrow> \<not> lt x y \<and> \<not> lt y x"

locale strict_weak_order =
  fixes lt :: "'a \<Rightarrow> 'a \<Rightarrow> bool" and D :: "'a \<Rightarrow> bool"
  assumes irrefl: "D x \<Longrightarrow> \<not> lt x x"
    and trans: "D x \<Longrightarrow> D y \<Longrightarrow> D z \<Longrightarrow> lt x y \<Longrightarrow> lt y z \<Longrightarrow> lt x z"
    and equiv_trans: "D x \<Longrightarrow> D y \<Longrightarrow> D z \<Longrightarrow> equivalent lt x y \<Longrightarrow> equivalent lt y z \<Longrightarrow>
           equivalent lt x z"
begin

lemma lt_equiv: "D x \<Longrightarrow> D y \<Longrightarrow> D z \<Longrightarrow> lt x y \<Longrightarrow> equivalent lt y z \<Longrightarrow> lt x z"
  by (metis equiv_trans equivalent_def irrefl trans)

lemma equiv_lt: "D x \<Longrightarrow> D y \<Longrightarrow> D z \<Longrightarrow> equivalent lt x y \<Longrightarrow> lt y z \<Longrightarrow> lt x z"
  by (metis equiv_trans equivalent_def irrefl trans)

lemma contains_iff:
  "sorted_wrt lt xs \<Longrightarrow> \<forall>y \<in> set xs. D y \<Longrightarrow> D x \<Longrightarrow>
     oset_contains lt x xs \<longleftrightarrow> (\<exists>y \<in> set xs. equivalent lt x y)"
proof (induction xs)
  case (Cons y ys)
  show ?case
  proof (cases "lt x y")
    case True
    then have "\<forall>z \<in> set (y # ys). lt x z" using Cons.prems by (auto intro: trans)
    with True show ?thesis by (auto simp: equivalent_def)
  next
    case False
    with Cons show ?thesis by (auto simp: equivalent_def)
  qed
qed simp

lemma insert_set:
  "sorted_wrt lt xs \<Longrightarrow> \<forall>y \<in> set xs. D y \<Longrightarrow> D x \<Longrightarrow>
     set (fst (oset_insert lt x xs)) = (if oset_contains lt x xs then set xs else insert x (set xs))"
  by (induction xs) (auto split: prod.splits)

lemma insert_snd: "snd (oset_insert lt x xs) \<longleftrightarrow> \<not> oset_contains lt x xs"
  by (induction xs) (auto split: prod.splits)

lemma insert_contained: "oset_contains lt x xs \<Longrightarrow> fst (oset_insert lt x xs) = xs"
  by (induction xs) (auto split: prod.splits if_splits)

lemma insert_sorted:
  "sorted_wrt lt xs \<Longrightarrow> \<forall>y \<in> set xs. D y \<Longrightarrow> D x \<Longrightarrow> sorted_wrt lt (fst (oset_insert lt x xs))"
proof (induction xs)
  case (Cons y ys)
  have *: "set (fst (oset_insert lt x ys)) \<subseteq> insert x (set ys)"
    using insert_set [of ys x] Cons.prems by auto
  show ?case
  proof (cases "lt x y")
    case True
    then have "\<forall>z \<in> set ys. lt x z" using Cons.prems by (auto intro: trans)
    with True Cons.prems show ?thesis by simp
  next
    case False
    with Cons * show ?thesis by (auto split: prod.splits)
  qed
qed simp

lemma insert_length:
  "length (fst (oset_insert lt x xs)) = (if oset_contains lt x xs then length xs else Suc (length xs))"
  by (induction xs) (auto split: prod.splits)

lemma erase_set:
  "sorted_wrt lt xs \<Longrightarrow> \<forall>y \<in> set xs. D y \<Longrightarrow> D x \<Longrightarrow>
     set (fst (oset_erase lt x xs)) = {y \<in> set xs. \<not> equivalent lt x y}"
proof (induction xs)
  case (Cons y ys)
  consider (lt) "lt x y" | (gt) "\<not> lt x y" "lt y x" | (eq) "equivalent lt x y"
    by (auto simp: equivalent_def)
  then show ?case
  proof cases
    case lt
    then have "\<forall>z \<in> set ys. lt x z" using Cons.prems by (auto intro: trans)
    with lt show ?thesis by (auto simp: equivalent_def)
  next
    case gt
    with Cons show ?thesis by (auto simp: equivalent_def split: prod.splits)
  next
    case eq
    then have "\<forall>z \<in> set ys. lt x z" using Cons.prems by (auto intro: equiv_lt)
    with eq show ?thesis by (auto simp: equivalent_def)
  qed
qed simp

lemma erase_snd: "snd (oset_erase lt x xs) \<longleftrightarrow> oset_contains lt x xs"
  by (induction xs) (auto split: prod.splits)

lemma erase_sorted: "sorted_wrt lt xs \<Longrightarrow> sorted_wrt lt (fst (oset_erase lt x xs))"
proof (induction xs)
  case (Cons y ys)
  have "set (fst (oset_erase lt x ys)) \<subseteq> set ys"
    by (induction ys) (auto split: prod.splits)
  with Cons show ?case by (auto split: prod.splits)
qed simp

lemma erase_absent: "\<not> oset_contains lt x xs \<Longrightarrow> fst (oset_erase lt x xs) = xs"
  by (induction xs) (auto split: prod.splits if_splits)

lemma erase_length:
  "length (fst (oset_erase lt x xs)) = (if oset_contains lt x xs then length xs - 1 else length xs)"
proof (induction xs)
  case (Cons y ys)
  then show ?case by (cases ys) (auto split: prod.splits)
qed simp

lemma sorted_distinct: "sorted_wrt lt xs \<Longrightarrow> \<forall>y \<in> set xs. D y \<Longrightarrow> distinct xs"
  by (induction xs) (auto dest: irrefl)

end

text \<open>\<open>std::less\<close> on a linear order; equivalent elements are equal.\<close>

lemma equivalent_less [simp]: "equivalent (<) x y \<longleftrightarrow> x = (y :: 'a :: linorder)"
  by (auto simp: equivalent_def)

interpretation less_set: strict_weak_order "(<) :: 'a :: linorder \<Rightarrow> 'a \<Rightarrow> bool" "\<lambda>_. True"
  by unfold_locales auto

lemma less_set_contains [simp]:
  "sorted_wrt (<) xs \<Longrightarrow> oset_contains (<) x xs \<longleftrightarrow> x \<in> set (xs :: 'a :: linorder list)"
  using less_set.contains_iff [of xs x] by simp

text \<open>The laws of \<open>std::set\<close> insertion and erasure for this order.\<close>

lemma less_set_insert:
  fixes xs :: "'a :: linorder list"
  assumes "sorted_wrt (<) xs" "oset_insert (<) x xs = (ys, b)"
  shows "set ys = insert x (set xs)" "sorted_wrt (<) ys" "b \<longleftrightarrow> x \<notin> set xs"
  using less_set.insert_set [of xs x] less_set.insert_sorted [of xs x] less_set.insert_snd [of x xs] assms
  by auto

lemma less_set_erase:
  fixes xs :: "'a :: linorder list"
  assumes "sorted_wrt (<) xs" "oset_erase (<) x xs = (ys, b)"
  shows "set ys = set xs - {x}" "sorted_wrt (<) ys" "b \<longleftrightarrow> x \<in> set xs"
  using less_set.erase_set [of xs x] less_set.erase_sorted [of xs x] less_set.erase_snd [of x xs] assms
  by auto

section \<open>Maps ordered by \<open>std::less\<close> on the keys\<close>

fun omap_find :: "('k :: linorder \<times> 'v) list \<Rightarrow> 'k \<Rightarrow> 'v option" where
  "omap_find [] k = None"
| "omap_find ((a, v) # m) k = (if k < a then None else if a < k then omap_find m k else Some v)"

text \<open>\<open>m[k] = v\<close>.\<close>

fun omap_put :: "('k :: linorder \<times> 'v) list \<Rightarrow> 'k \<Rightarrow> 'v \<Rightarrow> ('k \<times> 'v) list" where
  "omap_put [] k v = [(k, v)]"
| "omap_put ((a, w) # m) k v =
     (if k < a then (k, v) # (a, w) # m else if a < k then (a, w) # omap_put m k v
      else (a, v) # m)"

text \<open>\<open>m.erase(k)\<close>: the new map, and whether an entry was removed.\<close>

fun omap_erase :: "('k :: linorder \<times> 'v) list \<Rightarrow> 'k \<Rightarrow> ('k \<times> 'v) list \<times> bool" where
  "omap_erase [] k = ([], False)"
| "omap_erase ((a, w) # m) k =
     (if k < a then ((a, w) # m, False)
      else if a < k then (case omap_erase m k of (m', b) \<Rightarrow> ((a, w) # m', b))
      else (m, True))"

text \<open>\<open>m.lower_bound(k)\<close>: the first entry whose key is not less than \<open>k\<close>, if any.\<close>

fun omap_lower_bound :: "('k :: linorder \<times> 'v) list \<Rightarrow> 'k \<Rightarrow> ('k \<times> 'v) option" where
  "omap_lower_bound [] k = None"
| "omap_lower_bound ((a, v) # m) k = (if a < k then omap_lower_bound m k else Some (a, v))"

definition omap_sorted :: "('k :: linorder \<times> 'v) list \<Rightarrow> bool" where
  "omap_sorted m \<longleftrightarrow> sorted_wrt (<) (map fst m)"

named_theorems omap_simps \<open>laws of the ordered map operations\<close>

lemma omap_sorted_Nil [simp]: "omap_sorted []"
  by (simp add: omap_sorted_def)

lemma omap_sorted_Cons [simp]:
  "omap_sorted ((a, v) # m) \<longleftrightarrow> (\<forall>k \<in> fst ` set m. a < k) \<and> omap_sorted m"
  by (auto simp: omap_sorted_def)

lemma omap_find_map_of: "omap_sorted m \<Longrightarrow> omap_find m k = map_of m k"
proof (induction m)
  case (Cons e m)
  obtain a v where [simp]: "e = (a, v)" by (cases e)
  have "k < a \<Longrightarrow> map_of m k = None"
    using Cons.prems by (auto simp: map_of_eq_None_iff)
  with Cons show ?case by auto
qed simp

lemma omap_find_put [simp, omap_simps]:
  "omap_find (omap_put m k v) = (omap_find m)(k \<mapsto> v)" if "omap_sorted m"
proof
  fix j
  show "omap_find (omap_put m k v) j = ((omap_find m)(k \<mapsto> v)) j"
    using that
  proof (induction m)
    case (Cons e m)
    obtain a w where [simp]: "e = (a, w)" by (cases e)
    have *: "omap_find m x = None" if "x \<le> a" for x
    proof -
      have "x \<notin> fst ` set m" using Cons.prems that by fastforce
      with Cons.prems show ?thesis by (simp add: omap_find_map_of map_of_eq_None_iff)
    qed
    from Cons show ?case by (auto simp: * not_less_iff_gr_or_eq)
  qed simp
qed

lemma omap_keys_put: "fst ` set (omap_put m k v) = insert k (fst ` set m)"
proof (induction m)
  case (Cons e m)
  obtain a w where [simp]: "e = (a, w)" by (cases e)
  have "\<not> k < a \<Longrightarrow> \<not> a < k \<Longrightarrow> k = a" by simp
  with Cons show ?case by auto
qed simp

lemma omap_sorted_put [simp, intro]: "omap_sorted m \<Longrightarrow> omap_sorted (omap_put m k v)"
proof (induction m)
  case (Cons e m)
  obtain a w where [simp]: "e = (a, w)" by (cases e)
  from Cons show ?case by (auto simp: omap_keys_put)
qed simp

lemma omap_length_put:
  "omap_sorted m \<Longrightarrow>
     length (omap_put m k v) = (if omap_find m k = None then Suc (length m) else length m)"
proof (induction m)
  case (Cons e m)
  obtain a w where [simp]: "e = (a, w)" by (cases e)
  from Cons show ?case by (cases k a rule: linorder_cases) auto
qed simp

lemma omap_keys_erase:
  "omap_sorted m \<Longrightarrow> fst ` set (fst (omap_erase m k)) = fst ` set m - {k}"
proof (induction m)
  case (Cons e m)
  obtain a w where [simp]: "e = (a, w)" by (cases e)
  show ?case
  proof (cases k a rule: linorder_cases)
    case less
    then have "k \<notin> fst ` set m" using Cons.prems by fastforce
    with less show ?thesis by simp
  next
    case equal
    then have "k \<notin> fst ` set m" using Cons.prems by fastforce
    with equal show ?thesis by simp
  next
    case greater
    obtain m' b where e: "omap_erase m k = (m', b)" by (cases "omap_erase m k")
    with greater Cons show ?thesis by (simp add: insert_Diff_if)
  qed
qed simp

lemma omap_find_erase [simp, omap_simps]:
  "omap_sorted m \<Longrightarrow> omap_find (fst (omap_erase m k)) j = (if j = k then None else omap_find m j)"
proof (induction m)
  case (Cons e m)
  obtain a w where [simp]: "e = (a, w)" by (cases e)
  have *: "omap_find m x = None" if "x \<le> a" for x
  proof -
    have "x \<notin> fst ` set m" using Cons.prems that by fastforce
    with Cons.prems show ?thesis by (simp add: omap_find_map_of map_of_eq_None_iff)
  qed
  from Cons show ?case by (auto simp: * not_less_iff_gr_or_eq split: prod.splits)
qed simp

lemma omap_sorted_erase [simp, intro]: "omap_sorted m \<Longrightarrow> omap_sorted (fst (omap_erase m k))"
proof (induction m)
  case (Cons e m)
  obtain a w where [simp]: "e = (a, w)" by (cases e)
  have "fst ` set (fst (omap_erase m k)) \<subseteq> fst ` set m"
    using Cons.prems by (simp add: omap_keys_erase)
  moreover have "\<forall>j \<in> fst ` set m. a < j" using Cons.prems by simp
  ultimately have "\<forall>j \<in> fst ` set (fst (omap_erase m k)). a < j" by blast
  with Cons show ?case by (auto split: prod.splits)
qed simp

lemma omap_erase_snd [simp, omap_simps]: "snd (omap_erase m k) \<longleftrightarrow> omap_find m k \<noteq> None"
proof (induction m)
  case (Cons e m)
  obtain a w where [simp]: "e = (a, w)" by (cases e)
  from Cons show ?case by (cases k a rule: linorder_cases) (auto split: prod.splits)
qed simp

lemma omap_lower_bound_None:
  "omap_sorted m \<Longrightarrow> omap_lower_bound m k = None \<longleftrightarrow> (\<forall>a \<in> fst ` set m. a < k)"
proof (induction m)
  case (Cons e m)
  obtain a w where [simp]: "e = (a, w)" by (cases e)
  from Cons show ?case by auto
qed simp

lemma omap_lower_bound_Some:
  assumes "omap_sorted m"
  shows "omap_lower_bound m k = Some (a, v) \<longleftrightarrow>
     omap_find m a = Some v \<and> k \<le> a \<and> (\<forall>b \<in> fst ` set m. k \<le> b \<longrightarrow> a \<le> b)"
  using assms
proof (induction m)
  case (Cons e m)
  obtain a' w where [simp]: "e = (a', w)" by (cases e)
  have absent: "omap_find m x = None" if "x \<le> a'" for x
  proof -
    have "x \<notin> fst ` set m" using Cons.prems that by fastforce
    with Cons.prems show ?thesis by (simp add: omap_find_map_of map_of_eq_None_iff)
  qed
  show ?case
  proof (cases "a' < k")
    case True
    with Cons absent [of a] show ?thesis
      by (cases a a' rule: linorder_cases) auto
  next
    case False
    with Cons.prems absent [of a] show ?thesis
      by (cases a a' rule: linorder_cases) fastforce+
  qed
qed simp

end
