(* ===== verification/Double_Float.thy ===== *)
theory Double_Float
  imports Quine_Prelude
begin

text \<open>
  The C++ \<open>double\<close> of sorted-set scores: an IEEE-754 binary64 number, kept as its 64 bits so
  that the snapshot format can write it byte by byte. The theory models what the sources use
  of it: \<open>operator<\<close>, \<open>operator!=\<close>, \<open>std::stod\<close> and \<open>std::to_string\<close> (glibc, round to nearest
  even, "C" locale).

  A finite double is an integer multiple of \<open>2 ^ -1074\<close>; \<open>dbl_scaled\<close> is that integer, so no
  rounding is hidden in real arithmetic. \<open>std::stod\<close> computes the exact fraction the text
  denotes and rounds it once; \<open>std::to_string\<close> rounds the exact value once to six decimals.
\<close>

type_synonym double = "64 word"

section \<open>Fields, value and comparison\<close>

definition dbl_neg :: "double \<Rightarrow> bool" where
  "dbl_neg d \<longleftrightarrow> 2 ^ 63 \<le> unat d"

definition dbl_mag :: "double \<Rightarrow> nat" where
  "dbl_mag d = unat d mod 2 ^ 63"

definition dbl_exp :: "double \<Rightarrow> nat" where
  "dbl_exp d = dbl_mag d div 2 ^ 52"

definition dbl_frac :: "double \<Rightarrow> nat" where
  "dbl_frac d = dbl_mag d mod 2 ^ 52"

definition is_nan :: "double \<Rightarrow> bool" where
  "is_nan d \<longleftrightarrow> dbl_exp d = 2047 \<and> dbl_frac d \<noteq> 0"

definition is_inf :: "double \<Rightarrow> bool" where
  "is_inf d \<longleftrightarrow> dbl_exp d = 2047 \<and> dbl_frac d = 0"

text \<open>The magnitude of a finite double, in units of \<open>2 ^ -1074\<close>.\<close>

definition mag_scaled :: "nat \<Rightarrow> nat" where
  "mag_scaled m = (if m < 2 ^ 52 then m else (2 ^ 52 + m mod 2 ^ 52) * 2 ^ (m div 2 ^ 52 - 1))"

definition dbl_scaled :: "double \<Rightarrow> int" where
  "dbl_scaled d = (if dbl_neg d then - int (mag_scaled (dbl_mag d)) else int (mag_scaled (dbl_mag d)))"

text \<open>
  Comparison. The magnitude bits of a double are ordered as its absolute value, which
  \<open>dbl_key\<close> uses; \<open>dbl_lt_scaled\<close> below relates it to the value.
\<close>

definition dbl_key :: "double \<Rightarrow> int" where
  "dbl_key d = (if dbl_neg d then - int (dbl_mag d) else int (dbl_mag d))"

definition dbl_lt :: "double \<Rightarrow> double \<Rightarrow> bool" where
  "dbl_lt a b \<longleftrightarrow> \<not> is_nan a \<and> \<not> is_nan b \<and> dbl_key a < dbl_key b"

definition dbl_eq :: "double \<Rightarrow> double \<Rightarrow> bool" where
  "dbl_eq a b \<longleftrightarrow> \<not> is_nan a \<and> \<not> is_nan b \<and> dbl_key a = dbl_key b"

section \<open>Rounding\<close>

definition round_div_even :: "nat \<Rightarrow> nat \<Rightarrow> nat" where
  "round_div_even n d =
     (let q = n div d; r = n mod d
      in if 2 * r < d then q else if d < 2 * r then q + 1 else if even q then q else q + 1)"

fun bit_len :: "nat \<Rightarrow> nat" where
  "bit_len n = (if n = 0 then 0 else Suc (bit_len (n div 2)))"

declare bit_len.simps [simp del]

text \<open>The largest \<open>l\<close> with \<open>den * 2 ^ l \<le> num\<close>, for positive \<open>num\<close> and \<open>den\<close>.\<close>

definition frac_log2 :: "nat \<Rightarrow> nat \<Rightarrow> int" where
  "frac_log2 num den =
     (let l = int (bit_len num) - int (bit_len den)
      in if den * 2 ^ nat l \<le> num * 2 ^ nat (- l) then l else l - 1)"

text \<open>
  The magnitude bits of the double nearest to \<open>num / den\<close>: the last bit of the significand
  has weight \<open>2 ^ e\<close>, and a carry out of the significand moves into the exponent field.
  From \<open>2047 * 2 ^ 52\<close> on, the number is too large.
\<close>

definition mag_of_frac :: "nat \<Rightarrow> nat \<Rightarrow> nat" where
  "mag_of_frac num den =
     (if num = 0 then 0
      else let e = max (- 1074) (frac_log2 num den - 52);
               m = round_div_even (num * 2 ^ nat (- e)) (den * 2 ^ nat e)
           in nat (e + 1074) * 2 ^ 52 + m)"

definition dbl_of_mag :: "bool \<Rightarrow> nat \<Rightarrow> double" where
  "dbl_of_mag neg m = word_of_nat (if neg then 2 ^ 63 + m else m)"

definition dbl_inf :: "bool \<Rightarrow> double" where
  "dbl_inf neg = dbl_of_mag neg (2047 * 2 ^ 52)"

definition dbl_nan :: "bool \<Rightarrow> double" where
  "dbl_nan neg = dbl_of_mag neg (2047 * 2 ^ 52 + 2 ^ 51)"

section \<open>\<open>std::stod\<close>\<close>

text \<open>
  What \<open>strtod\<close> recognises after white space and a sign: an infinity, a not-a-number, or a
  fraction \<open>num / den\<close>.
\<close>

datatype strtod_result = Strtod_inf | Strtod_nan | Strtod_frac nat nat

definition hex_val :: "char \<Rightarrow> nat option" where
  "hex_val c =
     (let n = of_char (to_upper_char c) :: nat
      in if is_digit c then Some (digit_val c)
         else if 65 \<le> n \<and> n \<le> 70 then Some (n - 55) else None)"

definition is_hex :: "char \<Rightarrow> bool" where
  "is_hex c \<longleftrightarrow> hex_val c \<noteq> None"

definition hex_digits_val :: "string \<Rightarrow> nat" where
  "hex_digits_val ds = foldl (\<lambda>n c. 16 * n + the (hex_val c)) 0 ds"

definition starts_with :: "string \<Rightarrow> string \<Rightarrow> bool" where
  "starts_with p s \<longleftrightarrow> take (length p) s = p"

text \<open>The optional fraction part after the integer digits.\<close>

definition split_point :: "(char \<Rightarrow> bool) \<Rightarrow> string \<Rightarrow> string \<times> string \<times> string" where
  "split_point p u =
     (let ip = takeWhile p u; r = dropWhile p u
      in case r of
           [] \<Rightarrow> (ip, [], [])
         | c # r' \<Rightarrow> if c = CHR ''.'' then (ip, takeWhile p r', dropWhile p r') else (ip, [], r))"

text \<open>The optional exponent, introduced by the letter \<open>x\<close> in either case.\<close>

definition read_exponent :: "char \<Rightarrow> string \<Rightarrow> int" where
  "read_exponent x r =
     (case r of
        [] \<Rightarrow> 0
      | c # r' \<Rightarrow>
          if to_upper_char c = x then
            (let (neg, t) = split_sign r'; ds = takeWhile is_digit t
             in if neg then - int (digits_val ds) else int (digits_val ds))
          else 0)"

definition scale :: "nat \<Rightarrow> nat \<Rightarrow> int \<Rightarrow> strtod_result" where
  "scale b m e = (if 0 \<le> e then Strtod_frac (m * b ^ nat e) 1 else Strtod_frac m (b ^ nat (- e)))"

definition strtod_decimal :: "string \<Rightarrow> strtod_result option" where
  "strtod_decimal u =
     (let (ip, fp, r) = split_point is_digit u
      in if ip @ fp = [] then None
         else Some (scale 10 (digits_val (ip @ fp))
                      (read_exponent (CHR ''E'') r - int (length fp))))"

definition strtod_hex :: "string \<Rightarrow> strtod_result option" where
  "strtod_hex u =
     (let (ip, fp, r) = split_point is_hex u
      in if ip @ fp = [] then None
         else Some (scale 2 (hex_digits_val (ip @ fp))
                      (read_exponent (CHR ''P'') r - 4 * int (length fp))))"

definition strtod_body :: "string \<Rightarrow> strtod_result option" where
  "strtod_body u =
     (if starts_with ''INF'' (to_upper u) then Some Strtod_inf
      else if starts_with ''NAN'' (to_upper u) then Some Strtod_nan
      else if starts_with ''0X'' (to_upper u) then
        (case strtod_hex (drop 2 u) of Some x \<Rightarrow> Some x | None \<Rightarrow> strtod_decimal u)
      else strtod_decimal u)"

text \<open>
  \<open>std::stod\<close> throws \<open>invalid_argument\<close> when nothing is converted and \<open>out_of_range\<close> when
  \<open>strtod\<close> reports \<open>ERANGE\<close>: the number is too large, or its double is below the normal range
  and not exact.
\<close>

definition stod :: "string \<Rightarrow> fault + double" where
  "stod s =
     (let (neg, u) = split_sign (dropWhile is_space s)
      in case strtod_body u of
           None \<Rightarrow> Inl Invalid_argument
         | Some Strtod_inf \<Rightarrow> Inr (dbl_inf neg)
         | Some Strtod_nan \<Rightarrow> Inr (dbl_nan neg)
         | Some (Strtod_frac num den) \<Rightarrow>
             let m = mag_of_frac num den
             in if 2047 * 2 ^ 52 \<le> m \<or> (m < 2 ^ 52 \<and> mag_scaled m * den \<noteq> num * 2 ^ 1074)
                then Inl Out_of_range
                else Inr (dbl_of_mag neg m))"

section \<open>\<open>std::to_string\<close>\<close>

definition pad6 :: "nat \<Rightarrow> string" where
  "pad6 n = map (\<lambda>i. digit_char (n div 10 ^ i mod 10)) [5, 4, 3, 2, 1, 0]"

text \<open>The text \<open>printf("%f", d)\<close> produces.\<close>

definition dbl_to_string :: "double \<Rightarrow> string" where
  "dbl_to_string d =
     (if dbl_neg d then ''-'' else []) @
     (if is_nan d then ''nan'' else if is_inf d then ''inf''
      else let q = round_div_even (mag_scaled (dbl_mag d) * 10 ^ 6) (2 ^ 1074)
           in nat_str (q div 10 ^ 6) @ ''.'' @ pad6 (q mod 10 ^ 6))"

section \<open>Order\<close>

lemma dbl_mag_less: "dbl_mag d < 2 ^ 63"
  by (simp add: dbl_mag_def)

lemma dbl_exp_le: "dbl_exp d \<le> 2047"
proof -
  have "dbl_exp d < 2 ^ 11"
    using dbl_mag_less [of d] by (simp add: dbl_exp_def less_mult_imp_div_less)
  then show ?thesis by simp
qed

lemma mag_scaled_mono: "m < n \<Longrightarrow> mag_scaled m < mag_scaled n"
proof -
  assume mn: "m < n"
  define a where "a = m div 2 ^ 52"
  define b where "b = n div 2 ^ 52"
  have m: "m = a * 2 ^ 52 + m mod 2 ^ 52" and n: "n = b * 2 ^ 52 + n mod 2 ^ 52"
    by (simp_all add: a_def b_def)
  have lt: "m mod 2 ^ 52 < 2 ^ 52" "n mod 2 ^ 52 < (2 ^ 52 :: nat)" by simp_all
  consider (small) "n < 2 ^ 52" | (mixed) "m < 2 ^ 52" "2 ^ 52 \<le> n" | (big) "2 ^ 52 \<le> m"
    by linarith
  then show ?thesis
  proof cases
    case small
    with mn show ?thesis by (simp add: mag_scaled_def)
  next
    case mixed
    have "2 ^ 52 \<le> mag_scaled n"
    proof -
      have "(2 ^ 52 :: nat) * 1 \<le> (2 ^ 52 + n mod 2 ^ 52) * 2 ^ (n div 2 ^ 52 - 1)"
        by (rule mult_le_mono) simp_all
      with mixed show ?thesis by (simp add: mag_scaled_def)
    qed
    with mixed show ?thesis by (simp add: mag_scaled_def)
  next
    case big
    then have a1: "1 \<le> a" by (simp add: a_def less_eq_div_iff_mult_less_eq)
    have ab: "a \<le> b" using mn by (simp add: a_def b_def div_le_mono)
    show ?thesis
    proof (cases "a = b")
      case True
      with mn m n have "a * 2 ^ 52 + m mod 2 ^ 52 < a * 2 ^ 52 + n mod 2 ^ 52" by metis
      then have "m mod 2 ^ 52 < n mod 2 ^ 52" by simp
      with big mn True show ?thesis by (simp add: mag_scaled_def a_def b_def)
    next
      case False
      with ab have "a < b" by simp
      with a1 have k: "b - 1 = a - 1 + Suc (b - a - 1)" by simp
      have "(2 ^ 52 + m mod 2 ^ 52) * 2 ^ (a - 1) < 2 * 2 ^ 52 * (2 :: nat) ^ (a - 1)"
        using lt(1) by simp
      also have "\<dots> \<le> 2 ^ 52 * 2 ^ (b - 1)" by (subst k) (simp add: power_add)
      also have "\<dots> \<le> (2 ^ 52 + n mod 2 ^ 52) * 2 ^ (b - 1)" by simp
      finally show ?thesis using big mn by (simp add: mag_scaled_def a_def b_def)
    qed
  qed
qed

lemma mag_scaled_less_iff [simp]: "mag_scaled m < mag_scaled n \<longleftrightarrow> m < n"
  by (metis mag_scaled_mono linorder_neqE_nat order_less_asym)

lemma mag_scaled_eq_0 [simp]: "mag_scaled m = 0 \<longleftrightarrow> m = 0"
proof -
  have "mag_scaled 0 = 0" by (simp add: mag_scaled_def)
  then show ?thesis by (metis mag_scaled_less_iff bot_nat_0.not_eq_extremum)
qed

text \<open>On numbers that are not NaN, the comparison is the comparison of the values.\<close>

lemma dbl_lt_scaled:
  "\<not> is_nan a \<Longrightarrow> \<not> is_nan b \<Longrightarrow> dbl_lt a b \<longleftrightarrow> dbl_scaled a < dbl_scaled b"
proof -
  assume "\<not> is_nan a" "\<not> is_nan b"
  moreover have "dbl_key a < dbl_key b \<longleftrightarrow> dbl_scaled a < dbl_scaled b"
  proof (cases "dbl_neg a"; cases "dbl_neg b")
    assume "dbl_neg a" "\<not> dbl_neg b"
    moreover have "- int (dbl_mag a) < int (dbl_mag b) \<longleftrightarrow> \<not> (dbl_mag a = 0 \<and> dbl_mag b = 0)"
      by linarith
    moreover have "- int (mag_scaled (dbl_mag a)) < int (mag_scaled (dbl_mag b)) \<longleftrightarrow>
        \<not> (mag_scaled (dbl_mag a) = 0 \<and> mag_scaled (dbl_mag b) = 0)"
      by linarith
    ultimately show ?thesis by (simp add: dbl_key_def dbl_scaled_def)
  qed (simp_all add: dbl_key_def dbl_scaled_def)
  ultimately show ?thesis by (simp add: dbl_lt_def)
qed

end
