(* ===== verification/Values.thy ===== *)
theory Values
  imports Ordered_Containers Double_Float
begin

text \<open>
  The values of the store (\<open>src/storage/value.hpp\<close>): strings, lists, sets, hashes, sorted sets
  and the empty alternative of the variant. A sorted set keeps an ordered tree of entries and
  a dictionary from members to scores; \<open>zset_inv\<close> says that the two agree, and both of its
  operations keep it.
\<close>

section \<open>Sorted sets\<close>

record zset_entry =
  score :: double
  member :: string

text \<open>\<open>ZSetEntry::operator<\<close>.\<close>

definition entry_lt :: "zset_entry \<Rightarrow> zset_entry \<Rightarrow> bool" where
  "entry_lt a b =
     (if \<not> dbl_eq (score a) (score b) then dbl_lt (score a) (score b) else member a < member b)"

record zset =
  tree :: "zset_entry list"
  dict :: "string \<rightharpoonup> double"

definition empty_zset :: zset where
  "empty_zset = \<lparr>tree = [], dict = Map.empty\<rparr>"

text \<open>\<open>ZSet::insert\<close>.\<close>

definition zset_insert :: "zset_entry \<Rightarrow> zset \<Rightarrow> zset" where
  "zset_insert e z =
     (let t = (case dict z (member e) of
                 Some s \<Rightarrow> fst (oset_erase entry_lt \<lparr>score = s, member = member e\<rparr> (tree z))
               | None \<Rightarrow> tree z)
      in \<lparr>tree = fst (oset_insert entry_lt e t), dict = (dict z)(member e \<mapsto> score e)\<rparr>)"

text \<open>\<open>ZSet::erase\<close>: the new set, and whether the member was there.\<close>

definition zset_erase :: "string \<Rightarrow> zset \<Rightarrow> zset \<times> bool" where
  "zset_erase m z =
     (case dict z m of
        Some s \<Rightarrow>
          (\<lparr>tree = fst (oset_erase entry_lt \<lparr>score = s, member = m\<rparr> (tree z)),
            dict = (dict z)(m := None)\<rparr>, True)
      | None \<Rightarrow> (z, False))"

text \<open>\<open>ZSet::size\<close>.\<close>

definition zset_size :: "zset \<Rightarrow> nat" where
  "zset_size z = length (tree z)"

section \<open>The variant\<close>

datatype cvalue =
    Monostate
  | VString string
  | VList "string list"
  | VSet "string list"
  | VHash "(string \<times> string) list"
  | VZSet zset

datatype value_type = NONE | STRING | LIST | SET | HASH | ZSET

fun get_type :: "cvalue \<Rightarrow> value_type" where
  "get_type (VString _) = STRING"
| "get_type (VList _) = LIST"
| "get_type (VSet _) = SET"
| "get_type (VHash _) = HASH"
| "get_type (VZSet _) = ZSET"
| "get_type Monostate = NONE"

section \<open>Invariants\<close>

definition entry_ok :: "zset_entry \<Rightarrow> bool" where
  "entry_ok e \<longleftrightarrow> \<not> is_nan (score e)"

definition zset_inv :: "zset \<Rightarrow> bool" where
  "zset_inv z \<longleftrightarrow>
     sorted_wrt entry_lt (tree z) \<and> (\<forall>e \<in> set (tree z). entry_ok e) \<and>
     (\<forall>m s. dict z m = Some s \<longleftrightarrow> \<lparr>score = s, member = m\<rparr> \<in> set (tree z))"

fun value_inv :: "cvalue \<Rightarrow> bool" where
  "value_inv (VSet xs) = sorted_wrt (<) xs"
| "value_inv (VHash m) = omap_sorted m"
| "value_inv (VZSet z) = zset_inv z"
| "value_inv _ = True"

text \<open>
  Off NaN, the comparison is the lexicographic order of numeric score and member, so it is a
  strict weak order; the two zeros are the only distinct scores it identifies.
\<close>

lemma entry_lt_ok:
  "entry_ok a \<Longrightarrow> entry_ok b \<Longrightarrow>
     entry_lt a b \<longleftrightarrow> dbl_key (score a) < dbl_key (score b) \<or>
       (dbl_key (score a) = dbl_key (score b) \<and> member a < member b)"
  by (auto simp: entry_lt_def dbl_eq_def dbl_lt_def entry_ok_def)

lemma entry_equivalent:
  "entry_ok a \<Longrightarrow> entry_ok b \<Longrightarrow>
     equivalent entry_lt a b \<longleftrightarrow> dbl_key (score a) = dbl_key (score b) \<and> member a = member b"
  by (auto simp: equivalent_def entry_lt_ok)

interpretation zs: strict_weak_order entry_lt entry_ok
  by unfold_locales (auto simp: entry_lt_ok entry_equivalent)

lemma zset_inv_empty [simp, intro]: "zset_inv empty_zset"
  by (simp add: zset_inv_def empty_zset_def)

lemma zset_invD:
  assumes "zset_inv z"
  shows "sorted_wrt entry_lt (tree z)" "\<forall>e \<in> set (tree z). entry_ok e"
    "dict z m = Some s \<longleftrightarrow> \<lparr>score = s, member = m\<rparr> \<in> set (tree z)"
  using assms by (auto simp: zset_inv_def)

lemma zset_entry_eta [simp]: "\<lparr>score = score e, member = member e\<rparr> = e"
  by simp

lemma zset_dict_tree:
  assumes "zset_inv z" "e \<in> set (tree z)"
  shows "dict z (member e) = Some (score e)"
  using zset_invD(3) [OF assms(1)] assms(2) by (metis zset_entry_eta)

lemma zset_member_unique:
  assumes "zset_inv z" "a \<in> set (tree z)" "b \<in> set (tree z)" "member a = member b"
  shows "a = b"
proof -
  have "dict z (member a) = Some (score a)" "dict z (member b) = Some (score b)"
    using assms(1-3) by (blast intro: zset_dict_tree)+
  with assms(4) show ?thesis by (metis option.inject zset_entry_eta)
qed

text \<open>Erasing the entry the dictionary records removes exactly that member from the tree.\<close>

lemma zset_tree_erase:
  assumes inv: "zset_inv z" and d: "dict z m = Some s"
  shows "set (fst (oset_erase entry_lt \<lparr>score = s, member = m\<rparr> (tree z))) =
           {e \<in> set (tree z). member e \<noteq> m}"
proof -
  let ?x = "\<lparr>score = s, member = m\<rparr>"
  have x: "?x \<in> set (tree z)" using inv d by (simp add: zset_invD)
  then have ok: "entry_ok ?x" using inv by (simp add: zset_invD)
  have "equivalent entry_lt ?x e \<longleftrightarrow> member e = m" if e: "e \<in> set (tree z)" for e
  proof -
    have "entry_ok e" using inv e by (simp add: zset_invD)
    moreover have "member e = m \<Longrightarrow> score e = s"
      using zset_dict_tree [OF inv e] d by simp
    ultimately show ?thesis using ok by (auto simp: entry_equivalent)
  qed
  then show ?thesis
    using zs.erase_set [of "tree z" ?x] zset_invD(1,2) [OF inv] ok by auto
qed

lemma zset_inv_erase:
  assumes inv: "zset_inv z"
  shows "zset_inv (fst (zset_erase m z))"
proof (cases "dict z m")
  case None
  with inv show ?thesis by (simp add: zset_erase_def)
next
  case (Some s)
  note te = zset_tree_erase [OF inv Some]
  define t where "t = fst (oset_erase entry_lt \<lparr>score = s, member = m\<rparr> (tree z))"
  have "zset_erase m z = (\<lparr>tree = t, dict = (dict z)(m := None)\<rparr>, True)"
    by (simp add: zset_erase_def Some t_def)
  moreover have "sorted_wrt entry_lt t"
    unfolding t_def by (rule zs.erase_sorted) (rule zset_invD(1) [OF inv])
  moreover have "set t = {e \<in> set (tree z). member e \<noteq> m}" using te by (simp add: t_def)
  ultimately show ?thesis using zset_invD(2,3) [OF inv] by (simp add: zset_inv_def)
qed

lemma zset_inv_insert:
  assumes inv: "zset_inv z" and ok: "entry_ok e"
  shows "zset_inv (zset_insert e z)"
proof -
  define t where "t = (case dict z (member e) of
      Some s \<Rightarrow> fst (oset_erase entry_lt \<lparr>score = s, member = member e\<rparr> (tree z))
    | None \<Rightarrow> tree z)"
  have t_set: "set t = {x \<in> set (tree z). member x \<noteq> member e}"
  proof (cases "dict z (member e)")
    case None
    then have "x \<in> set (tree z) \<Longrightarrow> member x \<noteq> member e" for x
      using zset_dict_tree [OF inv, of x] by auto
    with None show ?thesis by (auto simp: t_def)
  next
    case (Some s)
    with zset_tree_erase [OF inv Some] show ?thesis by (simp add: t_def)
  qed
  have t_sorted: "sorted_wrt entry_lt t"
    using zset_invD(1) [OF inv] zs.erase_sorted by (simp add: t_def split: option.splits)
  have t_ok: "\<forall>x \<in> set t. entry_ok x" using t_set zset_invD(2) [OF inv] by auto
  have "\<not> oset_contains entry_lt e t"
    using t_set t_ok ok by (auto simp: zs.contains_iff [OF t_sorted t_ok ok] entry_equivalent)
  then have ins: "set (fst (oset_insert entry_lt e t)) = insert e (set t)"
    using zs.insert_set [OF t_sorted t_ok ok] by simp
  have "zset_insert e z =
      \<lparr>tree = fst (oset_insert entry_lt e t), dict = (dict z)(member e \<mapsto> score e)\<rparr>"
    by (simp add: zset_insert_def t_def Let_def)
  moreover have "((dict z)(member e \<mapsto> score e)) m = Some s \<longleftrightarrow>
      \<lparr>score = s, member = m\<rparr> \<in> insert e (set t)" for m s
    using zset_invD(3) [OF inv] t_set by (cases e) auto
  ultimately show ?thesis
    using ins t_ok ok zs.insert_sorted [OF t_sorted t_ok ok] by (auto simp: zset_inv_def)
qed

lemma dict_zset_insert [simp]: "dict (zset_insert e z) = (dict z)(member e \<mapsto> score e)"
  by (simp add: zset_insert_def Let_def)

lemma dict_zset_erase [simp]: "dict (fst (zset_erase m z)) = (dict z)(m := None)"
  by (auto simp: zset_erase_def fun_upd_idem split: option.splits)

lemma snd_zset_erase [simp]: "snd (zset_erase m z) \<longleftrightarrow> dict z m \<noteq> None"
  by (auto simp: zset_erase_def split: option.splits)

text \<open>The tree lists every member of the dictionary exactly once.\<close>

lemma zset_size_card:
  assumes inv: "zset_inv z"
  shows "zset_size z = card (dom (dict z))"
proof -
  have "inj_on member (set (tree z))"
    using zset_member_unique [OF inv] by (auto intro: inj_onI)
  moreover have "distinct (tree z)"
    using zs.sorted_distinct zset_invD(1,2) [OF inv] by blast
  moreover have "member ` set (tree z) = dom (dict z)"
  proof -
    have "m \<in> dom (dict z)" if "e \<in> set (tree z)" "m = member e" for e m
      using zset_dict_tree [OF inv, of e] that by auto
    moreover have "m \<in> member ` set (tree z)" if "dict z m = Some s" for m s
      using zset_invD(3) [OF inv, of m s] that by (metis imageI zset_entry.select_convs(2))
    ultimately show ?thesis by auto
  qed
  ultimately show ?thesis
    by (metis zset_size_def card_image distinct_card)
qed

end
