(* ===== verification/Hash_Map.thy ===== *)
theory Hash_Map
  imports Values
begin

text \<open>
  The open-addressing hash map (\<open>src/storage/hash_map.hpp\<close>). A deleted entry stays occupied,
  so that probe sequences running over it are not cut; its slot is not used again.

  \<open>std::hash<std::string_view>\<close> is implementation-defined: every operation takes it as the
  parameter \<open>hs\<close>, and everything here holds for every hash function.

  The invariant \<open>hm_wf\<close> says that a live entry is reached by the probe sequence of its key
  without meeting a free slot, that a key has one live entry and that \<open>size_\<close> counts the live
  entries. Under it the map implements the partial function \<open>hm_abs\<close>, and the locale
  \<open>table_map\<close> states this as the interface the shard relies on.
\<close>

section \<open>State and operations\<close>

record entry =
  ekey :: string
  evalue :: cvalue
  occupied :: bool
  deleted :: bool

definition fresh_entry :: entry where
  "fresh_entry = \<lparr>ekey = [], evalue = Monostate, occupied = False, deleted = False\<rparr>"

record hash_map =
  hm_entries :: "entry list"
  hm_capacity :: nat
  hm_size :: nat

text \<open>\<open>HashMap(capacity)\<close>.\<close>

definition new_hash_map :: "nat \<Rightarrow> hash_map" where
  "new_hash_map capacity = \<lparr>hm_entries = replicate capacity fresh_entry, hm_capacity = capacity, hm_size = 0\<rparr>"

text \<open>\<open>HashMap::hash\<close>.\<close>

definition hm_hash :: "(string \<Rightarrow> nat) \<Rightarrow> hash_map \<Rightarrow> string \<Rightarrow> nat" where
  "hm_hash hs hm k = hs k mod hm_capacity hm"

text \<open>An entry the loops treat as the live entry of a key.\<close>

definition live_for :: "string \<Rightarrow> entry \<Rightarrow> bool" where
  "live_for k e \<longleftrightarrow> \<not> deleted e \<and> ekey e = k"

text \<open>
  The \<open>while (entries_[idx].occupied)\<close> loop that \<open>put\<close>, \<open>get\<close> and \<open>del\<close> share: it stops at
  the live entry of the key (\<open>Hit\<close>), at a free slot (\<open>Vacant\<close>) or back at the start (\<open>Full\<close>).
  Reading past the vector, which needs a map of capacity 0, is \<open>Invalid\<close>.
\<close>

datatype probe_result = Hit nat | Vacant nat | Full | Invalid

function probe :: "hash_map \<Rightarrow> string \<Rightarrow> nat \<Rightarrow> nat \<Rightarrow> probe_result" where
  "probe hm k start idx =
     (if \<not> (idx < length (hm_entries hm) \<and> start < hm_capacity hm \<and> idx < hm_capacity hm) then Invalid
      else if \<not> occupied (hm_entries hm ! idx) then Vacant idx
      else if live_for k (hm_entries hm ! idx) then Hit idx
      else if (idx + 1) mod hm_capacity hm = start then Full
      else probe hm k start ((idx + 1) mod hm_capacity hm))"
  by pat_completeness auto
termination
proof (relation "measure (\<lambda>(hm, k, start, idx). (start + hm_capacity hm - 1 - idx) mod hm_capacity hm)")
  fix hm k start idx
  assume g: "\<not> \<not> (idx < length (hm_entries hm) \<and> start < hm_capacity hm \<and> idx < hm_capacity hm)"
    and ne: "(idx + 1) mod hm_capacity hm \<noteq> start"
  let ?c = "hm_capacity hm" and ?j = "(idx + 1) mod hm_capacity hm"
  from g have lt: "start < ?c" "idx < ?c" by auto
  have "(start + ?c - 1 - ?j) mod ?c < (start + ?c - 1 - idx) mod ?c"
  proof (cases "idx + 1 = ?c")
    case True
    then have "(start + ?c - 1 - idx) mod ?c = start" using lt by simp
    moreover have "?j = 0" using True by simp
    moreover have "start > 0" using ne \<open>?j = 0\<close> by simp
    moreover have "(start + ?c - 1) mod ?c = start - 1"
    proof -
      have "start + ?c - 1 = (start - 1) + ?c" using \<open>start > 0\<close> by simp
      then show ?thesis using lt by (simp del: add_diff_assoc add_diff_assoc2)
    qed
    ultimately show ?thesis by simp
  next
    case False
    then have j: "?j = idx + 1" using lt by simp
    show ?thesis
    proof (cases "start \<le> idx")
      case True
      then have "start + ?c - 1 - idx < ?c" "start + ?c - 1 - (idx + 1) < ?c" using lt by linarith+
      with True False lt show ?thesis by (simp add: j)
    next
      case f: False
      then have "start + ?c - 1 - idx = (start - 1 - idx) + ?c" using lt by linarith
      then have a: "(start + ?c - 1 - idx) mod ?c = start - 1 - idx"
        using lt by (simp del: add_diff_assoc add_diff_assoc2)
      have "start \<noteq> idx + 1" using ne j by simp
      with f have "start + ?c - 1 - (idx + 1) = (start - 2 - idx) + ?c" using lt by linarith
      then have b: "(start + ?c - 1 - (idx + 1)) mod ?c = start - 2 - idx"
        using lt by (simp del: add_diff_assoc add_diff_assoc2)
      show ?thesis unfolding j a b using f \<open>start \<noteq> idx + 1\<close> by linarith
    qed
  qed
  then show "((hm, k, start, ?j), (hm, k, start, idx))
      \<in> measure (\<lambda>(hm, k, start, idx). (start + hm_capacity hm - 1 - idx) mod hm_capacity hm)"
    by simp
qed simp

declare probe.simps [simp del]

definition find_slot :: "(string \<Rightarrow> nat) \<Rightarrow> hash_map \<Rightarrow> string \<Rightarrow> probe_result" where
  "find_slot hs hm k = probe hm k (hm_hash hs hm k) (hm_hash hs hm k)"

text \<open>\<open>HashMap::put\<close>: true if inserted, false if updated.\<close>

definition hm_put :: "(string \<Rightarrow> nat) \<Rightarrow> string \<Rightarrow> cvalue \<Rightarrow> (hash_map, bool) st" where
  "hm_put hs k v = (\<lambda>hm.
     case find_slot hs hm k of
       Hit idx \<Rightarrow> (Inr False, hm\<lparr>hm_entries := (hm_entries hm)[idx := (hm_entries hm ! idx)\<lparr>evalue := v\<rparr>]\<rparr>)
     | Full \<Rightarrow> (Inl (Runtime_error ''HashMap is full''), hm)
     | Vacant idx \<Rightarrow>
         (Inr True,
          hm\<lparr>hm_entries := (hm_entries hm)[idx := \<lparr>ekey = k, evalue = v, occupied = True, deleted = False\<rparr>],
             hm_size := hm_size hm + 1\<rparr>)
     | Invalid \<Rightarrow> (Inl Undefined_behaviour, hm))"

text \<open>
  \<open>HashMap::get\<close>: a pointer to the value inside the vector, represented by the index of its
  slot; \<open>None\<close> is \<open>nullptr\<close>.
\<close>

definition hm_get :: "(string \<Rightarrow> nat) \<Rightarrow> string \<Rightarrow> (hash_map, nat option) st" where
  "hm_get hs k = (\<lambda>hm.
     case find_slot hs hm k of
       Hit idx \<Rightarrow> (Inr (Some idx), hm)
     | Full \<Rightarrow> (Inr None, hm)
     | Vacant idx \<Rightarrow> (Inr None, hm)
     | Invalid \<Rightarrow> (Inl Undefined_behaviour, hm))"

text \<open>\<open>HashMap::del\<close>.\<close>

definition hm_del :: "(string \<Rightarrow> nat) \<Rightarrow> string \<Rightarrow> (hash_map, bool) st" where
  "hm_del hs k = (\<lambda>hm.
     case find_slot hs hm k of
       Hit idx \<Rightarrow>
         (Inr True,
          hm\<lparr>hm_entries := (hm_entries hm)[idx := (hm_entries hm ! idx)\<lparr>deleted := True, evalue := Monostate\<rparr>],
             hm_size := hm_size hm - 1\<rparr>)
     | Full \<Rightarrow> (Inr False, hm)
     | Vacant idx \<Rightarrow> (Inr False, hm)
     | Invalid \<Rightarrow> (Inl Undefined_behaviour, hm))"

text \<open>Reading and writing through the pointer \<open>get\<close> returned.\<close>

definition hm_deref :: "hash_map \<Rightarrow> nat \<Rightarrow> cvalue" where
  "hm_deref hm idx = evalue (hm_entries hm ! idx)"

definition hm_assign :: "nat \<Rightarrow> cvalue \<Rightarrow> hash_map \<Rightarrow> hash_map" where
  "hm_assign idx v hm = hm\<lparr>hm_entries := (hm_entries hm)[idx := (hm_entries hm ! idx)\<lparr>evalue := v\<rparr>]\<rparr>"

text \<open>\<open>HashMap::for_each\<close>: the pairs the callback is called with, in order.\<close>

definition is_live :: "entry \<Rightarrow> bool" where
  "is_live e \<longleftrightarrow> occupied e \<and> \<not> deleted e"

definition hm_for_each :: "hash_map \<Rightarrow> (string \<times> cvalue) list" where
  "hm_for_each hm = map (\<lambda>e. (ekey e, evalue e)) (filter is_live (hm_entries hm))"

section \<open>Invariant and abstraction\<close>

definition hm_shape :: "hash_map \<Rightarrow> bool" where
  "hm_shape hm \<longleftrightarrow> 0 < hm_capacity hm \<and> length (hm_entries hm) = hm_capacity hm"

text \<open>The \<open>n\<close>-th slot of the probe sequence of a key.\<close>

definition nth_slot :: "(string \<Rightarrow> nat) \<Rightarrow> hash_map \<Rightarrow> string \<Rightarrow> nat \<Rightarrow> nat" where
  "nth_slot hs hm k n = (hm_hash hs hm k + n) mod hm_capacity hm"

definition live_at :: "hash_map \<Rightarrow> string \<Rightarrow> nat \<Rightarrow> bool" where
  "live_at hm k i \<longleftrightarrow>
     i < hm_capacity hm \<and> is_live (hm_entries hm ! i) \<and> ekey (hm_entries hm ! i) = k"

definition hm_wf :: "(string \<Rightarrow> nat) \<Rightarrow> hash_map \<Rightarrow> bool" where
  "hm_wf hs hm \<longleftrightarrow>
     hm_shape hm \<and>
     hm_size hm = length (filter is_live (hm_entries hm)) \<and>
     (\<forall>k i. live_at hm k i \<longrightarrow>
        (\<exists>n < hm_capacity hm. i = nth_slot hs hm k n \<and>
           (\<forall>m < n. occupied (hm_entries hm ! nth_slot hs hm k m)))) \<and>
     (\<forall>k i j. live_at hm k i \<longrightarrow> live_at hm k j \<longrightarrow> i = j)"

definition hm_abs :: "hash_map \<Rightarrow> string \<rightharpoonup> cvalue" where
  "hm_abs hm = map_of (hm_for_each hm)"

section \<open>The probe loop\<close>

definition stops :: "string \<Rightarrow> entry \<Rightarrow> bool" where
  "stops k e \<longleftrightarrow> \<not> occupied e \<or> live_for k e"

lemma nth_slot_less: "hm_shape hm \<Longrightarrow> nth_slot hs hm k n < hm_capacity hm"
  by (simp add: nth_slot_def hm_shape_def)

lemma nth_slot_0 [simp]: "hm_shape hm \<Longrightarrow> nth_slot hs hm k 0 = hm_hash hs hm k"
  by (simp add: nth_slot_def hm_hash_def)

lemma nth_slot_Suc: "nth_slot hs hm k (Suc n) = (nth_slot hs hm k n + 1) mod hm_capacity hm"
  by (simp add: nth_slot_def mod_Suc_eq)

lemma nth_slot_start:
  assumes "hm_shape hm" "n < hm_capacity hm"
  shows "nth_slot hs hm k n = hm_hash hs hm k \<longleftrightarrow> n = 0"
proof -
  let ?c = "hm_capacity hm" and ?h = "hm_hash hs hm k"
  have h: "?h < ?c" using assms(1) by (simp add: hm_shape_def hm_hash_def)
  show ?thesis
  proof (cases "?h + n < ?c")
    case True
    then show ?thesis by (simp add: nth_slot_def)
  next
    case False
    then have "(?h + n) mod ?c = ?h + n - ?c"
      using h assms(2) by (simp add: mod_if [of "?h + n"] mod_if [of "?h + n - ?c"])
    with False h assms(2) show ?thesis by (simp add: nth_slot_def)
  qed
qed

lemma probe_skip:
  assumes shape: "hm_shape hm" and n: "n < hm_capacity hm"
    and skip: "\<forall>m < n. \<not> stops k (hm_entries hm ! nth_slot hs hm k m)"
  shows "find_slot hs hm k = probe hm k (hm_hash hs hm k) (nth_slot hs hm k n)"
  using n skip
proof (induction n)
  case 0
  with shape show ?case by (simp add: find_slot_def)
next
  case (Suc n)
  let ?h = "hm_hash hs hm k" and ?i = "nth_slot hs hm k n"
  have "?i < hm_capacity hm" "?h < hm_capacity hm"
    using shape nth_slot_less [OF shape] by (simp_all add: hm_shape_def hm_hash_def)
  moreover have "\<not> stops k (hm_entries hm ! ?i)" using Suc.prems by simp
  moreover have "(?i + 1) mod hm_capacity hm \<noteq> ?h"
    using nth_slot_start [OF shape Suc.prems(1)] by (simp add: nth_slot_Suc)
  ultimately have "probe hm k ?h ?i = probe hm k ?h (nth_slot hs hm k (Suc n))"
    using shape by (subst probe.simps) (simp add: stops_def hm_shape_def nth_slot_Suc)
  with Suc show ?case by simp
qed

lemma probe_stop:
  assumes shape: "hm_shape hm" and n: "n < hm_capacity hm"
    and skip: "\<forall>m < n. \<not> stops k (hm_entries hm ! nth_slot hs hm k m)"
    and stop: "stops k (hm_entries hm ! nth_slot hs hm k n)"
  shows "find_slot hs hm k =
    (if occupied (hm_entries hm ! nth_slot hs hm k n) then Hit (nth_slot hs hm k n)
     else Vacant (nth_slot hs hm k n))"
proof -
  have "nth_slot hs hm k n < hm_capacity hm" "hm_hash hs hm k < hm_capacity hm"
    using shape nth_slot_less [OF shape] by (simp_all add: hm_shape_def hm_hash_def)
  with probe_skip [OF shape n skip] shape stop show ?thesis
    by (subst (asm) probe.simps) (auto simp: stops_def hm_shape_def)
qed

lemma probe_full:
  assumes shape: "hm_shape hm"
    and skip: "\<forall>m < hm_capacity hm. \<not> stops k (hm_entries hm ! nth_slot hs hm k m)"
  shows "find_slot hs hm k = Full"
proof -
  define n where "n = hm_capacity hm - 1"
  have n: "n < hm_capacity hm" "Suc n = hm_capacity hm"
    using shape by (simp_all add: n_def hm_shape_def)
  let ?i = "nth_slot hs hm k n" and ?h = "hm_hash hs hm k"
  have "?i < hm_capacity hm" and h: "?h < hm_capacity hm"
    using shape nth_slot_less [OF shape] by (simp_all add: hm_shape_def hm_hash_def)
  moreover have "(?i + 1) mod hm_capacity hm = ?h"
  proof -
    have "(?i + 1) mod hm_capacity hm = (?h + Suc n) mod hm_capacity hm"
      by (simp add: nth_slot_def mod_Suc_eq)
    with n(2) h show ?thesis by simp
  qed
  moreover have "\<not> stops k (hm_entries hm ! ?i)" using skip n(1) by simp
  ultimately show ?thesis
    using probe_skip [OF shape n(1)] skip n(1) shape
    by (subst (asm) probe.simps) (auto simp: stops_def hm_shape_def)
qed

text \<open>What the loop found, in terms of the probe sequence.\<close>

lemma find_slot_cases:
  assumes "hm_shape hm"
  obtains (stop) n where "n < hm_capacity hm"
      "\<forall>m < n. \<not> stops k (hm_entries hm ! nth_slot hs hm k m)"
      "stops k (hm_entries hm ! nth_slot hs hm k n)"
      "find_slot hs hm k = (if occupied (hm_entries hm ! nth_slot hs hm k n)
         then Hit (nth_slot hs hm k n) else Vacant (nth_slot hs hm k n))"
  | (full) "\<forall>m < hm_capacity hm. \<not> stops k (hm_entries hm ! nth_slot hs hm k m)"
      "find_slot hs hm k = Full"
proof (cases "\<exists>n < hm_capacity hm. stops k (hm_entries hm ! nth_slot hs hm k n)")
  case True
  then obtain n where n: "n < hm_capacity hm" "stops k (hm_entries hm ! nth_slot hs hm k n)"
    and least: "\<And>m. m < n \<Longrightarrow>
      \<not> (m < hm_capacity hm \<and> stops k (hm_entries hm ! nth_slot hs hm k m))"
    using exists_least_iff [of "\<lambda>n. n < hm_capacity hm \<and>
      stops k (hm_entries hm ! nth_slot hs hm k n)"] by blast
  moreover have "\<forall>m < n. \<not> stops k (hm_entries hm ! nth_slot hs hm k m)"
    using least n(1) by auto
  ultimately show ?thesis using probe_stop [OF assms n(1) _ n(2)] that(1) by blast
next
  case False
  with probe_full [OF assms] that(2) show ?thesis by blast
qed

section \<open>Correctness under the invariant\<close>

lemma hm_wfD:
  assumes "hm_wf hs hm"
  shows "hm_shape hm" "hm_size hm = length (filter is_live (hm_entries hm))"
    "live_at hm k i \<Longrightarrow> live_at hm k j \<Longrightarrow> i = j"
  using assms by (auto simp: hm_wf_def)

lemma hm_wf_reach:
  assumes "hm_wf hs hm" "live_at hm k i"
  obtains n where "n < hm_capacity hm" "i = nth_slot hs hm k n"
    "\<forall>m < n. occupied (hm_entries hm ! nth_slot hs hm k m)"
  using assms unfolding hm_wf_def by blast

lemma find_slot_Hit:
  assumes wf: "hm_wf hs hm"
  shows "find_slot hs hm k = Hit i \<longleftrightarrow> live_at hm k i"
proof
  assume "find_slot hs hm k = Hit i"
  then show "live_at hm k i"
    using nth_slot_less [OF hm_wfD(1) [OF wf]]
    by (cases rule: find_slot_cases [OF hm_wfD(1) [OF wf], of k hs])
       (auto simp: live_at_def stops_def live_for_def is_live_def split: if_splits)
next
  assume live: "live_at hm k i"
  obtain n where n: "n < hm_capacity hm" "i = nth_slot hs hm k n"
    "\<forall>m < n. occupied (hm_entries hm ! nth_slot hs hm k m)"
    using hm_wf_reach [OF wf live] .
  have i: "stops k (hm_entries hm ! i)" "occupied (hm_entries hm ! i)"
    using live by (auto simp: live_at_def stops_def live_for_def is_live_def)
  from hm_wfD(1) [OF wf] show "find_slot hs hm k = Hit i"
  proof (cases rule: find_slot_cases [where k = k and hs = hs])
    case (stop n')
    let ?j = "nth_slot hs hm k n'"
    have "n' \<le> n" using stop(2) n(2) i(1) by (meson not_le_imp_less)
    then have "occupied (hm_entries hm ! ?j)" using n i(2) by (cases "n' = n") auto
    moreover from this have "live_at hm k ?j"
      using stop nth_slot_less [OF hm_wfD(1) [OF wf]]
      by (auto simp: live_at_def stops_def live_for_def is_live_def)
    ultimately show ?thesis using stop(4) hm_wfD(3) [OF wf live] by auto
  next
    case full
    with n i show ?thesis by auto
  qed
qed

lemma find_slot_not_Invalid: "hm_shape hm \<Longrightarrow> find_slot hs hm k \<noteq> Invalid"
  by (cases rule: find_slot_cases [of hm k hs]) auto

lemma hm_for_each_iff:
  "hm_shape hm \<Longrightarrow> (k, v) \<in> set (hm_for_each hm) \<longleftrightarrow>
     (\<exists>i. live_at hm k i \<and> v = evalue (hm_entries hm ! i))"
  by (auto simp: hm_for_each_def live_at_def hm_shape_def in_set_conv_nth image_iff Bex_def)

lemma hm_for_each_distinct:
  assumes wf: "hm_wf hs hm"
  shows "distinct (map fst (hm_for_each hm))"
proof -
  let ?es = "hm_entries hm"
  have "distinct (map (ekey \<circ> nth ?es) (filter (\<lambda>i. is_live (?es ! i)) [0..<length ?es]))"
    unfolding distinct_map
    using hm_wfD(1,3) [OF wf] by (auto intro!: inj_onI simp: live_at_def hm_shape_def)
  moreover have "map fst (hm_for_each hm) =
      map (ekey \<circ> nth ?es) (filter (\<lambda>i. is_live (?es ! i)) [0..<length ?es])"
  proof -
    have "filter is_live ?es = map (nth ?es) (filter (is_live \<circ> nth ?es) [0..<length ?es])"
      by (metis filter_map map_nth)
    then show ?thesis by (simp add: hm_for_each_def comp_def)
  qed
  ultimately show ?thesis by simp
qed

lemma hm_abs_iff:
  assumes wf: "hm_wf hs hm"
  shows "hm_abs hm k = Some v \<longleftrightarrow> (\<exists>i. live_at hm k i \<and> v = evalue (hm_entries hm ! i))"
  using hm_for_each_iff [OF hm_wfD(1) [OF wf]] map_of_eq_Some_iff [OF hm_for_each_distinct [OF wf]]
  by (simp add: hm_abs_def)

lemma hm_abs_find:
  assumes wf: "hm_wf hs hm"
  shows "hm_abs hm k =
    (case find_slot hs hm k of Hit i \<Rightarrow> Some (hm_deref hm i) | _ \<Rightarrow> None)"
proof (cases "\<exists>i. live_at hm k i")
  case True
  then obtain i where i: "live_at hm k i" by blast
  then have "hm_abs hm k = Some (hm_deref hm i)"
    using hm_abs_iff [OF wf] by (auto simp: hm_deref_def)
  moreover have "find_slot hs hm k = Hit i" using i find_slot_Hit [OF wf] by simp
  ultimately show ?thesis by simp
next
  case False
  then have "hm_abs hm k = None" using hm_abs_iff [OF wf, of k] by (cases "hm_abs hm k") auto
  moreover have "find_slot hs hm k \<noteq> Hit i" for i using False find_slot_Hit [OF wf] by blast
  ultimately show ?thesis by (simp split: probe_result.splits)
qed

subsection \<open>Get\<close>

lemma hm_get_wf:
  assumes wf: "hm_wf hs hm"
  shows "hm_get hs k hm =
    (Inr (case find_slot hs hm k of Hit i \<Rightarrow> Some i | _ \<Rightarrow> None), hm)"
  using find_slot_not_Invalid [OF hm_wfD(1) [OF wf], of hs k]
  by (simp add: hm_get_def split: probe_result.splits)

subsection \<open>Updates that keep the keys and flags of every slot\<close>

lemma hm_wf_cong:
  assumes wf: "hm_wf hs hm" and cap: "hm_capacity hm' = hm_capacity hm"
    and size: "hm_size hm' = hm_size hm"
    and es: "map (\<lambda>e. (ekey e, occupied e, deleted e)) (hm_entries hm') =
      map (\<lambda>e. (ekey e, occupied e, deleted e)) (hm_entries hm)"
  shows "hm_wf hs hm'"
proof -
  have len: "length (hm_entries hm') = length (hm_entries hm)"
    using arg_cong [OF es, of length] by simp
  have nth: "ekey (hm_entries hm' ! i) = ekey (hm_entries hm ! i)"
      "occupied (hm_entries hm' ! i) = occupied (hm_entries hm ! i)"
      "is_live (hm_entries hm' ! i) = is_live (hm_entries hm ! i)"
    if i: "i < length (hm_entries hm)" for i
  proof -
    have "map (\<lambda>e. (ekey e, occupied e, deleted e)) (hm_entries hm') ! i =
        map (\<lambda>e. (ekey e, occupied e, deleted e)) (hm_entries hm) ! i"
      by (simp only: es)
    then have "ekey (hm_entries hm' ! i) = ekey (hm_entries hm ! i) \<and>
        occupied (hm_entries hm' ! i) = occupied (hm_entries hm ! i) \<and>
        deleted (hm_entries hm' ! i) = deleted (hm_entries hm ! i)"
      using i len by simp
    then show "ekey (hm_entries hm' ! i) = ekey (hm_entries hm ! i)"
      "occupied (hm_entries hm' ! i) = occupied (hm_entries hm ! i)"
      "is_live (hm_entries hm' ! i) = is_live (hm_entries hm ! i)"
      by (simp_all add: is_live_def)
  qed
  have live: "live_at hm' k i \<longleftrightarrow> live_at hm k i" for k i
    using nth [of i] len cap hm_wfD(1) [OF wf] by (auto simp: live_at_def hm_shape_def)
  have slot: "nth_slot hs hm' k n = nth_slot hs hm k n" for k n
    by (simp add: nth_slot_def hm_hash_def cap)
  have shape: "hm_shape hm'" using hm_wfD(1) [OF wf] cap len by (simp add: hm_shape_def)
  have occ: "occupied (hm_entries hm' ! nth_slot hs hm k n) =
      occupied (hm_entries hm ! nth_slot hs hm k n)" for k n
    using nth(2) nth_slot_less [OF hm_wfD(1) [OF wf]] hm_wfD(1) [OF wf] by (simp add: hm_shape_def)
  have "length (filter is_live (hm_entries hm')) = length (filter is_live (hm_entries hm))"
  proof -
    have count: "length (filter is_live xs) = length (filter (\<lambda>(k, o', d). o' \<and> \<not> d)
        (map (\<lambda>e. (ekey e, occupied e, deleted e)) xs))" for xs
      by (induction xs) (auto simp: is_live_def)
    show ?thesis unfolding count es ..
  qed
  then have sz: "hm_size hm' = length (filter is_live (hm_entries hm'))"
    using size hm_wfD(2) [OF wf] by simp
  have reach: "\<exists>n < hm_capacity hm'. i = nth_slot hs hm' k n \<and>
      (\<forall>m < n. occupied (hm_entries hm' ! nth_slot hs hm' k m))" if "live_at hm' k i" for k i
    unfolding slot occ cap using hm_wf_reach [OF wf live [THEN iffD1, OF that]] by metis
  show ?thesis
    unfolding hm_wf_def using shape sz reach hm_wfD(3) [OF wf] live by blast
qed

lemma hm_wf_assign: "hm_wf hs hm \<Longrightarrow> hm_wf hs (hm_assign i v hm)"
proof (rule hm_wf_cong, assumption)
  show "map (\<lambda>e. (ekey e, occupied e, deleted e)) (hm_entries (hm_assign i v hm)) =
      map (\<lambda>e. (ekey e, occupied e, deleted e)) (hm_entries hm)"
  proof (rule nth_equalityI)
    fix j
    assume "j < length (map (\<lambda>e. (ekey e, occupied e, deleted e)) (hm_entries (hm_assign i v hm)))"
    then show "map (\<lambda>e. (ekey e, occupied e, deleted e)) (hm_entries (hm_assign i v hm)) ! j =
        map (\<lambda>e. (ekey e, occupied e, deleted e)) (hm_entries hm) ! j"
      by (cases "i = j") (simp_all add: hm_assign_def)
  qed (simp add: hm_assign_def)
qed (simp_all add: hm_assign_def)

lemma live_at_assign [simp]: "hm_shape hm \<Longrightarrow> live_at (hm_assign i v hm) k j \<longleftrightarrow> live_at hm k j"
  by (cases "i = j") (auto simp: live_at_def hm_assign_def hm_shape_def is_live_def)

lemma nth_assign:
  "i < length (hm_entries hm) \<Longrightarrow> hm_entries (hm_assign i v hm) ! j =
     (if j = i then (hm_entries hm ! i)\<lparr>evalue := v\<rparr> else hm_entries hm ! j)"
  by (simp add: hm_assign_def)

lemma hm_abs_eqI:
  assumes "hm_wf hs hm" "\<And>k v. (\<exists>i. live_at hm k i \<and> v = evalue (hm_entries hm ! i)) \<longleftrightarrow> m k = Some v"
  shows "hm_abs hm = m"
proof
  fix k
  have "hm_abs hm k = Some v \<longleftrightarrow> m k = Some v" for v
    using hm_abs_iff [OF assms(1)] assms(2) by simp
  then show "hm_abs hm k = m k" by (metis not_Some_eq)
qed

lemma hm_abs_assign:
  assumes wf: "hm_wf hs hm" and i: "live_at hm k i"
  shows "hm_abs (hm_assign i v hm) = (hm_abs hm)(k \<mapsto> v)"
proof (rule hm_abs_eqI [OF hm_wf_assign [OF wf]])
  fix k' v'
  have i': "i < length (hm_entries hm)" using i hm_wfD(1) [OF wf] by (simp add: live_at_def hm_shape_def)
  show "(\<exists>j. live_at (hm_assign i v hm) k' j \<and> v' = evalue (hm_entries (hm_assign i v hm) ! j)) \<longleftrightarrow>
      ((hm_abs hm)(k \<mapsto> v)) k' = Some v'"
  proof (cases "k' = k")
    case True
    have "live_at hm k j \<longleftrightarrow> j = i" for j using i hm_wfD(3) [OF wf] by blast
    with True hm_wfD(1) [OF wf] show ?thesis by (auto simp: nth_assign [OF i'])
  next
    case False
    then have "live_at hm k' j \<Longrightarrow> j \<noteq> i" for j using i by (auto simp: live_at_def)
    with False hm_wfD(1) [OF wf] show ?thesis
      by (auto simp: nth_assign [OF i'] hm_abs_iff [OF wf])
  qed
qed

lemma hm_put_Hit: "find_slot hs hm k = Hit i \<Longrightarrow> hm_put hs k v hm = (Inr False, hm_assign i v hm)"
  by (simp add: hm_put_def hm_assign_def)

subsection \<open>Insertion into a free slot\<close>

lemma length_filter_update:
  "i < length xs \<Longrightarrow>
     length (filter P (xs[i := x])) + (if P (xs ! i) then 1 else 0) =
     length (filter P xs) + (if P x then 1 else 0)"
proof (induction xs arbitrary: i)
  case (Cons y ys)
  then show ?case by (cases i) auto
qed simp

definition hm_fill :: "nat \<Rightarrow> string \<Rightarrow> cvalue \<Rightarrow> hash_map \<Rightarrow> hash_map" where
  "hm_fill i k v hm =
     hm\<lparr>hm_entries := (hm_entries hm)[i := \<lparr>ekey = k, evalue = v, occupied = True, deleted = False\<rparr>],
        hm_size := hm_size hm + 1\<rparr>"

lemma hm_put_Vacant: "find_slot hs hm k = Vacant i \<Longrightarrow> hm_put hs k v hm = (Inr True, hm_fill i k v hm)"
  by (simp add: hm_put_def hm_fill_def)

lemma nth_fill:
  "i < length (hm_entries hm) \<Longrightarrow> hm_entries (hm_fill i k v hm) ! j =
     (if j = i then \<lparr>ekey = k, evalue = v, occupied = True, deleted = False\<rparr> else hm_entries hm ! j)"
  by (simp add: hm_fill_def)

lemma find_slot_Vacant:
  assumes "hm_shape hm" "find_slot hs hm k = Vacant i"
  obtains n where "n < hm_capacity hm" "i = nth_slot hs hm k n" "\<not> occupied (hm_entries hm ! i)"
    "\<forall>m < n. occupied (hm_entries hm ! nth_slot hs hm k m)"
  using assms(1)
proof (cases rule: find_slot_cases [where k = k and hs = hs])
  case (stop n)
  with assms(2) have "\<not> occupied (hm_entries hm ! nth_slot hs hm k n)" "i = nth_slot hs hm k n"
    by (auto split: if_splits)
  with stop that show ?thesis by (auto simp: stops_def)
next
  case full
  with assms(2) show ?thesis by simp
qed

lemma live_at_fill:
  assumes wf: "hm_wf hs hm" and f: "find_slot hs hm k = Vacant i"
  shows "live_at (hm_fill i k v hm) k' j \<longleftrightarrow> (if j = i then k' = k else live_at hm k' j)"
proof -
  obtain n where "n < hm_capacity hm" "i = nth_slot hs hm k n"
    using find_slot_Vacant [OF hm_wfD(1) [OF wf] f] by blast
  then have i: "i < hm_capacity hm" "i < length (hm_entries hm)"
    using nth_slot_less [OF hm_wfD(1) [OF wf]] hm_wfD(1) [OF wf] by (auto simp: hm_shape_def)
  show ?thesis
    using i(1) by (auto simp: live_at_def nth_fill [OF i(2)] is_live_def) (simp_all add: hm_fill_def)
qed

lemma hm_wf_fill:
  assumes wf: "hm_wf hs hm" and f: "find_slot hs hm k = Vacant i"
  shows "hm_wf hs (hm_fill i k v hm)"
proof -
  note shape = hm_wfD(1) [OF wf]
  obtain n where n: "n < hm_capacity hm" "i = nth_slot hs hm k n" "\<not> occupied (hm_entries hm ! i)"
    "\<forall>m < n. occupied (hm_entries hm ! nth_slot hs hm k m)"
    using find_slot_Vacant [OF shape f] .
  have i: "i < length (hm_entries hm)"
    using n(2) nth_slot_less [OF shape] shape by (simp add: hm_shape_def)
  have absent: "\<not> live_at hm k j" for j using find_slot_Hit [OF wf, of k j] f by simp
  have slot: "nth_slot hs (hm_fill i k v hm) k' m = nth_slot hs hm k' m" for k' m
    by (simp add: nth_slot_def hm_hash_def hm_fill_def)
  have occ: "occupied (hm_entries hm ! j) \<Longrightarrow> occupied (hm_entries (hm_fill i k v hm) ! j)" for j
    by (simp add: nth_fill [OF i])
  have reach: "\<exists>n < hm_capacity hm. j = nth_slot hs hm k' n \<and>
      (\<forall>m < n. occupied (hm_entries (hm_fill i k v hm) ! nth_slot hs hm k' m))"
    if "live_at (hm_fill i k v hm) k' j" for k' j
  proof (cases "j = i")
    case True
    with that have "k' = k" by (simp add: live_at_fill [OF wf f])
    with True n occ show ?thesis by blast
  next
    case False
    with that have "live_at hm k' j" by (simp add: live_at_fill [OF wf f])
    then show ?thesis using occ by (elim hm_wf_reach [OF wf]) blast
  qed
  have "live_at (hm_fill i k v hm) k' j \<Longrightarrow> live_at (hm_fill i k v hm) k' j' \<Longrightarrow> j = j'" for k' j j'
    using absent hm_wfD(3) [OF wf] by (auto simp: live_at_fill [OF wf f] split: if_splits)
  moreover have "hm_size (hm_fill i k v hm) = length (filter is_live (hm_entries (hm_fill i k v hm)))"
    using length_filter_update [OF i, of is_live] n(3) hm_wfD(2) [OF wf]
    by (simp add: hm_fill_def is_live_def)
  moreover have "hm_shape (hm_fill i k v hm)" "hm_capacity (hm_fill i k v hm) = hm_capacity hm"
    using shape by (simp_all add: hm_fill_def hm_shape_def)
  ultimately show ?thesis using reach slot by (simp add: hm_wf_def)
qed

lemma hm_abs_fill:
  assumes wf: "hm_wf hs hm" and f: "find_slot hs hm k = Vacant i"
  shows "hm_abs (hm_fill i k v hm) = (hm_abs hm)(k \<mapsto> v)"
proof (rule hm_abs_eqI [OF hm_wf_fill [OF wf f]])
  fix k' v'
  note shape = hm_wfD(1) [OF wf]
  have i: "i < length (hm_entries hm)"
    using find_slot_Vacant [OF shape f] nth_slot_less [OF shape] shape by (metis hm_shape_def)
  have absent: "\<not> live_at hm k j" for j using find_slot_Hit [OF wf, of k j] f by simp
  have free: "live_at hm k'' j \<Longrightarrow> j \<noteq> i" for k'' j
    using find_slot_Vacant [OF shape f] by (metis live_at_def is_live_def)
  show "(\<exists>j. live_at (hm_fill i k v hm) k' j \<and> v' = evalue (hm_entries (hm_fill i k v hm) ! j)) \<longleftrightarrow>
      ((hm_abs hm)(k \<mapsto> v)) k' = Some v'"
    using absent free
    by (cases "k' = k")
       (simp_all add: live_at_fill [OF wf f] nth_fill [OF i] hm_abs_iff [OF wf], metis+)
qed

subsection \<open>Deletion\<close>

definition hm_clear :: "nat \<Rightarrow> hash_map \<Rightarrow> hash_map" where
  "hm_clear i hm =
     hm\<lparr>hm_entries := (hm_entries hm)[i := (hm_entries hm ! i)\<lparr>deleted := True, evalue := Monostate\<rparr>],
        hm_size := hm_size hm - 1\<rparr>"

lemma hm_del_Hit: "find_slot hs hm k = Hit i \<Longrightarrow> hm_del hs k hm = (Inr True, hm_clear i hm)"
  by (simp add: hm_del_def hm_clear_def)

lemma nth_clear:
  "i < length (hm_entries hm) \<Longrightarrow> hm_entries (hm_clear i hm) ! j =
     (if j = i then (hm_entries hm ! i)\<lparr>deleted := True, evalue := Monostate\<rparr> else hm_entries hm ! j)"
  by (simp add: hm_clear_def)

lemma live_at_clear:
  assumes wf: "hm_wf hs hm" and i: "live_at hm k i"
  shows "live_at (hm_clear i hm) k' j \<longleftrightarrow> k' \<noteq> k \<and> live_at hm k' j"
proof -
  have l: "i < length (hm_entries hm)" using i hm_wfD(1) [OF wf] by (simp add: live_at_def hm_shape_def)
  have "k' = k \<Longrightarrow> live_at hm k' j \<Longrightarrow> j = i" using hm_wfD(3) [OF wf] i by blast
  with i show ?thesis
    by (cases "j = i") (auto simp: live_at_def nth_clear [OF l] is_live_def, simp_all add: hm_clear_def)
qed

lemma hm_wf_clear:
  assumes wf: "hm_wf hs hm" and i: "live_at hm k i"
  shows "hm_wf hs (hm_clear i hm)"
proof -
  note shape = hm_wfD(1) [OF wf]
  have l: "i < length (hm_entries hm)" using i shape by (simp add: live_at_def hm_shape_def)
  have slot: "nth_slot hs (hm_clear i hm) k' m = nth_slot hs hm k' m" for k' m
    by (simp add: nth_slot_def hm_hash_def hm_clear_def)
  have occ: "occupied (hm_entries (hm_clear i hm) ! j) = occupied (hm_entries hm ! j)" for j
    by (simp add: nth_clear [OF l])
  have "length (filter is_live (hm_entries (hm_clear i hm))) + 1 = hm_size hm"
    using length_filter_update [OF l, of is_live] i hm_wfD(2) [OF wf]
    by (simp add: hm_clear_def live_at_def) (simp add: is_live_def)
  then have "hm_size (hm_clear i hm) = length (filter is_live (hm_entries (hm_clear i hm)))"
    by (simp add: hm_clear_def)
  moreover have "hm_shape (hm_clear i hm)" "hm_capacity (hm_clear i hm) = hm_capacity hm"
    using shape by (simp_all add: hm_clear_def hm_shape_def)
  moreover have "live_at hm k' j \<Longrightarrow> \<exists>n < hm_capacity hm. j = nth_slot hs hm k' n \<and>
      (\<forall>m < n. occupied (hm_entries hm ! nth_slot hs hm k' m))" for k' j
    by (elim hm_wf_reach [OF wf]) blast
  ultimately show ?thesis
    using hm_wfD(3) [OF wf] by (simp add: hm_wf_def live_at_clear [OF wf i] slot occ) blast
qed

lemma hm_abs_clear:
  assumes wf: "hm_wf hs hm" and i: "live_at hm k i"
  shows "hm_abs (hm_clear i hm) = (hm_abs hm)(k := None)"
proof (rule hm_abs_eqI [OF hm_wf_clear [OF wf i]])
  fix k' v'
  have l: "i < length (hm_entries hm)" using i hm_wfD(1) [OF wf] by (simp add: live_at_def hm_shape_def)
  have "k' \<noteq> k \<Longrightarrow> live_at hm k' j \<Longrightarrow> j \<noteq> i" for j using i by (auto simp: live_at_def)
  then show "(\<exists>j. live_at (hm_clear i hm) k' j \<and> v' = evalue (hm_entries (hm_clear i hm) ! j)) \<longleftrightarrow>
      ((hm_abs hm)(k := None)) k' = Some v'"
    by (cases "k' = k")
       (simp_all add: live_at_clear [OF wf i] nth_clear [OF l] hm_abs_iff [OF wf], metis)
qed

section \<open>The interface of a table\<close>

text \<open>
  What a client of a table may rely on: lookups return a pointer to the value of the key,
  insertions and deletions change the abstract map at one key, writing through a pointer
  changes the value of its key, and a failed insertion leaves the table as it was.
\<close>

locale table_map =
  fixes inv :: "'m \<Rightarrow> bool" and abs :: "'m \<Rightarrow> 'k \<rightharpoonup> 'v"
    and put :: "'k \<Rightarrow> 'v \<Rightarrow> ('m, bool) st" and get :: "'k \<Rightarrow> ('m, nat option) st"
    and del :: "'k \<Rightarrow> ('m, bool) st"
    and deref :: "'m \<Rightarrow> nat \<Rightarrow> 'v" and assign :: "nat \<Rightarrow> 'v \<Rightarrow> 'm \<Rightarrow> 'm"
  assumes get_law: "inv m \<Longrightarrow> \<exists>p. get k m = (Inr p, m) \<and> map_option (deref m) p = abs m k"
    and put_law: "inv m \<Longrightarrow>
      (\<exists>m'. put k v m = (Inr (abs m k = None), m') \<and> inv m' \<and> abs m' = (abs m)(k \<mapsto> v)) \<or>
      (abs m k = None \<and> put k v m = (Inl (Runtime_error ''HashMap is full''), m))"
    and del_law: "inv m \<Longrightarrow>
      \<exists>m'. del k m = (Inr (abs m k \<noteq> None), m') \<and> inv m' \<and> abs m' = (abs m)(k := None)"
    and assign_law: "inv m \<Longrightarrow> get k m = (Inr (Some i), m) \<Longrightarrow>
      inv (assign i v m) \<and> abs (assign i v m) = (abs m)(k \<mapsto> v) \<and>
      get k (assign i v m) = (Inr (Some i), assign i v m)"
begin

lemma get_hit:
  assumes "inv m" "abs m k = Some v"
  obtains i where "get k m = (Inr (Some i), m)" "deref m i = v"
  using get_law [OF assms(1), of k] assms(2) by auto

lemma get_miss: "inv m \<Longrightarrow> abs m k = None \<Longrightarrow> get k m = (Inr None, m)"
  using get_law [of m k] by auto

lemma get_Some: "inv m \<Longrightarrow> get k m = (Inr (Some i), m') \<Longrightarrow> m' = m \<and> abs m k = Some (deref m i)"
  using get_law [of m k] by auto

lemma put_present:
  assumes "inv m" "abs m k \<noteq> None"
  obtains m' where "put k v m = (Inr False, m')" "inv m'" "abs m' = (abs m)(k \<mapsto> v)"
  using put_law [OF assms(1), of k v] assms(2) by auto

lemma put_then_get:
  assumes "inv m" "put k v m = (Inr b, m')"
  obtains i where "get k m' = (Inr (Some i), m')" "deref m' i = v"
proof -
  have "inv m'" "abs m' k = Some v" using put_law [OF assms(1), of k v] assms(2) by auto
  then show ?thesis using that get_hit by blast
qed

lemma del_then_get: "inv m \<Longrightarrow> del k m = (Inr b, m') \<Longrightarrow> get k m' = (Inr None, m')"
  using del_law [of m k] get_miss [of m' k] by auto

end

lemma hm_get_live:
  assumes wf: "hm_wf hs hm"
  shows "hm_get hs k hm = (Inr (Some i), hm') \<longleftrightarrow> hm' = hm \<and> live_at hm k i"
  using find_slot_Hit [OF wf, of k i] by (auto simp: hm_get_wf [OF wf] split: probe_result.splits)

interpretation hm: table_map "hm_wf hs" hm_abs "hm_put hs" "hm_get hs" "hm_del hs" hm_deref hm_assign
  for hs
proof
  fix m k v i
  assume wf: "hm_wf hs m"
  have noninv: "find_slot hs m k \<noteq> Invalid" by (rule find_slot_not_Invalid [OF hm_wfD(1) [OF wf]])
  note abs = hm_abs_find [OF wf, of k]
  show "\<exists>p. hm_get hs k m = (Inr p, m) \<and> map_option (hm_deref m) p = hm_abs m k"
    by (simp add: hm_get_wf [OF wf] abs split: probe_result.splits)
  show "(\<exists>m'. hm_put hs k v m = (Inr (hm_abs m k = None), m') \<and> hm_wf hs m' \<and>
        hm_abs m' = (hm_abs m)(k \<mapsto> v)) \<or>
      (hm_abs m k = None \<and> hm_put hs k v m = (Inl (Runtime_error ''HashMap is full''), m))"
  proof (cases "find_slot hs m k")
    case (Hit i)
    then have "live_at m k i" using find_slot_Hit [OF wf] by simp
    with Hit wf show ?thesis
      by (simp add: hm_put_Hit [OF Hit] abs hm_wf_assign hm_abs_assign)
  next
    case (Vacant i)
    with wf show ?thesis by (simp add: hm_put_Vacant [OF Vacant] abs hm_wf_fill hm_abs_fill)
  next
    case Full
    then show ?thesis by (simp add: hm_put_def abs)
  qed (use noninv in simp)
  show "\<exists>m'. hm_del hs k m = (Inr (hm_abs m k \<noteq> None), m') \<and> hm_wf hs m' \<and>
      hm_abs m' = (hm_abs m)(k := None)"
  proof (cases "find_slot hs m k")
    case (Hit i)
    then have "live_at m k i" using find_slot_Hit [OF wf] by simp
    with Hit wf show ?thesis by (simp add: hm_del_Hit [OF Hit] abs hm_wf_clear hm_abs_clear)
  qed (use noninv wf abs in \<open>auto simp: hm_del_def fun_upd_idem\<close>)
  assume "hm_get hs k m = (Inr (Some i), m)"
  then have live: "live_at m k i" by (simp add: hm_get_live [OF wf])
  then show "hm_wf hs (hm_assign i v m) \<and> hm_abs (hm_assign i v m) = (hm_abs m)(k \<mapsto> v) \<and>
      hm_get hs k (hm_assign i v m) = (Inr (Some i), hm_assign i v m)"
    using wf hm_wfD(1) [OF wf]
    by (simp add: hm_wf_assign hm_abs_assign hm_get_live [OF hm_wf_assign])
qed

section \<open>Construction and exhaustion\<close>

lemma hm_wf_new: "0 < c \<Longrightarrow> hm_wf hs (new_hash_map c)"
  by (auto simp: hm_wf_def new_hash_map_def hm_shape_def live_at_def fresh_entry_def is_live_def
      filter_empty_conv)

lemma hm_abs_new [simp]: "hm_abs (new_hash_map c) = Map.empty"
  by (simp add: hm_abs_def hm_for_each_def new_hash_map_def fresh_entry_def is_live_def filter_empty_conv)

lemma nth_slot_surj:
  assumes "hm_shape hm" "i < hm_capacity hm"
  obtains n where "n < hm_capacity hm" "i = nth_slot hs hm k n"
proof
  let ?c = "hm_capacity hm" and ?h = "hm_hash hs hm k"
  let ?n = "(i + ?c - ?h) mod ?c"
  have h: "?h < ?c" using assms(1) by (simp add: hm_shape_def hm_hash_def)
  show "?n < ?c" using assms(2) by simp
  have "nth_slot hs hm k ?n = (?h + (i + ?c - ?h)) mod ?c"
    by (simp add: nth_slot_def mod_add_right_eq)
  also have "?h + (i + ?c - ?h) = i + ?c" using h by simp
  finally show "i = nth_slot hs hm k ?n" using assms(2) by simp
qed

lemma find_slot_Full_iff:
  assumes wf: "hm_wf hs hm"
  shows "find_slot hs hm k = Full \<longleftrightarrow> hm_abs hm k = None \<and> (\<forall>e \<in> set (hm_entries hm). occupied e)"
proof
  note shape = hm_wfD(1) [OF wf]
  assume full: "find_slot hs hm k = Full"
  have "\<forall>m < hm_capacity hm. \<not> stops k (hm_entries hm ! nth_slot hs hm k m)"
    using shape full by (cases rule: find_slot_cases [where k = k and hs = hs]) (auto split: if_splits)
  moreover have "\<exists>n < hm_capacity hm. i = nth_slot hs hm k n" if "i < hm_capacity hm" for i
    using nth_slot_surj [OF shape that] by metis
  ultimately have "\<forall>e \<in> set (hm_entries hm). occupied e"
    using shape by (metis hm_shape_def in_set_conv_nth stops_def)
  with full show "hm_abs hm k = None \<and> (\<forall>e \<in> set (hm_entries hm). occupied e)"
    by (simp add: hm_abs_find [OF wf])
next
  note shape = hm_wfD(1) [OF wf]
  assume *: "hm_abs hm k = None \<and> (\<forall>e \<in> set (hm_entries hm). occupied e)"
  from shape show "find_slot hs hm k = Full"
  proof (cases rule: find_slot_cases [where k = k and hs = hs])
    case (stop n)
    have "occupied (hm_entries hm ! nth_slot hs hm k n)"
      using * nth_slot_less [OF shape] shape by (simp add: hm_shape_def)
    with stop(4) * show ?thesis by (simp add: hm_abs_find [OF wf])
  qed
qed

definition occupied_count :: "hash_map \<Rightarrow> nat" where
  "occupied_count hm = length (filter occupied (hm_entries hm))"

text \<open>\<open>n\<close> rounds of inserting a key and deleting it again.\<close>

primrec churn :: "(string \<Rightarrow> nat) \<Rightarrow> string \<Rightarrow> cvalue \<Rightarrow> nat \<Rightarrow> (hash_map, unit) st" where
  "churn hs k v 0 = ret ()"
| "churn hs k v (Suc n) = bindS (hm_put hs k v) (\<lambda>_. bindS (hm_del hs k) (\<lambda>_. churn hs k v n))"

lemma churn_round:
  assumes wf: "hm_wf hs hm" and empty: "hm_abs hm = Map.empty"
    and free: "occupied_count hm < hm_capacity hm"
  obtains hm1 hm2 where "hm_put hs k v hm = (Inr True, hm1)" "hm_del hs k hm1 = (Inr True, hm2)"
    "hm_wf hs hm2" "hm_abs hm2 = Map.empty" "occupied_count hm2 = Suc (occupied_count hm)"
    "hm_capacity hm2 = hm_capacity hm"
proof -
  note shape = hm_wfD(1) [OF wf]
  have "\<exists>e \<in> set (hm_entries hm). \<not> occupied e"
    using free shape filter_id_conv [of occupied "hm_entries hm"]
    by (auto simp: occupied_count_def hm_shape_def)
  then have "find_slot hs hm k \<noteq> Full" using find_slot_Full_iff [OF wf] by blast
  moreover have "find_slot hs hm k \<noteq> Hit i" for i
    using hm_abs_find [OF wf, of k] empty by auto
  ultimately obtain i where v: "find_slot hs hm k = Vacant i"
    using find_slot_not_Invalid [OF shape] by (cases "find_slot hs hm k") auto
  let ?hm1 = "hm_fill i k v hm"
  have wf1: "hm_wf hs ?hm1" by (rule hm_wf_fill [OF wf v])
  have i: "i < length (hm_entries hm)" "\<not> occupied (hm_entries hm ! i)"
    using find_slot_Vacant [OF shape v] nth_slot_less [OF shape] shape by (metis hm_shape_def)+
  have live: "live_at ?hm1 k i" by (simp add: live_at_fill [OF wf v])
  then have hit: "find_slot hs ?hm1 k = Hit i" using find_slot_Hit [OF wf1] by simp
  let ?hm2 = "hm_clear i ?hm1"
  have "occupied_count ?hm1 = Suc (occupied_count hm)"
    using length_filter_update [OF i(1), of occupied] i(2) by (simp add: occupied_count_def hm_fill_def)
  moreover have "occupied_count ?hm2 = occupied_count ?hm1"
  proof -
    have "i < length (hm_entries ?hm1)" using i(1) by (simp add: hm_fill_def)
    from length_filter_update [OF this, of occupied
        "(hm_entries ?hm1 ! i)\<lparr>deleted := True, evalue := Monostate\<rparr>"]
    show ?thesis by (simp add: occupied_count_def hm_clear_def nth_fill [OF i(1)])
  qed
  ultimately show ?thesis
    using that [OF hm_put_Vacant [OF v] hm_del_Hit [OF hit] hm_wf_clear [OF wf1 live]]
      hm_abs_clear [OF wf1 live] hm_abs_fill [OF wf v] empty
    by (simp add: hm_fill_def hm_clear_def)
qed

lemma churn_runs:
  assumes "hm_wf hs hm" "hm_abs hm = Map.empty" "occupied_count hm + n \<le> hm_capacity hm"
  shows "\<exists>hm'. churn hs k v n hm = (Inr (), hm') \<and> hm_wf hs hm' \<and> hm_abs hm' = Map.empty \<and>
    occupied_count hm' = occupied_count hm + n \<and> hm_capacity hm' = hm_capacity hm"
  using assms
proof (induction n arbitrary: hm)
  case (Suc n)
  have "occupied_count hm < hm_capacity hm" using Suc.prems(3) by simp
  with Suc.prems(1,2) obtain hm1 hm2 where r: "hm_put hs k v hm = (Inr True, hm1)"
    "hm_del hs k hm1 = (Inr True, hm2)" "hm_wf hs hm2" "hm_abs hm2 = Map.empty"
    "occupied_count hm2 = Suc (occupied_count hm)" "hm_capacity hm2 = hm_capacity hm"
    by (rule churn_round)
  have "churn hs k v (Suc n) hm = churn hs k v n hm2" using r(1,2) by simp
  moreover have "occupied_count hm2 + n \<le> hm_capacity hm2" using Suc.prems(3) r(5,6) by simp
  ultimately show ?case using Suc.IH [OF r(3,4)] r(5,6) by simp
qed simp

lemma all_occupied: "hm_shape hm \<Longrightarrow> occupied_count hm = hm_capacity hm \<Longrightarrow>
    \<forall>e \<in> set (hm_entries hm). occupied e"
  using length_filter_less [of _ "hm_entries hm" occupied]
  by (force simp: occupied_count_def hm_shape_def)

lemma hm_size_empty: "hm_wf hs hm \<Longrightarrow> hm_abs hm = Map.empty \<Longrightarrow> hm_size hm = 0"
proof -
  assume wf: "hm_wf hs hm" and "hm_abs hm = Map.empty"
  then have "hm_for_each hm = []" by (simp add: hm_abs_def)
  then show ?thesis using hm_wfD(2) [OF wf] by (simp add: hm_for_each_def)
qed

lemma hm_put_room:
  assumes wf: "hm_wf hs hm" and room: "\<not> (\<forall>e \<in> set (hm_entries hm). occupied e)"
  obtains hm' where "hm_put hs k v hm = (Inr (hm_abs hm k = None), hm')"
proof -
  have "find_slot hs hm k \<noteq> Full" using find_slot_Full_iff [OF wf] room by blast
  then have "fst (hm_put hs k v hm) \<noteq> Inl (Runtime_error ''HashMap is full'')"
    by (simp add: hm_put_def split: probe_result.splits)
  then show ?thesis using hm.put_law [OF wf, of k v] that by auto
qed

text \<open>
  C7: \<open>HashMap::put\<close> refines the update of a partial function: on a well-formed map it
  either stores the value under the key, changes no other key, keeps the map well-formed and
  reports whether the key is new, or throws "HashMap is full" and changes nothing; it throws
  exactly when the key is absent and every slot is occupied by a live or deleted entry.
\<close>

theorem hash_map_put:
  assumes wf: "hm_wf hs hm"
  shows "case hm_put hs k v hm of
      (Inr b, hm') \<Rightarrow> hm_wf hs hm' \<and> hm_abs hm' = (hm_abs hm)(k \<mapsto> v) \<and> b = (hm_abs hm k = None) \<and>
        (hm_abs hm k \<noteq> None \<or> (\<exists>e \<in> set (hm_entries hm). \<not> occupied e))
    | (Inl f, hm') \<Rightarrow> f = Runtime_error ''HashMap is full'' \<and> hm' = hm \<and> hm_abs hm k = None \<and>
        (\<forall>e \<in> set (hm_entries hm). occupied e)"
proof (cases "find_slot hs hm k = Full")
  case True
  then show ?thesis using find_slot_Full_iff [OF wf, of k] by (simp add: hm_put_def)
next
  case False
  then have "fst (hm_put hs k v hm) \<noteq> Inl (Runtime_error ''HashMap is full'')"
    by (simp add: hm_put_def split: probe_result.splits)
  then show ?thesis
    using hm.put_law [OF wf, of k v] False find_slot_Full_iff [OF wf, of k] by auto
qed

theorem hash_map_put_witness:
  "hm_wf length (new_hash_map 4) \<and>
   (case hm_put length ''k'' (VString ''v'') (new_hash_map 4) of
      (Inr b, hm') \<Rightarrow> hm_abs hm' ''k'' = Some (VString ''v'') | _ \<Rightarrow> False)"
proof -
  have wf: "hm_wf length (new_hash_map 4)" by (rule hm_wf_new) simp
  have "\<not> (\<forall>e \<in> set (hm_entries (new_hash_map 4)). occupied e)"
    by (simp add: new_hash_map_def fresh_entry_def)
  then show ?thesis
    using wf hash_map_put [OF wf, of "''k''" "VString ''v''"] by (auto split: prod.splits sum.splits)
qed

subsection \<open>Sequences of operations\<close>

datatype map_op = Put string cvalue | Get string | Del string

datatype map_obs = Inserted bool | Found "cvalue option" | Deleted bool

fun run_op :: "(string \<Rightarrow> nat) \<Rightarrow> map_op \<Rightarrow> (hash_map, map_obs) st" where
  "run_op hs (Put k v) = bindS (hm_put hs k v) (\<lambda>b. ret (Inserted b))"
| "run_op hs (Get k) = bindS (hm_get hs k) (\<lambda>p. getS (\<lambda>hm. Found (map_option (hm_deref hm) p)))"
| "run_op hs (Del k) = bindS (hm_del hs k) (\<lambda>b. ret (Deleted b))"

fun run_ops :: "(string \<Rightarrow> nat) \<Rightarrow> map_op list \<Rightarrow> (hash_map, map_obs list) st" where
  "run_ops hs [] = ret []"
| "run_ops hs (x # xs) = bindS (run_op hs x) (\<lambda>y. bindS (run_ops hs xs) (\<lambda>ys. ret (y # ys)))"

text \<open>The same operations on a partial function.\<close>

fun spec_op :: "map_op \<Rightarrow> (string \<rightharpoonup> cvalue) \<Rightarrow> map_obs \<times> (string \<rightharpoonup> cvalue)" where
  "spec_op (Put k v) m = (Inserted (m k = None), m(k \<mapsto> v))"
| "spec_op (Get k) m = (Found (m k), m)"
| "spec_op (Del k) m = (Deleted (m k \<noteq> None), m(k := None))"

fun spec_ops :: "map_op list \<Rightarrow> (string \<rightharpoonup> cvalue) \<Rightarrow> map_obs list" where
  "spec_ops [] m = []"
| "spec_ops (x # xs) m = (case spec_op x m of (y, m') \<Rightarrow> y # spec_ops xs m')"

fun is_put :: "map_op \<Rightarrow> bool" where
  "is_put (Put k v) = True"
| "is_put _ = False"

lemma occupied_count_put:
  "hm_put hs k v hm = (r, hm') \<Longrightarrow> hm_shape hm \<Longrightarrow>
     occupied_count hm' \<le> Suc (occupied_count hm) \<and> hm_capacity hm' = hm_capacity hm"
proof -
  have *: "length (filter occupied (xs[i := x])) \<le> Suc (length (filter occupied xs))" for xs i x
  proof (cases "i < length xs")
    case True
    then show ?thesis using length_filter_update [OF True, of occupied x] by (auto split: if_splits)
  qed (simp add: list_update_beyond)
  show "hm_put hs k v hm = (r, hm') \<Longrightarrow> hm_shape hm \<Longrightarrow> ?thesis"
    using * by (auto simp: hm_put_def occupied_count_def split: probe_result.splits)
qed

lemma occupied_count_del:
  "hm_del hs k hm = (r, hm') \<Longrightarrow> hm_wf hs hm \<Longrightarrow>
     occupied_count hm' = occupied_count hm \<and> hm_capacity hm' = hm_capacity hm"
proof -
  assume d: "hm_del hs k hm = (r, hm')" and wf: "hm_wf hs hm"
  show ?thesis
  proof (cases "find_slot hs hm k")
    case (Hit i)
    then have i: "live_at hm k i" using find_slot_Hit [OF wf] by simp
    then have l: "i < length (hm_entries hm)" "occupied (hm_entries hm ! i)"
      using hm_wfD(1) [OF wf] by (simp_all add: live_at_def hm_shape_def is_live_def)
    show ?thesis
      using d Hit l length_filter_update [OF l(1), of occupied
        "(hm_entries hm ! i)\<lparr>deleted := True, evalue := Monostate\<rparr>"]
      by (auto simp: hm_del_def occupied_count_def)
  qed (use d in \<open>auto simp: hm_del_def\<close>)
qed

lemma run_op_spec:
  assumes wf: "hm_wf hs hm" and room: "is_put x \<longrightarrow> occupied_count hm < hm_capacity hm"
  obtains hm' where "run_op hs x hm = (Inr (fst (spec_op x (hm_abs hm))), hm')" "hm_wf hs hm'"
    "hm_abs hm' = snd (spec_op x (hm_abs hm))" "hm_capacity hm' = hm_capacity hm"
    "occupied_count hm' \<le> occupied_count hm + (if is_put x then 1 else 0)"
proof (cases x)
  case (Put k v)
  have "\<not> (\<forall>e \<in> set (hm_entries hm). occupied e)"
    using room Put hm_wfD(1) [OF wf]
    by (metis filter_True is_put.simps(1) less_irrefl hm_shape_def occupied_count_def)
  then obtain hm' where p: "hm_put hs k v hm = (Inr (hm_abs hm k = None), hm')"
    using hm_put_room [OF wf] by blast
  then show ?thesis
    using that [of hm'] Put hm.put_law [OF wf, of k v] occupied_count_put [OF p hm_wfD(1) [OF wf]]
    by auto
next
  case (Get k)
  then show ?thesis using that [of hm] hm.get_law [OF wf, of k] wf by auto
next
  case (Del k)
  obtain hm' where d: "hm_del hs k hm = (Inr (hm_abs hm k \<noteq> None), hm')" "hm_wf hs hm'"
    "hm_abs hm' = (hm_abs hm)(k := None)"
    using hm.del_law [OF wf] by blast
  then show ?thesis using that [of hm'] Del occupied_count_del [OF d(1) wf] by simp
qed

lemma run_ops_spec:
  assumes "hm_wf hs hm" "occupied_count hm + length (filter is_put xs) \<le> hm_capacity hm"
  shows "\<exists>hm'. run_ops hs xs hm = (Inr (spec_ops xs (hm_abs hm)), hm') \<and> hm_wf hs hm' \<and>
    hm_capacity hm' = hm_capacity hm \<and> hm_abs hm' = fold (\<lambda>x m. snd (spec_op x m)) xs (hm_abs hm)"
  using assms
proof (induction xs arbitrary: hm)
  case (Cons x xs)
  have "is_put x \<longrightarrow> occupied_count hm < hm_capacity hm" using Cons.prems(2) by auto
  with Cons.prems(1) obtain hm' where r: "run_op hs x hm = (Inr (fst (spec_op x (hm_abs hm))), hm')"
    "hm_wf hs hm'" "hm_abs hm' = snd (spec_op x (hm_abs hm))" "hm_capacity hm' = hm_capacity hm"
    "occupied_count hm' \<le> occupied_count hm + (if is_put x then 1 else 0)"
    by (rule run_op_spec)
  have "occupied_count hm' + length (filter is_put xs) \<le> hm_capacity hm'"
    using r(4,5) Cons.prems(2) by (auto split: if_splits)
  then obtain hm'' where "run_ops hs xs hm' = (Inr (spec_ops xs (hm_abs hm')), hm'')" "hm_wf hs hm''"
    "hm_capacity hm'' = hm_capacity hm'" "hm_abs hm'' = fold (\<lambda>x m. snd (spec_op x m)) xs (hm_abs hm')"
    using Cons.IH [OF r(2)] by blast
  then show ?case using r(1,3,4) by (simp add: bindS_def split_beta)
qed simp

lemma run_ops_new:
  assumes "0 < c" "length (filter is_put xs) \<le> c"
  obtains hm where "run_ops hs xs (new_hash_map c) = (Inr (spec_ops xs Map.empty), hm)" "hm_wf hs hm"
    "hm_capacity hm = c" "hm_abs hm = fold (\<lambda>x m. snd (spec_op x m)) xs Map.empty"
proof -
  have "occupied_count (new_hash_map c) = 0" "hm_capacity (new_hash_map c) = c"
    by (simp_all add: occupied_count_def new_hash_map_def fresh_entry_def filter_empty_conv)
  then show ?thesis
    using run_ops_spec [OF hm_wf_new [OF assms(1)], of xs hs] assms(2) that by auto
qed

text \<open>
  C8: From an empty map of capacity \<open>c\<close>, every sequence of puts, gets and deletes with at most
  \<open>c\<close> puts runs to its end without an exception and returns exactly what the same operations
  on a partial function return, whatever the hash function.
\<close>

theorem hash_map_sequence:
  assumes "0 < c" "length (filter is_put xs) \<le> c"
  shows "\<exists>hm. run_ops hs xs (new_hash_map c) = (Inr (spec_ops xs Map.empty), hm) \<and> hm_wf hs hm"
  by (rule run_ops_new [OF assms, of hs]) blast

theorem hash_map_sequence_witness:
  "\<exists>hm. run_ops (\<lambda>_. 7) [Put ''a'' (VString ''1''), Put ''b'' (VString ''2''), Del ''a'', Get ''b'', Get ''a'']
      (new_hash_map 2) =
    (Inr [Inserted True, Inserted True, Deleted True, Found (Some (VString ''2'')), Found None], hm)"
  using hash_map_sequence [of 2 "[Put ''a'' (VString ''1''), Put ''b'' (VString ''2''), Del ''a'',
    Get ''b'', Get ''a'']" "\<lambda>_. 7"] by auto

text \<open>
  C33: Slots are never reclaimed. After as many rounds of inserting and deleting one and the
  same key as the map has slots, the map holds no live entry (its size is 0) and yet every
  further \<open>put\<close>, of any key, throws "HashMap is full".
\<close>

theorem hash_map_exhaustion:
  assumes "0 < c"
  shows "\<exists>hm. churn hs k v c (new_hash_map c) = (Inr (), hm) \<and> hm_size hm = 0 \<and>
    (\<forall>k' v'. hm_put hs k' v' hm = (Inl (Runtime_error ''HashMap is full''), hm))"
proof -
  have "occupied_count (new_hash_map c) = 0" "hm_capacity (new_hash_map c) = c"
    by (simp_all add: occupied_count_def new_hash_map_def fresh_entry_def filter_empty_conv)
  then obtain hm where hm: "churn hs k v c (new_hash_map c) = (Inr (), hm)" "hm_wf hs hm"
    "hm_abs hm = Map.empty" "occupied_count hm = c" "hm_capacity hm = c"
    using churn_runs [OF hm_wf_new [OF assms], where n = c and hs = hs and k = k and v = v] by auto
  have "\<forall>e \<in> set (hm_entries hm). occupied e"
    using all_occupied [OF hm_wfD(1) [OF hm(2)]] hm(4,5) by simp
  then have "find_slot hs hm k' = Full" for k'
    using find_slot_Full_iff [OF hm(2)] hm(3) by simp
  then show ?thesis using hm hm_size_empty [OF hm(2,3)] by (auto simp: hm_put_def)
qed

theorem hash_map_exhaustion_witness:
  "\<exists>hm. churn length ''k'' (VString ''v'') 10000 (new_hash_map 10000) = (Inr (), hm) \<and> hm_size hm = 0 \<and>
    hm_put length ''x'' (VString ''y'') hm = (Inl (Runtime_error ''HashMap is full''), hm)"
  using hash_map_exhaustion [of 10000 length "''k''" "VString ''v''"] by auto

end
