(* ===== verification/Shard.thy ===== *)
theory Shard
  imports Hash_Map
begin

text \<open>
  A shard (\<open>src/storage/shard.hpp\<close>, \<open>shard.cpp\<close>): the hash map of one core together with the
  expiration times of its keys, and the storage engine (\<open>engine.hpp\<close>), an array of shards
  indexed by \<open>std::hash\<close>. Time is a parameter: \<open>now\<close> is what \<open>system_clock::now()\<close> returned, in
  milliseconds, at the call.

  The abstract state of a shard is a partial function from keys to a value and an optional
  expiration time. The locale \<open>keyspace\<close> states the contract of the shard operations over it;
  the commands rely on that contract only.
\<close>

section \<open>State and operations\<close>

record shard =
  data_store :: hash_map
  expires :: "string \<rightharpoonup> int"

text \<open>\<open>Shard::Shard\<close>: a hash map of capacity 10000.\<close>

definition new_shard :: shard where
  "new_shard = \<lparr>data_store = new_hash_map 10000, expires = Map.empty\<rparr>"

definition on_data :: "(hash_map, 'a) st \<Rightarrow> (shard, 'a) st" where
  "on_data m = zoom data_store (\<lambda>h s. s\<lparr>data_store := h\<rparr>) m"

definition erase_expiry :: "string \<Rightarrow> shard \<Rightarrow> shard" where
  "erase_expiry k sh = sh\<lparr>expires := (expires sh)(k := None)\<rparr>"

text \<open>\<open>Shard::set\<close>: SET clears any existing expiration.\<close>

definition shard_set :: "(string \<Rightarrow> nat) \<Rightarrow> string \<Rightarrow> cvalue \<Rightarrow> (shard, unit) st" where
  "shard_set hs k v = bindS (on_data (hm_put hs k v)) (\<lambda>_. modifyS (erase_expiry k))"

text \<open>\<open>Shard::get\<close>: an expired key is deleted on access.\<close>

definition shard_get :: "(string \<Rightarrow> nat) \<Rightarrow> int \<Rightarrow> string \<Rightarrow> (shard, nat option) st" where
  "shard_get hs now k = (\<lambda>sh.
     case expires sh k of
       Some t \<Rightarrow>
         (if now > t then
            bindS (on_data (hm_del hs k)) (\<lambda>_. bindS (modifyS (erase_expiry k)) (\<lambda>_. ret None)) sh
          else on_data (hm_get hs k) sh)
     | None \<Rightarrow> on_data (hm_get hs k) sh)"

text \<open>\<open>Shard::get() const\<close>: an expired key is hidden but stays.\<close>

definition shard_get_const :: "(string \<Rightarrow> nat) \<Rightarrow> int \<Rightarrow> string \<Rightarrow> shard \<Rightarrow> fault + nat option" where
  "shard_get_const hs now k sh =
     (case expires sh k of
        Some t \<Rightarrow> if now > t then Inr None else fst (hm_get hs k (data_store sh))
      | None \<Rightarrow> fst (hm_get hs k (data_store sh)))"

text \<open>\<open>Shard::del\<close>.\<close>

definition shard_del :: "(string \<Rightarrow> nat) \<Rightarrow> string \<Rightarrow> (shard, bool) st" where
  "shard_del hs k = bindS (modifyS (erase_expiry k)) (\<lambda>_. on_data (hm_del hs k))"

text \<open>\<open>Shard::set_expiry\<close> and \<open>Shard::get_expiry\<close>, which returns -1 when there is none.\<close>

definition set_expiry :: "string \<Rightarrow> int \<Rightarrow> (shard, unit) st" where
  "set_expiry k t = modifyS (\<lambda>sh. sh\<lparr>expires := (expires sh)(k \<mapsto> t)\<rparr>)"

definition get_expiry :: "string \<Rightarrow> shard \<Rightarrow> int" where
  "get_expiry k sh = (case expires sh k of Some t \<Rightarrow> t | None \<Rightarrow> - 1)"

text \<open>\<open>Shard::for_each\<close>.\<close>

definition shard_for_each :: "shard \<Rightarrow> (string \<times> cvalue) list" where
  "shard_for_each sh = hm_for_each (data_store sh)"

text \<open>Reading and writing through the pointer \<open>get\<close> returned.\<close>

definition shard_deref :: "shard \<Rightarrow> nat \<Rightarrow> cvalue" where
  "shard_deref sh i = hm_deref (data_store sh) i"

definition shard_assign :: "nat \<Rightarrow> cvalue \<Rightarrow> shard \<Rightarrow> shard" where
  "shard_assign i v sh = sh\<lparr>data_store := hm_assign i v (data_store sh)\<rparr>"

text \<open>
  The storage engine. \<open>get_shard\<close> and \<open>get_shard_by_id\<close> return references, represented by the
  index of the shard; indexing past the vector is undefined.
\<close>

record storage_engine =
  num_shards :: nat
  eng_shards :: "shard list"

definition new_storage_engine :: "nat \<Rightarrow> storage_engine" where
  "new_storage_engine n = \<lparr>num_shards = n, eng_shards = replicate n new_shard\<rparr>"

definition engine_get_shard_by_id :: "storage_engine \<Rightarrow> nat \<Rightarrow> fault + nat" where
  "engine_get_shard_by_id e i = (if i < length (eng_shards e) then Inr i else Inl Undefined_behaviour)"

definition engine_get_shard :: "(string \<Rightarrow> nat) \<Rightarrow> storage_engine \<Rightarrow> string \<Rightarrow> fault + nat" where
  "engine_get_shard hs e k =
     (if num_shards e = 0 then Inl Undefined_behaviour
      else engine_get_shard_by_id e (hs k mod num_shards e))"

section \<open>Abstraction and invariant\<close>

type_synonym db = "string \<rightharpoonup> (cvalue \<times> int option)"

definition shard_abs :: "shard \<Rightarrow> db" where
  "shard_abs sh = (\<lambda>k. map_option (\<lambda>v. (v, expires sh k)) (hm_abs (data_store sh) k))"

definition value_ok :: "cvalue \<Rightarrow> bool" where
  "value_ok v \<longleftrightarrow> v \<noteq> Monostate \<and> value_inv v"

definition shard_inv :: "(string \<Rightarrow> nat) \<Rightarrow> shard \<Rightarrow> bool" where
  "shard_inv hs sh \<longleftrightarrow>
     hm_wf hs (data_store sh) \<and>
     dom (expires sh) \<subseteq> dom (hm_abs (data_store sh)) \<and>
     (\<forall>v \<in> ran (hm_abs (data_store sh)). value_ok v)"

text \<open>What accessing a key at a given time does to the abstract state.\<close>

definition purge :: "int \<Rightarrow> string \<Rightarrow> db \<Rightarrow> db" where
  "purge now k d =
     (case d k of Some (v, Some t) \<Rightarrow> if now > t then d(k := None) else d | _ \<Rightarrow> d)"

lemma purge_other [simp]: "j \<noteq> k \<Longrightarrow> purge now k d j = d j"
  by (auto simp: purge_def split: option.splits)

lemma purge_None: "d k = None \<Longrightarrow> purge now k d = d"
  by (simp add: purge_def)

lemma purge_no_expiry: "d k = Some (v, None) \<Longrightarrow> purge now k d = d"
  by (simp add: purge_def)

lemma purge_value: "purge now k d k = Some x \<Longrightarrow> d k = Some x"
  by (auto simp: purge_def split: option.splits if_splits)

lemma purge_purge [simp]: "purge now k (purge now k d) = purge now k d"
  by (auto simp: purge_def split: option.splits)

locale keyspace =
  fixes inv :: "'s \<Rightarrow> bool" and abs :: "'s \<Rightarrow> db" and deref :: "'s \<Rightarrow> nat \<Rightarrow> cvalue"
    and get :: "int \<Rightarrow> string \<Rightarrow> ('s, nat option) st" and set :: "string \<Rightarrow> cvalue \<Rightarrow> ('s, unit) st"
    and del :: "string \<Rightarrow> ('s, bool) st" and assign :: "nat \<Rightarrow> cvalue \<Rightarrow> 's \<Rightarrow> 's"
    and set_exp :: "string \<Rightarrow> int \<Rightarrow> ('s, unit) st"
  assumes values_ok: "inv s \<Longrightarrow> abs s k = Some (v, e) \<Longrightarrow> value_ok v"
    and get_law: "inv s \<Longrightarrow>
      \<exists>p s'. get now k s = (Inr p, s') \<and> inv s' \<and> abs s' = purge now k (abs s) \<and>
        map_option (deref s') p = map_option fst (abs s' k)"
    and set_law: "inv s \<Longrightarrow> value_ok v \<Longrightarrow>
      (\<exists>s'. set k v s = (Inr (), s') \<and> inv s' \<and> abs s' = (abs s)(k \<mapsto> (v, None))) \<or>
      (abs s k = None \<and> set k v s = (Inl (Runtime_error ''HashMap is full''), s))"
    and del_law: "inv s \<Longrightarrow>
      \<exists>s'. del k s = (Inr (abs s k \<noteq> None), s') \<and> inv s' \<and> abs s' = (abs s)(k := None)"
    and assign_law: "inv s \<Longrightarrow> get now k s = (Inr (Some i), s') \<Longrightarrow> abs s' k = Some (v, e) \<Longrightarrow>
      value_ok w \<Longrightarrow> inv (assign i w s') \<and> abs (assign i w s') = (abs s')(k \<mapsto> (w, e))"
    and set_exp_law: "inv s \<Longrightarrow> abs s k = Some (v, e) \<Longrightarrow>
      \<exists>s'. set_exp k t s = (Inr (), s') \<and> inv s' \<and> abs s' = (abs s)(k \<mapsto> (v, Some t))"
begin

lemma get_cases:
  assumes "inv s"
  obtains (miss) s' where "get now k s = (Inr None, s')" "inv s'" "abs s' = purge now k (abs s)"
      "purge now k (abs s) k = None"
  | (hit) i s' v e where "get now k s = (Inr (Some i), s')" "inv s'" "abs s' = purge now k (abs s)"
      "purge now k (abs s) k = Some (v, e)" "deref s' i = v" "value_ok v"
proof -
  obtain p s' where g: "get now k s = (Inr p, s')" "inv s'" "abs s' = purge now k (abs s)"
    "map_option (deref s') p = map_option fst (abs s' k)"
    using get_law [OF assms] by blast
  show ?thesis
  proof (cases p)
    case None
    with g that(1) show ?thesis by auto
  next
    case (Some i)
    with g(4) obtain v e where ve: "abs s' k = Some (v, e)" "deref s' i = v"
      by (cases "abs s' k") auto
    with values_ok [OF g(2)] have "value_ok v" by blast
    with Some g(1-3) ve that(2) [of i s' v e] show ?thesis by simp
  qed
qed

text \<open>A value just stored is found again, at any time, and carries no expiration.\<close>

lemma set_then_get:
  assumes "inv s" "value_ok v" "set k v s = (Inr (), s1)"
  obtains i s2 where "get now k s1 = (Inr (Some i), s2)" "inv s2" "abs s2 = (abs s)(k \<mapsto> (v, None))"
    "deref s2 i = v"
proof -
  have s1: "inv s1" "abs s1 = (abs s)(k \<mapsto> (v, None))"
    using set_law [OF assms(1,2), of k] assms(3) by auto
  then have p: "purge now k (abs s1) = abs s1" by (simp add: purge_no_expiry)
  from s1(1) show ?thesis
  proof (cases rule: get_cases [where now = now and k = k])
    case (miss s')
    then show ?thesis unfolding p by (simp add: s1(2))
  next
    case (hit i s' w e)
    then have "deref s' i = v" "abs s' = (abs s)(k \<mapsto> (v, None))"
      unfolding p by (simp_all add: s1(2))
    with hit(1,2) that show ?thesis by blast
  qed
qed

end

section \<open>The shard implements the contract\<close>

lemma on_data_apply [simp]:
  "m (data_store sh) = (r, h) \<Longrightarrow> on_data m sh = (r, sh\<lparr>data_store := h\<rparr>)"
  by (simp add: on_data_def)

lemma shard_invD:
  assumes "shard_inv hs sh"
  shows "hm_wf hs (data_store sh)" "expires sh k = Some t \<Longrightarrow> hm_abs (data_store sh) k \<noteq> None"
    "hm_abs (data_store sh) k = Some v \<Longrightarrow> value_ok v"
  using assms by (auto simp: shard_inv_def ran_def)

lemma shard_abs_None [simp]: "shard_abs sh k = None \<longleftrightarrow> hm_abs (data_store sh) k = None"
  by (simp add: shard_abs_def)

lemma shard_abs_Some:
  "shard_abs sh k = Some (v, e) \<longleftrightarrow> hm_abs (data_store sh) k = Some v \<and> expires sh k = e"
  by (auto simp: shard_abs_def)

lemma shard_abs_del:
  "hm_abs h = (hm_abs (data_store sh))(k := None) \<Longrightarrow>
     shard_abs (erase_expiry k (sh\<lparr>data_store := h\<rparr>)) = (shard_abs sh)(k := None)"
  by (auto simp: shard_abs_def erase_expiry_def)

lemma shard_inv_del:
  "shard_inv hs sh \<Longrightarrow> hm_wf hs h \<Longrightarrow> hm_abs h = (hm_abs (data_store sh))(k := None) \<Longrightarrow>
     shard_inv hs (erase_expiry k (sh\<lparr>data_store := h\<rparr>))"
  by (auto simp: shard_inv_def erase_expiry_def ran_def split: if_splits)

lemma shard_get_law:
  assumes inv: "shard_inv hs sh"
  shows "\<exists>p sh'. shard_get hs now k sh = (Inr p, sh') \<and> shard_inv hs sh' \<and>
    shard_abs sh' = purge now k (shard_abs sh) \<and>
    map_option (shard_deref sh') p = map_option fst (shard_abs sh' k) \<and>
    (\<forall>i. p = Some i \<longrightarrow> sh' = sh \<and> hm_get hs k (data_store sh) = (Inr (Some i), data_store sh))"
proof (cases "\<exists>t. expires sh k = Some t \<and> now > t")
  case True
  then obtain t where t: "expires sh k = Some t" "now > t" by blast
  obtain h where h: "hm_del hs k (data_store sh) = (Inr (hm_abs (data_store sh) k \<noteq> None), h)"
    "hm_wf hs h" "hm_abs h = (hm_abs (data_store sh))(k := None)"
    using hm.del_law [OF shard_invD(1) [OF inv]] by blast
  let ?sh = "erase_expiry k (sh\<lparr>data_store := h\<rparr>)"
  have "shard_get hs now k sh = (Inr None, ?sh)" using t h(1) by (simp add: shard_get_def)
  moreover have "shard_abs ?sh = purge now k (shard_abs sh)"
  proof -
    obtain v where "hm_abs (data_store sh) k = Some v" using shard_invD(2) [OF inv t(1)] by blast
    then have "shard_abs sh k = Some (v, Some t)" using t(1) by (simp add: shard_abs_Some)
    with t(2) show ?thesis by (simp add: shard_abs_del [OF h(3)] purge_def)
  qed
  moreover have "shard_abs ?sh k = None" by (simp add: shard_abs_del [OF h(3)])
  moreover note shard_inv_del [OF inv h(2,3)]
  ultimately show ?thesis by (intro exI [of _ None] exI [of _ ?sh]) (simp del: shard_abs_None)
next
  case False
  obtain p where p: "hm_get hs k (data_store sh) = (Inr p, data_store sh)"
    "map_option (hm_deref (data_store sh)) p = hm_abs (data_store sh) k"
    using hm.get_law [OF shard_invD(1) [OF inv]] by blast
  have "shard_get hs now k sh = (Inr p, sh)"
    using False p(1) by (auto simp: shard_get_def split: option.splits)
  moreover have "purge now k (shard_abs sh) = shard_abs sh"
    using False by (auto simp: purge_def shard_abs_Some split: option.splits)
  moreover have "map_option (shard_deref sh) p = map_option fst (shard_abs sh k)"
    using p(2) by (cases p; cases "hm_abs (data_store sh) k") (auto simp: shard_deref_def shard_abs_def)
  ultimately show ?thesis using inv p(1) by auto
qed

lemma shard_set_law:
  assumes inv: "shard_inv hs sh" and ok: "value_ok v"
  shows "(\<exists>sh'. shard_set hs k v sh = (Inr (), sh') \<and> shard_inv hs sh' \<and>
      shard_abs sh' = (shard_abs sh)(k \<mapsto> (v, None))) \<or>
    (shard_abs sh k = None \<and> shard_set hs k v sh = (Inl (Runtime_error ''HashMap is full''), sh))"
  using hm.put_law [OF shard_invD(1) [OF inv], of k v]
proof (elim disjE exE conjE)
  fix h
  assume h: "hm_put hs k v (data_store sh) = (Inr (hm_abs (data_store sh) k = None), h)"
    "hm_wf hs h" "hm_abs h = (hm_abs (data_store sh))(k \<mapsto> v)"
  let ?sh = "erase_expiry k (sh\<lparr>data_store := h\<rparr>)"
  have "shard_set hs k v sh = (Inr (), ?sh)" using h(1) by (simp add: shard_set_def)
  moreover have "shard_inv hs ?sh"
    using inv ok h(2,3) by (auto simp: shard_inv_def erase_expiry_def ran_def split: if_splits)
  moreover have "shard_abs ?sh = (shard_abs sh)(k \<mapsto> (v, None))"
    using h(3) by (auto simp: shard_abs_def erase_expiry_def)
  ultimately show ?thesis by blast
next
  assume "hm_abs (data_store sh) k = None"
    "hm_put hs k v (data_store sh) = (Inl (Runtime_error ''HashMap is full''), data_store sh)"
  then show ?thesis by (simp add: shard_set_def)
qed

lemma shard_del_law:
  assumes inv: "shard_inv hs sh"
  shows "\<exists>sh'. shard_del hs k sh = (Inr (shard_abs sh k \<noteq> None), sh') \<and> shard_inv hs sh' \<and>
    shard_abs sh' = (shard_abs sh)(k := None)"
proof -
  obtain h where h: "hm_del hs k (data_store sh) = (Inr (hm_abs (data_store sh) k \<noteq> None), h)"
    "hm_wf hs h" "hm_abs h = (hm_abs (data_store sh))(k := None)"
    using hm.del_law [OF shard_invD(1) [OF inv]] by blast
  have "shard_del hs k sh =
      (Inr (hm_abs (data_store sh) k \<noteq> None), erase_expiry k (sh\<lparr>data_store := h\<rparr>))"
    using h(1) by (simp add: shard_del_def erase_expiry_def)
  then show ?thesis using shard_inv_del [OF inv h(2,3)] shard_abs_del [OF h(3)] by simp
qed

lemma shard_assign_law:
  assumes inv: "shard_inv hs sh" and g: "shard_get hs now k sh = (Inr (Some i), sh')"
    and a: "shard_abs sh' k = Some (v, e)" and ok: "value_ok w"
  shows "shard_inv hs (shard_assign i w sh') \<and>
    shard_abs (shard_assign i w sh') = (shard_abs sh')(k \<mapsto> (w, e))"
proof -
  have sh: "sh' = sh" and p: "hm_get hs k (data_store sh) = (Inr (Some i), data_store sh)"
    using shard_get_law [OF inv, of now k] g by auto
  have "hm_wf hs (hm_assign i w (data_store sh))"
    "hm_abs (hm_assign i w (data_store sh)) = (hm_abs (data_store sh))(k \<mapsto> w)"
    using hm.assign_law [OF shard_invD(1) [OF inv] p] by auto
  with inv ok a sh show ?thesis
    by (auto simp: shard_inv_def shard_assign_def shard_abs_def ran_def split: if_splits)
qed

interpretation ks: keyspace "shard_inv hs" shard_abs shard_deref "shard_get hs" "shard_set hs"
    "shard_del hs" shard_assign set_expiry for hs
proof
  fix s k v e now w i s' t
  assume inv: "shard_inv hs s"
  show "shard_abs s k = Some (v, e) \<Longrightarrow> value_ok v"
    using shard_invD(3) [OF inv, of k v] by (simp add: shard_abs_Some)
  show "\<exists>p s'. shard_get hs now k s = (Inr p, s') \<and> shard_inv hs s' \<and>
      shard_abs s' = purge now k (shard_abs s) \<and>
      map_option (shard_deref s') p = map_option fst (shard_abs s' k)"
    using shard_get_law [OF inv, of now k] by blast
  show "value_ok v \<Longrightarrow> (\<exists>s'. shard_set hs k v s = (Inr (), s') \<and> shard_inv hs s' \<and>
        shard_abs s' = (shard_abs s)(k \<mapsto> (v, None))) \<or>
      shard_abs s k = None \<and> shard_set hs k v s = (Inl (Runtime_error ''HashMap is full''), s)"
    by (rule shard_set_law [OF inv])
  show "\<exists>s'. shard_del hs k s = (Inr (shard_abs s k \<noteq> None), s') \<and> shard_inv hs s' \<and>
      shard_abs s' = (shard_abs s)(k := None)"
    by (rule shard_del_law [OF inv])
  show "shard_get hs now k s = (Inr (Some i), s') \<Longrightarrow> shard_abs s' k = Some (v, e) \<Longrightarrow> value_ok w \<Longrightarrow>
      shard_inv hs (shard_assign i w s') \<and> shard_abs (shard_assign i w s') = (shard_abs s')(k \<mapsto> (w, e))"
    by (rule shard_assign_law [OF inv])
  show "shard_abs s k = Some (v, e) \<Longrightarrow> \<exists>s'. set_expiry k t s = (Inr (), s') \<and> shard_inv hs s' \<and>
      shard_abs s' = (shard_abs s)(k \<mapsto> (v, Some t))"
    using inv by (auto simp: set_expiry_def shard_inv_def shard_abs_def split: if_splits)
qed

text \<open>
  The two overloads of \<open>get\<close> agree on what they return, and the const one differs from the other
  only in that it leaves an expired entry in place.
\<close>

lemma shard_get_const_eq:
  assumes "shard_inv hs sh"
  shows "shard_get_const hs now k sh = fst (shard_get hs now k sh)"
proof -
  obtain b h where "hm_del hs k (data_store sh) = (Inr b, h)"
    using hm.del_law [OF shard_invD(1) [OF assms]] by blast
  then show ?thesis
    by (auto simp: shard_get_const_def shard_get_def on_data_def zoom_def split: option.splits prod.splits)
qed

lemma shard_inv_new: "shard_inv hs new_shard"
  by (simp add: shard_inv_def new_shard_def hm_wf_new)

lemma shard_abs_new [simp]: "shard_abs new_shard = Map.empty"
  by (simp add: shard_abs_def new_shard_def)

lemma shard_set_new:
  assumes "value_ok v"
  obtains sh where "shard_set hs k v new_shard = (Inr (), sh)" "shard_inv hs sh"
    "shard_abs sh = [k \<mapsto> (v, None)]"
proof -
  have "\<not> (\<forall>e \<in> set (hm_entries (data_store new_shard)). occupied e)"
    by (simp add: new_shard_def new_hash_map_def fresh_entry_def)
  then obtain h b where "hm_put hs k v (data_store new_shard) = (Inr b, h)"
    using hm_put_room [OF shard_invD(1) [OF shard_inv_new]] by metis
  then have "shard_set hs k v new_shard \<noteq> (Inl (Runtime_error ''HashMap is full''), new_shard)"
    by (simp add: shard_set_def)
  then show ?thesis using shard_set_law [OF shard_inv_new assms, of hs k] that by auto
qed

section \<open>Properties\<close>

text \<open>
  C20: \<open>Shard::get\<close> never throws on a well-formed shard. It returns a pointer to the stored value
  exactly when the key is present and its expiration time, if it has one, is not before the
  clock reading; a key past its expiration time is removed together with the expiration, no
  other key changes, and the const overload returns the same pointer.
\<close>

theorem shard_get_lazy_expiry:
  assumes "shard_inv hs sh"
  shows "\<exists>p sh'. shard_get hs now k sh = (Inr p, sh') \<and> shard_get_const hs now k sh = Inr p \<and>
    shard_inv hs sh' \<and>
    shard_abs sh' = (case shard_abs sh k of
        Some (v, Some t) \<Rightarrow> if t < now then (shard_abs sh)(k := None) else shard_abs sh
      | _ \<Rightarrow> shard_abs sh) \<and>
    map_option (shard_deref sh') p = map_option fst (shard_abs sh' k)"
proof -
  obtain p sh' where g: "shard_get hs now k sh = (Inr p, sh')" "shard_inv hs sh'"
    "shard_abs sh' = purge now k (shard_abs sh)"
    "map_option (shard_deref sh') p = map_option fst (shard_abs sh' k)"
    using shard_get_law [OF assms, of now k] by blast
  moreover from g(1) have "shard_get_const hs now k sh = Inr p"
    using shard_get_const_eq [OF assms, of now k] by simp
  ultimately show ?thesis unfolding purge_def by blast
qed

theorem shard_get_lazy_expiry_witness:
  "\<exists>sh sh'. shard_inv length sh \<and> shard_abs sh = [''k'' \<mapsto> (VString ''v'', Some 5)] \<and>
    shard_get length 6 ''k'' sh = (Inr None, sh') \<and> shard_abs sh' = Map.empty"
proof -
  obtain s1 where s1: "shard_inv length s1" "shard_abs s1 = [''k'' \<mapsto> (VString ''v'', None)]"
    by (rule shard_set_new [of "VString ''v''" length "''k''"]) (simp_all add: value_ok_def)
  obtain s2 where s2: "shard_inv length s2" "shard_abs s2 = [''k'' \<mapsto> (VString ''v'', Some 5)]"
    using ks.set_exp_law [OF s1(1), of "''k''" "VString ''v''" None 5] s1(2) by auto
  obtain p s3 where s3: "shard_get length 6 ''k'' s2 = (Inr p, s3)" "shard_abs s3 = Map.empty"
    "map_option (shard_deref s3) p = map_option fst (shard_abs s3 ''k'')"
    using shard_get_lazy_expiry [OF s2(1), of 6 "''k''"] s2(2) by (auto simp del: shard_abs_None)
  from s3(2,3) have "p = None" by simp
  with s2 s3 show ?thesis by blast
qed

end
