(* ===== verification/Router.thy ===== *)
theory Router
  imports Ordered_Containers
begin

text \<open>
  The key router (\<open>src/core/router.hpp\<close>, \<open>router.cpp\<close>): consistent hashing on a ring of 32-bit
  FNV-1a hashes with 100 virtual nodes per shard. The ring, a \<open>std::map\<close>, is the list of its
  entries in key order. The lemmas show that \<open>get_shard_id\<close> picks the virtual node at the
  smallest clockwise distance, computed by the wrap-around subtraction of 32-bit words.
\<close>

unbundle bit_operations_syntax

section \<open>Hash functions and ring\<close>

definition hash_key :: "string \<Rightarrow> 32 word" where
  "hash_key key = fold (\<lambda>c hash. (hash XOR of_char c) * 16777619) key 2166136261"

text \<open>
  \<open>Router::crc16\<close>. A character with the top bit set is sign-extended by the cast; the bits this
  adds are shifted out of the 16-bit register, so the unsigned byte gives the same result.
\<close>

definition crc_bit :: "16 word \<Rightarrow> 16 word" where
  "crc_bit crc =
     (if crc AND 0x8000 \<noteq> 0 then push_bit 1 crc XOR 0x1021 else push_bit 1 crc)"

definition crc16 :: "string \<Rightarrow> 16 word" where
  "crc16 key = fold (\<lambda>c crc. (crc_bit ^^ 8) (crc XOR push_bit 8 (of_char c))) key 0"

type_synonym ring = "(32 word \<times> nat) list"

record router =
  ring :: ring
  router_shards :: nat

abbreviation "VIRTUAL_NODES_PER_SHARD \<equiv> 100 :: nat"

definition virtual_node_key :: "nat \<Rightarrow> nat \<Rightarrow> string" where
  "virtual_node_key shard_id v = ''SHARD-'' @ nat_str shard_id @ ''-VN-'' @ nat_str v"

text \<open>The inner loop of \<open>initialize_ring\<close>: the virtual nodes of one shard.\<close>

definition add_shard :: "nat \<Rightarrow> ring \<Rightarrow> ring" where
  "add_shard shard_id r =
     fold (\<lambda>v r. omap_put r (hash_key (virtual_node_key shard_id v)) shard_id)
       [0 ..< VIRTUAL_NODES_PER_SHARD] r"

definition initialize_ring :: "nat \<Rightarrow> ring \<Rightarrow> ring" where
  "initialize_ring n r = (if n = 0 then r else fold add_shard [0 ..< n] [])"

definition new_router :: "nat \<Rightarrow> router" where
  "new_router n = \<lparr>ring = initialize_ring n [], router_shards = n\<rparr>"

definition get_shard_id :: "router \<Rightarrow> string \<Rightarrow> nat" where
  "get_shard_id rt key =
     (if router_shards rt = 0 then 0
      else if ring rt = [] then unat (crc16 key) mod router_shards rt
      else
        (case omap_lower_bound (ring rt) (hash_key key) of
           Some (_, s) \<Rightarrow> s
         | None \<Rightarrow> snd (hd (ring rt))))"

section \<open>The ring as a map\<close>

definition nodes_of :: "nat \<Rightarrow> 32 word set" where
  "nodes_of s = (\<lambda>v. hash_key (virtual_node_key s v)) ` {0 ..< VIRTUAL_NODES_PER_SHARD}"

lemma fold_put_find:
  assumes "omap_sorted r"
  shows "omap_sorted (fold (\<lambda>v r. omap_put r (f v) s) vs r)" (is ?sorted)
    and "omap_find (fold (\<lambda>v r. omap_put r (f v) s) vs r) =
      (\<lambda>h. if h \<in> f ` set vs then Some s else omap_find r h)" (is ?find)
proof -
  have "?sorted \<and> ?find" using assms by (induction vs arbitrary: r) (auto simp: fun_eq_iff)
  then show ?sorted ?find by blast+
qed

lemma add_shard_sorted [simp, intro]: "omap_sorted r \<Longrightarrow> omap_sorted (add_shard s r)"
  unfolding add_shard_def by (rule fold_put_find(1))

lemma add_shard_find:
  "omap_sorted r \<Longrightarrow>
     omap_find (add_shard s r) h = (if h \<in> nodes_of s then Some s else omap_find r h)"
  unfolding add_shard_def nodes_of_def by (subst fold_put_find(2)) (auto simp: atLeast0LessThan lessThan_def)

lemma initialize_ring_Suc:
  "initialize_ring (Suc n) [] = add_shard n (initialize_ring n [])"
  by (simp add: initialize_ring_def)

lemma initialize_ring_sorted [simp, intro]: "omap_sorted (initialize_ring n [])"
  by (induction n) (simp_all add: initialize_ring_Suc, simp add: initialize_ring_def)

lemma initialize_ring_find:
  "omap_find (initialize_ring n []) h = Some s \<Longrightarrow> s < n \<and> h \<in> nodes_of s"
proof (induction n arbitrary: s)
  case 0
  then show ?case by (simp add: initialize_ring_def)
next
  case (Suc n)
  then show ?case
    by (fastforce simp: initialize_ring_Suc add_shard_find split: if_splits)
qed

lemma omap_find_iff: "omap_sorted m \<Longrightarrow> omap_find m k = Some v \<longleftrightarrow> (k, v) \<in> set m"
proof -
  assume s: "omap_sorted m"
  then have "distinct (map fst m)" by (simp add: omap_sorted_def strict_sorted_iff)
  with s show ?thesis by (simp add: omap_find_map_of)
qed

lemma initialize_ring_not_Nil:
  assumes "0 < n"
  shows "initialize_ring n [] \<noteq> []"
proof -
  obtain n' where n: "n = Suc n'" using assms by (cases n) auto
  have "hash_key (virtual_node_key n' 0) \<in> nodes_of n'" by (simp add: nodes_of_def)
  then have "omap_find (initialize_ring n []) (hash_key (virtual_node_key n' 0)) = Some n'"
    by (simp add: n initialize_ring_Suc add_shard_find)
  then show ?thesis by (metis omap_find.simps(1) option.distinct(1))
qed

section \<open>Clockwise distance\<close>

text \<open>
  The node \<open>a\<close> of a ring is next to a hash \<open>h\<close> when no node is at a smaller distance \<open>a - h\<close>, the
  subtraction being modulo the size of the ring.
\<close>

definition next_node :: "32 word set \<Rightarrow> 32 word \<Rightarrow> 32 word \<Rightarrow> bool" where
  "next_node A h a \<longleftrightarrow> a \<in> A \<and> (\<forall>b \<in> A. a - h \<le> b - h)"

lemma next_node_unique: "next_node A h a \<Longrightarrow> next_node A h b \<Longrightarrow> a = b"
proof -
  assume "next_node A h a" "next_node A h b"
  then have "a - h \<le> b - h" "b - h \<le> a - h" by (simp_all add: next_node_def)
  then have "a - h = b - h" by (rule antisym)
  then show "a = b" by simp
qed

lemma distance_le_ahead:
  fixes a b h :: "32 word"
  assumes "h \<le> a" "h \<le> b \<Longrightarrow> a \<le> b"
  shows "a - h \<le> b - h"
proof -
  have "uint a < 2 ^ 32" "0 \<le> uint b" using uint_lt2p [of a] by simp_all
  then have "uint a \<le> uint b + 2 ^ 32" by linarith
  with assms show ?thesis by (auto simp: word_le_def uint_sub_if')
qed

lemma distance_le_wrap:
  fixes a b h :: "32 word"
  assumes "a < h" "b < h" "a \<le> b"
  shows "a - h \<le> b - h"
  using assms by (auto simp: word_le_def word_less_def uint_sub_if')

lemma lower_bound_next:
  assumes s: "omap_sorted r" and lb: "omap_lower_bound r h = Some (a, v)"
  shows "(a, v) \<in> set r \<and> next_node (fst ` set r) h a"
proof -
  have a: "omap_find r a = Some v" "h \<le> a" "\<forall>b \<in> fst ` set r. h \<le> b \<longrightarrow> a \<le> b"
    using lb by (simp_all add: omap_lower_bound_Some [OF s])
  from a(1) have "(a, v) \<in> set r" by (simp add: omap_find_iff [OF s])
  then show ?thesis using a(2,3) by (force simp: next_node_def intro!: distance_le_ahead)
qed

lemma wrap_next:
  assumes s: "omap_sorted r" and lb: "omap_lower_bound r h = None" and r: "r \<noteq> []"
  shows "next_node (fst ` set r) h (fst (hd r))"
proof -
  have "\<forall>a \<in> fst ` set r. a < h" using s lb by (simp add: omap_lower_bound_None)
  moreover have "\<forall>a \<in> fst ` set r. fst (hd r) \<le> a" using s r by (cases r) fastforce+
  ultimately show ?thesis using r by (auto simp: next_node_def intro!: distance_le_wrap)
qed

lemma get_shard_id_next:
  assumes "0 < n"
  obtains a where "omap_find (initialize_ring n []) a = Some (get_shard_id (new_router n) key)"
    "next_node (dom (omap_find (initialize_ring n []))) (hash_key key) a"
proof -
  let ?r = "initialize_ring n []"
  have ne: "?r \<noteq> []" using assms by (rule initialize_ring_not_Nil)
  have dom: "dom (omap_find ?r) = fst ` set ?r" by (force simp: omap_find_iff)
  show ?thesis
  proof (cases "omap_lower_bound ?r (hash_key key)")
    case None
    moreover have "omap_find ?r (fst (hd ?r)) = Some (snd (hd ?r))" using ne by (simp add: omap_find_iff)
    ultimately show ?thesis
      using that [of "fst (hd ?r)"] wrap_next [OF _ None ne] assms ne dom
      by (simp add: get_shard_id_def new_router_def)
  next
    case (Some e)
    obtain a s where e: "e = (a, s)" by (cases e)
    have "(a, s) \<in> set ?r" "next_node (fst ` set ?r) (hash_key key) a"
      using lower_bound_next [of ?r "hash_key key" a s] Some e by auto
    then show ?thesis using that [of a] Some e assms ne dom
      by (simp add: get_shard_id_def new_router_def omap_find_iff)
  qed
qed

lemma get_shard_id_lt: "0 < n \<Longrightarrow> get_shard_id (new_router n) key < n"
  by (rule get_shard_id_next [of n key]) (auto dest: initialize_ring_find)

section \<open>Properties\<close>

text \<open>
  C21: With at least one shard, the router sends every key to an existing shard, the one that
  owns the virtual node at the smallest clockwise distance from the hash of the key; the
  CRC16 fallback for an empty ring is never taken.
\<close>

theorem router_total:
  assumes "0 < n"
  shows "get_shard_id (new_router n) key < n \<and> ring (new_router n) \<noteq> [] \<and>
    (\<exists>a. (a, get_shard_id (new_router n) key) \<in> set (ring (new_router n)) \<and>
       (\<forall>(b, s) \<in> set (ring (new_router n)). a - hash_key key \<le> b - hash_key key))"
proof -
  obtain a where a: "omap_find (initialize_ring n []) a = Some (get_shard_id (new_router n) key)"
    "next_node (dom (omap_find (initialize_ring n []))) (hash_key key) a"
    by (rule get_shard_id_next [OF assms])
  from a(2) have "\<forall>(b, s) \<in> set (initialize_ring n []). a - hash_key key \<le> b - hash_key key"
    by (auto simp: next_node_def simp flip: omap_find_iff)
  with a(1) show ?thesis
    using get_shard_id_lt [OF assms] initialize_ring_not_Nil [OF assms]
    by (auto simp: new_router_def omap_find_iff)
qed

theorem router_total_witness: "get_shard_id (new_router 3) ''key'' < 3"
  using router_total [of 3 "''key''"] by simp

text \<open>
  C22: Consistent hashing: adding one shard moves a key only to the new shard. A key keeps the
  shard it had or goes to the shard with the new, highest index.
\<close>

theorem router_consistent:
  assumes "0 < n"
  shows "get_shard_id (new_router (Suc n)) key = get_shard_id (new_router n) key \<or>
    get_shard_id (new_router (Suc n)) key = n"
proof -
  let ?r = "initialize_ring n []" and ?h = "hash_key key"
  obtain a where a: "omap_find ?r a = Some (get_shard_id (new_router n) key)"
    "next_node (dom (omap_find ?r)) ?h a"
    by (rule get_shard_id_next [OF assms])
  obtain b where b: "omap_find (add_shard n ?r) b = Some (get_shard_id (new_router (Suc n)) key)"
    "next_node (dom (omap_find (add_shard n ?r))) ?h b"
    using get_shard_id_next [of "Suc n" key] unfolding initialize_ring_Suc by blast
  show ?thesis
  proof (cases "b \<in> nodes_of n")
    case True
    with b(1) show ?thesis by (simp add: add_shard_find)
  next
    case False
    then have fb: "omap_find ?r b = Some (get_shard_id (new_router (Suc n)) key)"
      using b(1) by (simp add: add_shard_find)
    with b(2) have "next_node (dom (omap_find ?r)) ?h b"
      by (auto simp: next_node_def add_shard_find dom_def)
    with a(2) have "a = b" by (rule next_node_unique)
    with a(1) fb show ?thesis by simp
  qed
qed

theorem router_consistent_witness:
  "get_shard_id (new_router 4) ''key'' \<in> {get_shard_id (new_router 3) ''key'', 3}"
  using router_consistent [of 3 "''key''"] by (simp add: numeral_eq_Suc)

end
