(* ===== verification/Itc_Channel.thy ===== *)
theory Itc_Channel
  imports Quine_Prelude
begin

text \<open>
  The inter-thread channel (\<open>src/core/itc_channel.hpp\<close>): a deque behind a mutex. Each operation
  holds the mutex for its whole access to the deque, so it is one atomic step on the channel.
  \<open>consume_all\<close> swaps the deque out under the mutex and calls the handler on the batch after
  releasing it: what the handler, or another thread, pushes meanwhile stays queued. The locale
  \<open>fifo\<close> is the contract of a channel, interpreted on the operations below.
\<close>

record 'a itc_channel =
  queue :: "'a list"

definition new_channel :: "'a itc_channel" where
  "new_channel = \<lparr>queue = []\<rparr>"

definition channel_push :: "'a \<Rightarrow> 'a itc_channel \<Rightarrow> 'a itc_channel" where
  "channel_push x ch = ch\<lparr>queue := queue ch @ [x]\<rparr>"

definition try_pop :: "'a itc_channel \<Rightarrow> 'a option \<times> 'a itc_channel" where
  "try_pop ch = (case queue ch of [] \<Rightarrow> (None, ch) | x # xs \<Rightarrow> (Some x, ch\<lparr>queue := xs\<rparr>))"

definition channel_empty :: "'a itc_channel \<Rightarrow> bool" where
  "channel_empty ch \<longleftrightarrow> queue ch = []"

text \<open>The loop over the batch; an exception of the handler ends it.\<close>

fun for_batch :: "('a \<Rightarrow> ('s, unit) st) \<Rightarrow> 'a list \<Rightarrow> ('s, unit) st" where
  "for_batch handler [] = ret ()"
| "for_batch handler (x # xs) = bindS (handler x) (\<lambda>_. for_batch handler xs)"

definition consume_all ::
    "('s \<Rightarrow> 'a itc_channel) \<Rightarrow> ('a itc_channel \<Rightarrow> 's \<Rightarrow> 's) \<Rightarrow> ('a \<Rightarrow> ('s, unit) st) \<Rightarrow> ('s, unit) st" where
  "consume_all sel upd handler =
     (\<lambda>s. for_batch handler (queue (sel s)) (upd ((sel s)\<lparr>queue := []\<rparr>) s))"

lemma for_batch_append:
  "for_batch h (xs @ ys) = bindS (for_batch h xs) (\<lambda>_. for_batch h ys)"
proof (induction xs)
  case Nil
  show ?case by (rule ext) simp
qed (simp add: bindS_assoc)

locale fifo =
  fixes contents :: "'q \<Rightarrow> 'a list" and empty :: 'q and push :: "'a \<Rightarrow> 'q \<Rightarrow> 'q"
    and pop :: "'q \<Rightarrow> 'a option \<times> 'q"
  assumes contents_empty: "contents empty = []"
    and contents_push: "contents (push x q) = contents q @ [x]"
    and pop_Nil: "contents q = [] \<Longrightarrow> pop q = (None, q)"
    and pop_Cons: "contents q = x # xs \<Longrightarrow> fst (pop q) = Some x \<and> contents (snd (pop q)) = xs"
begin

primrec pops :: "nat \<Rightarrow> 'q \<Rightarrow> 'a option list \<times> 'q" where
  "pops 0 q = ([], q)"
| "pops (Suc n) q = (case pop q of (x, q') \<Rightarrow> (case pops n q' of (xs, q'') \<Rightarrow> (x # xs, q'')))"

lemma contents_pushes: "contents (fold push xs q) = contents q @ xs"
  by (induction xs arbitrary: q) (simp_all add: contents_push)

lemma pops_contents:
  "fst (pops n q) = map Some (take n (contents q)) @ replicate (n - length (contents q)) None \<and>
   contents (snd (pops n q)) = drop n (contents q)"
proof (induction n arbitrary: q)
  case (Suc n)
  obtain y q' where p: "pop q = (y, q')" by (cases "pop q")
  show ?case
  proof (cases "contents q")
    case Nil
    with pop_Nil [OF Nil] p Suc [of q'] show ?thesis by (auto split: prod.splits)
  next
    case (Cons x xs)
    with pop_Cons [OF Cons] p Suc [of q'] show ?thesis by (auto split: prod.splits)
  qed
qed simp

end

interpretation itc: fifo queue new_channel channel_push try_pop
  by unfold_locales (auto simp: new_channel_def channel_push_def try_pop_def)

section \<open>Properties\<close>

primrec try_pops :: "nat \<Rightarrow> 'a itc_channel \<Rightarrow> 'a option list \<times> 'a itc_channel" where
  "try_pops 0 ch = ([], ch)"
| "try_pops (Suc n) ch =
     (case try_pop ch of (x, ch') \<Rightarrow> (case try_pops n ch' of (xs, ch'') \<Rightarrow> (x # xs, ch'')))"

lemma try_pops_eq: "try_pops n ch = itc.pops n ch"
  by (induction n arbitrary: ch) simp_all

text \<open>
  The channel is first in, first out, and loses and duplicates nothing: after pushing a
  list of items on a fresh channel, \<open>n\<close> calls of \<open>try_pop\<close> return the first \<open>n\<close> of them in push
  order, then nullopt when there are fewer, and leave exactly the others.
\<close>

theorem channel_fifo:
  "fst (try_pops n (fold channel_push xs new_channel)) =
     map Some (take n xs) @ replicate (n - length xs) None \<and>
   queue (snd (try_pops n (fold channel_push xs new_channel))) = drop n xs"
  using itc.pops_contents [of n "fold channel_push xs new_channel"]
  by (simp add: try_pops_eq itc.contents_pushes itc.contents_empty)

text \<open>
  C32: A handler that pushes on the channel it is consuming is not starved and does not loop:
  \<open>consume_all\<close> calls it exactly once on each item that was queued at the start, in order, and
  the items the handler pushes form the next batch.
\<close>

theorem consume_all_batch:
  fixes ch :: "'a itc_channel"
  shows "consume_all snd (\<lambda>c (seen, _). (seen, c))
      (\<lambda>x. modifyS (\<lambda>(seen, c). (seen @ [x], fold channel_push (f x) c))) ([], ch) =
    (Inr (), (queue ch, ch\<lparr>queue := concat (map f (queue ch))\<rparr>))"
proof -
  have "for_batch (\<lambda>x. modifyS (\<lambda>(seen, c). (seen @ [x], fold channel_push (f x) c))) xs (ys, c) =
      (Inr (), (ys @ xs, c\<lparr>queue := queue c @ concat (map f xs)\<rparr>))"
    for xs ys :: "'a list" and c :: "'a itc_channel"
  proof (induction xs arbitrary: ys c)
    case (Cons x xs)
    have "fold channel_push zs c = c\<lparr>queue := queue c @ zs\<rparr>" for zs
      by (induction zs arbitrary: c) (simp_all add: channel_push_def)
    with Cons show ?case by simp
  qed simp
  then show ?thesis by (simp add: consume_all_def)
qed

end
