(* ===== verification/Topology.thy ===== *)
theory Topology
  imports Shard Router Itc_Channel
begin

text \<open>
  The topology (\<open>src/core/topology.hpp\<close>): the router and, for every core, its shard, its channel
  and the descriptor its event loop waits on; and the messages between cores
  (\<open>src/core/message.hpp\<close>). \<open>fd_writes\<close> is the trace of the \<open>write\<close> calls that wake a core up.

  The invariant says that the per-core vectors have one entry per core, that every shard is
  well-formed, and that a shard holds only keys the router sends to it. The database of the
  node is the union of the shards, each key read from the shard that owns it.
\<close>

section \<open>State\<close>

datatype message_type = REQUEST | RESPONSE

text \<open>\<open>success\<close> is None while the member is uninitialised.\<close>

record message =
  mtype :: message_type
  origin_core_id :: nat
  conn_id :: "32 word"
  mkey :: string
  margs :: "string list"
  payload :: string
  success :: "bool option"

record topology =
  router :: router
  num_cores :: nat
  shards :: "shard list"
  channels :: "message itc_channel list"
  notify_fds :: "int list"
  registered_count :: nat
  fd_writes :: "int list"

definition new_topology :: "nat \<Rightarrow> topology" where
  "new_topology n =
     \<lparr>router = new_router n, num_cores = n, shards = replicate n new_shard,
      channels = replicate n new_channel, notify_fds = replicate n (- 1),
      registered_count = 0, fd_writes = []\<rparr>"

section \<open>Operations\<close>

definition register_notify_fd :: "nat \<Rightarrow> int \<Rightarrow> (topology, unit) st" where
  "register_notify_fd core fd = (\<lambda>t.
     if length (notify_fds t) \<le> core then throw Out_of_range t
     else modifyS (\<lambda>t. t\<lparr>notify_fds := (notify_fds t)[core := fd],
                        registered_count := registered_count t + 1\<rparr>) t)"

text \<open>The condition on which \<open>wait_for_all_cores\<close> stops spinning.\<close>

definition all_cores_registered :: "topology \<Rightarrow> bool" where
  "all_cores_registered t \<longleftrightarrow> \<not> registered_count t < num_cores t"

definition notify_core :: "nat \<Rightarrow> (topology, unit) st" where
  "notify_core core = (\<lambda>t.
     if length (notify_fds t) \<le> core then ret () t
     else if 0 \<le> notify_fds t ! core
       then modifyS (\<lambda>t. t\<lparr>fd_writes := fd_writes t @ [notify_fds t ! core]\<rparr>) t
     else ret () t)"

definition shard_count :: "topology \<Rightarrow> nat" where
  "shard_count t = num_cores t"

text \<open>\<open>get_shard(core_id)\<close>, with the operation the caller performs on the shard it points to.\<close>

definition on_shard :: "nat \<Rightarrow> (shard, 'a) st \<Rightarrow> (topology, 'a) st" where
  "on_shard core m = (\<lambda>t.
     if length (shards t) \<le> core then throw Out_of_range t
     else zoom (\<lambda>t. shards t ! core) (\<lambda>s t. t\<lparr>shards := (shards t)[core := s]\<rparr>) m t)"

text \<open>\<open>get_channel(core_id)->push(msg)\<close>.\<close>

definition push_channel :: "nat \<Rightarrow> message \<Rightarrow> (topology, unit) st" where
  "push_channel core msg = (\<lambda>t.
     if length (channels t) \<le> core then throw Out_of_range t
     else modifyS (\<lambda>t. t\<lparr>channels := (channels t)[core := channel_push msg (channels t ! core)]\<rparr>) t)"

definition get_target_core :: "topology \<Rightarrow> string \<Rightarrow> nat" where
  "get_target_core t k = get_shard_id (router t) k"

definition is_local :: "topology \<Rightarrow> nat \<Rightarrow> string \<Rightarrow> bool" where
  "is_local t core k \<longleftrightarrow> get_shard_id (router t) k = core"

section \<open>Invariant and abstraction\<close>

definition topo_inv :: "(string \<Rightarrow> nat) \<Rightarrow> topology \<Rightarrow> bool" where
  "topo_inv hs t \<longleftrightarrow>
     0 < num_cores t \<and> router t = new_router (num_cores t) \<and>
     length (shards t) = num_cores t \<and> length (channels t) = num_cores t \<and>
     length (notify_fds t) = num_cores t \<and>
     (\<forall>c < num_cores t. shard_inv hs (shards t ! c) \<and>
        (\<forall>k. shard_abs (shards t ! c) k \<noteq> None \<longrightarrow> get_target_core t k = c))"

definition topo_db :: "topology \<Rightarrow> db" where
  "topo_db t = (\<lambda>k. shard_abs (shards t ! get_target_core t k) k)"

lemma get_target_core_update [simp]:
  "get_target_core (t\<lparr>shards := a\<rparr>) = get_target_core t"
  "get_target_core (t\<lparr>channels := b\<rparr>) = get_target_core t"
  "get_target_core (t\<lparr>fd_writes := d\<rparr>) = get_target_core t"
  by (simp_all add: get_target_core_def fun_eq_iff)

lemma topo_inv_update [simp]:
  "topo_inv hs (t\<lparr>fd_writes := d\<rparr>) = topo_inv hs t"
  "length b = length (channels t) \<Longrightarrow> topo_inv hs (t\<lparr>channels := b\<rparr>) = topo_inv hs t"
  by (simp_all add: topo_inv_def)

lemma topo_db_update [simp]:
  "topo_db (t\<lparr>fd_writes := d\<rparr>) = topo_db t"
  "topo_db (t\<lparr>channels := b\<rparr>) = topo_db t"
  by (simp_all add: topo_db_def)

lemma target_in_range [simp]: "topo_inv hs t \<Longrightarrow> get_target_core t k < num_cores t"
  by (simp add: topo_inv_def get_target_core_def get_shard_id_lt)

lemma topo_shard_inv: "topo_inv hs t \<Longrightarrow> c < num_cores t \<Longrightarrow> shard_inv hs (shards t ! c)"
  by (simp add: topo_inv_def)

lemma topo_placement:
  "topo_inv hs t \<Longrightarrow> c < num_cores t \<Longrightarrow> shard_abs (shards t ! c) k \<noteq> None \<Longrightarrow> get_target_core t k = c"
  by (simp add: topo_inv_def)

lemma topo_inv_new: "0 < n \<Longrightarrow> topo_inv hs (new_topology n)"
  by (simp add: topo_inv_def new_topology_def shard_inv_new del: shard_abs_None)

lemma topo_db_new: "0 < n \<Longrightarrow> topo_db (new_topology n) = Map.empty"
  by (simp add: topo_db_def new_topology_def get_target_core_def get_shard_id_lt)

text \<open>
  An operation on the shard of a core that changes no key but \<open>k\<close>, one the core owns, changes
  the database the way it changes the shard.
\<close>

lemma topo_shard_update:
  assumes inv: "topo_inv hs t" and c: "c = get_target_core t k"
    and sh: "shard_inv hs sh'" and same: "\<And>j. j \<noteq> k \<Longrightarrow> shard_abs sh' j = shard_abs (shards t ! c) j"
  shows "topo_inv hs (t\<lparr>shards := (shards t)[c := sh']\<rparr>)"
    and "topo_db (t\<lparr>shards := (shards t)[c := sh']\<rparr>) = (topo_db t)(k := shard_abs sh' k)"
proof -
  let ?t = "t\<lparr>shards := (shards t)[c := sh']\<rparr>"
  have c': "c < num_cores t" "length (shards t) = num_cores t"
    using inv c by (simp_all add: topo_inv_def get_target_core_def get_shard_id_lt)
  have pl: "get_target_core t j = c" if "shard_abs sh' j \<noteq> None" for j
    using that c same [of j] topo_placement [OF inv c'(1), of j] by (cases "j = k") auto
  show "topo_inv hs ?t"
    using inv sh pl c' by (auto simp: topo_inv_def nth_list_update simp del: shard_abs_None)
  show "topo_db ?t = (topo_db t)(k := shard_abs sh' k)"
  proof
    fix j
    show "topo_db ?t j = ((topo_db t)(k := shard_abs sh' k)) j"
      using c c' same [of j] by (cases "get_target_core t j = c") (auto simp: topo_db_def)
  qed
qed

lemma on_shard_apply:
  "topo_inv hs t \<Longrightarrow> c < num_cores t \<Longrightarrow> m (shards t ! c) = (r, sh') \<Longrightarrow>
     on_shard c m t = (r, t\<lparr>shards := (shards t)[c := sh']\<rparr>)"
  by (simp add: on_shard_def topo_inv_def)

definition channel_of :: "topology \<Rightarrow> nat \<Rightarrow> message list" where
  "channel_of t c = queue (channels t ! c)"

lemma push_channel_apply:
  assumes "topo_inv hs t" "c < num_cores t"
  obtains t' where "push_channel c msg t = (Inr (), t')" "topo_inv hs t'" "topo_db t' = topo_db t"
    "channel_of t' = (channel_of t)(c := channel_of t c @ [msg])" "fd_writes t' = fd_writes t"
    "router t' = router t" "num_cores t' = num_cores t" "notify_fds t' = notify_fds t" "shards t' = shards t"
proof -
  let ?t = "t\<lparr>channels := (channels t)[c := channel_push msg (channels t ! c)]\<rparr>"
  have "channel_of ?t = (channel_of t)(c := channel_of t c @ [msg])"
  proof
    fix d
    show "channel_of ?t d = ((channel_of t)(c := channel_of t c @ [msg])) d"
      using assms by (cases "d = c") (simp_all add: channel_of_def channel_push_def topo_inv_def)
  qed
  moreover have "push_channel c msg t = (Inr (), ?t)"
    using assms by (simp add: push_channel_def topo_inv_def)
  ultimately show ?thesis using assms that [of ?t] by simp
qed

lemma notify_core_apply:
  assumes "topo_inv hs t"
  obtains t' where "notify_core c t = (Inr (), t')" "topo_inv hs t'" "topo_db t' = topo_db t"
    "channel_of t' = channel_of t" "router t' = router t" "num_cores t' = num_cores t"
    "notify_fds t' = notify_fds t" "shards t' = shards t"
    "fd_writes t' = fd_writes t @ (if c < num_cores t \<and> 0 \<le> notify_fds t ! c then [notify_fds t ! c] else [])"
proof (cases "c < num_cores t \<and> 0 \<le> notify_fds t ! c")
  case True
  let ?t = "t\<lparr>fd_writes := fd_writes t @ [notify_fds t ! c]\<rparr>"
  have "notify_core c t = (Inr (), ?t)" using assms True by (simp add: notify_core_def topo_inv_def)
  moreover have "channel_of ?t = channel_of t" by (simp add: channel_of_def fun_eq_iff)
  ultimately show ?thesis using assms True that [of ?t] by simp
next
  case False
  then have "notify_core c t = (Inr (), t)" using assms by (auto simp: notify_core_def topo_inv_def)
  with assms False that [of t] show ?thesis by auto
qed

end
