(* ===== verification/Rdb.thy ===== *)
theory Rdb
  imports Byte_Stream Topology
begin

text \<open>
  Persistence (\<open>src/persistence/rdb.hpp\<close>, \<open>rdb_manager.hpp\<close>): \<open>save\<close> writes a header, every live
  entry of every shard and an end marker; \<open>load\<close> reads them back and puts each key on the shard
  the router gives it. Writing to a file that could be opened is taken to succeed, as the code
  does.
\<close>

section \<open>File format\<close>

definition RDB_MAGIC :: string where "RDB_MAGIC = ''QUINEDB''"

definition RDB_VERSION :: nat where "RDB_VERSION = 1"

datatype rdb_type = R_STRING | R_LIST | R_SET | R_HASH | R_ZSET | R_EXPIRE_MS | R_END_OF_FILE

fun rdb_code :: "rdb_type \<Rightarrow> nat" where
  "rdb_code R_STRING = 0"
| "rdb_code R_LIST = 1"
| "rdb_code R_SET = 2"
| "rdb_code R_HASH = 3"
| "rdb_code R_ZSET = 4"
| "rdb_code R_EXPIRE_MS = 252"
| "rdb_code R_END_OF_FILE = 255"

section \<open>Writing\<close>

definition write_type :: "rdb_type \<Rightarrow> string" where
  "write_type ty = le_bytes 1 (rdb_code ty)"

text \<open>\<open>uint32_t count = size()\<close>: the size modulo 2^32.\<close>

definition write_count :: "nat \<Rightarrow> string" where
  "write_count n = le_bytes 4 (n mod 2 ^ 32)"

definition write_string :: "string \<Rightarrow> string" where
  "write_string s = write_count (length s) @ take (length s mod 2 ^ 32) s"

definition write_score :: "double \<Rightarrow> string" where
  "write_score d = le_bytes 8 (unat d)"

fun write_entry :: "string \<Rightarrow> cvalue \<Rightarrow> string" where
  "write_entry key (VString s) = write_type R_STRING @ write_string key @ write_string s"
| "write_entry key (VList xs) =
     write_type R_LIST @ write_string key @ write_count (length xs) @ concat (map write_string xs)"
| "write_entry key (VSet xs) =
     write_type R_SET @ write_string key @ write_count (length xs) @ concat (map write_string xs)"
| "write_entry key (VHash m) =
     write_type R_HASH @ write_string key @ write_count (length m) @
     concat (map (\<lambda>(f, v). write_string f @ write_string v) m)"
| "write_entry key (VZSet z) =
     write_type R_ZSET @ write_string key @ write_count (zset_size z) @
     concat (map (\<lambda>e. write_score (score e) @ write_string (member e)) (tree z))"
| "write_entry key Monostate = []"

definition write_expiry :: "int \<Rightarrow> string" where
  "write_expiry t = write_type R_EXPIRE_MS @ le_bytes 8 (nat (t mod 2 ^ 64))"

definition save_entry :: "shard \<Rightarrow> string \<times> cvalue \<Rightarrow> string" where
  "save_entry sh = (\<lambda>(key, val).
     (if get_expiry key sh \<noteq> - 1 then write_expiry (get_expiry key sh) else []) @ write_entry key val)"

definition save_shard :: "shard \<Rightarrow> string" where
  "save_shard sh = concat (map (save_entry sh) (shard_for_each sh))"

text \<open>\<open>RdbManager::save\<close>: the bytes of the file. \<open>get_shard(i)\<close> throws for an index out of range.\<close>

definition rdb_save :: "topology \<Rightarrow> fault + string" where
  "rdb_save t =
     (if length (shards t) < shard_count t then Inl Out_of_range
      else Inr (RDB_MAGIC @ le_bytes 4 RDB_VERSION @
        concat (map (\<lambda>i. save_shard (shards t ! i)) [0 ..< shard_count t]) @
        write_type R_END_OF_FILE))"

section \<open>Reading\<close>

definition read_string :: "(istream, string) st" where
  "read_string = bindS (read_int 4) read_buffer"

primrec read_items :: "(istream, 'a) st \<Rightarrow> ('a \<Rightarrow> 'b \<Rightarrow> fault + 'b) \<Rightarrow> nat \<Rightarrow> 'b \<Rightarrow> (istream, 'b) st" where
  "read_items item add 0 acc = ret acc"
| "read_items item add (Suc n) acc =
     bindS item (\<lambda>x. case add x acc of Inl f \<Rightarrow> throw f | Inr acc' \<Rightarrow> read_items item add n acc')"

definition read_list :: "(istream, string list) st" where
  "read_list = bindS (read_int 4) (\<lambda>count. read_items read_string (\<lambda>x xs. Inr (xs @ [x])) count [])"

definition read_set :: "(istream, string list) st" where
  "read_set =
     bindS (read_int 4) (\<lambda>count. read_items read_string (\<lambda>x xs. Inr (fst (oset_insert (<) x xs))) count [])"

definition read_pair :: "(istream, string \<times> string) st" where
  "read_pair = bindS read_string (\<lambda>f. bindS read_string (\<lambda>v. ret (f, v)))"

definition read_hash :: "(istream, (string \<times> string) list) st" where
  "read_hash =
     bindS (read_int 4) (\<lambda>count. read_items read_pair (\<lambda>(f, v) m. Inr (omap_put m f v)) count [])"

definition read_zset_entry :: "(istream, zset_entry) st" where
  "read_zset_entry =
     bindS (read_int 8) (\<lambda>d. bindS read_string (\<lambda>m. ret \<lparr>score = of_nat d, member = m\<rparr>))"

text \<open>Inserting a NaN breaks the order of the tree.\<close>

definition insert_loaded :: "zset_entry \<Rightarrow> zset \<Rightarrow> fault + zset" where
  "insert_loaded e z = (if is_nan (score e) then Inl Undefined_behaviour else Inr (zset_insert e z))"

definition read_zset :: "(istream, zset) st" where
  "read_zset = bindS (read_int 4) (\<lambda>count. read_items read_zset_entry insert_loaded count empty_zset)"

text \<open>The switch on the value type; None is its default branch.\<close>

definition read_value :: "nat \<Rightarrow> (istream, cvalue option) st" where
  "read_value ty =
     (if ty = rdb_code R_STRING then bindS read_string (\<lambda>x. ret (Some (VString x)))
      else if ty = rdb_code R_LIST then bindS read_list (\<lambda>x. ret (Some (VList x)))
      else if ty = rdb_code R_SET then bindS read_set (\<lambda>x. ret (Some (VSet x)))
      else if ty = rdb_code R_HASH then bindS read_hash (\<lambda>x. ret (Some (VHash x)))
      else if ty = rdb_code R_ZSET then bindS read_zset (\<lambda>x. ret (Some (VZSet x)))
      else ret None)"

text \<open>
  What one iteration of the loop reads: a key, its value and the expiration time of an
  \<open>EXPIRE_MS\<close> entry. As in the code, a string is read before the switch in every case. In the
  \<open>EXPIRE_MS\<close> branch a failed read of the time is not noticed at once; the stream is then in its
  fail state and the next use of a read variable, the length of the key, is the undefined one.
\<close>

definition as_signed64 :: "nat \<Rightarrow> int" where
  "as_signed64 n = (if n < 2 ^ 63 then int n else int n - 2 ^ 64)"

definition read_record :: "nat \<Rightarrow> (istream, (string \<times> cvalue \<times> int option) option) st" where
  "read_record ty =
     bindS read_string (\<lambda>key.
       if ty = rdb_code R_EXPIRE_MS then
         bindS (read_int 8) (\<lambda>expiry.
         bindS (read_int 1) (\<lambda>ty.
         bindS read_string (\<lambda>key.
         bindS (read_value ty) (\<lambda>val.
           ret (map_option (\<lambda>v. (key, v, Some (as_signed64 expiry))) val)))))
       else
         bindS (read_value ty) (\<lambda>val. ret (map_option (\<lambda>v. (key, v, None)) val)))"

text \<open>Inserting it into the shard that owns the key.\<close>

definition load_record :: "(string \<Rightarrow> nat) \<Rightarrow> string \<times> cvalue \<times> int option \<Rightarrow> (topology, unit) st" where
  "load_record hs = (\<lambda>(key, val, expiry) t.
     on_shard (get_target_core t key)
       (bindS (shard_set hs key val) (\<lambda>_.
          case expiry of None \<Rightarrow> ret () | Some e \<Rightarrow> set_expiry key e)) t)"

lemma shrinks_read_string [shrinks_intros]: "shrinks read_string"
  unfolding read_string_def by (intro shrinks_intros)

lemma shrinks_read_items [shrinks_intros]: "shrinks item \<Longrightarrow> shrinks (read_items item add n acc)"
proof (induction n arbitrary: acc)
  case (Suc n)
  have "shrinks (case add x acc of Inl f \<Rightarrow> throw f | Inr acc' \<Rightarrow> read_items item add n acc')" for x
    using Suc by (cases "add x acc") (simp_all add: shrinks_throw)
  with Suc.prems show ?case by (simp add: shrinks_bind)
qed (simp add: shrinks_ret)

lemma shrinks_read_value [shrinks_intros]: "shrinks (read_value ty)"
  unfolding read_value_def read_list_def read_set_def read_hash_def read_zset_def read_pair_def
    read_zset_entry_def
  by (simp add: shrinks_intros)

lemma shrinks_read_record [shrinks_intros]: "shrinks (read_record ty)"
  unfolding read_record_def by (simp add: shrinks_intros)

lemma read_int_1_less:
  assumes "\<not> at_eof ifs" "read_int 1 ifs = (Inr ty, ifs1)"
  shows "length (unread ifs1) < length (unread ifs)"
proof -
  obtain c cs where "unread ifs = c # cs" using assms(1) by (cases "unread ifs") (auto simp: at_eof_def)
  with assms show ?thesis by (auto simp: read_int_def read_bytes_def at_eof_def)
qed

text \<open>The loop of \<open>load\<close>; every iteration consumes at least the type byte.\<close>

function load_loop :: "(string \<Rightarrow> nat) \<Rightarrow> istream \<Rightarrow> (topology, bool) st" where
  "load_loop hs ifs t =
     (if at_eof ifs then (Inr True, t)
      else
        (case read_int 1 ifs of
           (Inl _, ifs1) \<Rightarrow> (Inr True, t)
         | (Inr ty, ifs1) \<Rightarrow>
             if ty = rdb_code R_END_OF_FILE then (Inr True, t)
             else
               (case read_record ty ifs1 of
                  (Inl f, ifs2) \<Rightarrow> (Inl f, t)
                | (Inr None, ifs2) \<Rightarrow> (Inr False, t)
                | (Inr (Some r), ifs2) \<Rightarrow>
                    (case load_record hs r t of
                       (Inl f, t') \<Rightarrow> (Inl f, t')
                     | (Inr _, t') \<Rightarrow> load_loop hs ifs2 t'))))"
  by pat_completeness auto

termination
proof (relation "measure (\<lambda>(hs, ifs, t). length (unread ifs))")
  fix hs ifs t r1 ifs1 ty r2 ifs2 ro r r3 t' u
  assume ne: "\<not> at_eof ifs" and ty: "(r1, ifs1) = read_int 1 ifs" "r1 = Inr ty"
    and r: "(r2, ifs2) = read_record ty ifs1"
  have "read_int 1 ifs = (Inr ty, ifs1)" using ty(1) [symmetric] ty(2) by simp
  with ne have "length (unread ifs1) < length (unread ifs)" by (rule read_int_1_less)
  moreover have "length (unread ifs2) \<le> length (unread ifs1)"
    by (rule shrinksD [OF shrinks_read_record r [symmetric]])
  ultimately show "((hs, ifs2, t'), (hs, ifs, t)) \<in> measure (\<lambda>(hs, ifs, t). length (unread ifs))"
    by simp
qed simp

declare load_loop.simps [simp del]

text \<open>\<open>std::string(magic)\<close> stops at the first zero byte.\<close>

definition c_string :: "string \<Rightarrow> string" where
  "c_string s = takeWhile (\<lambda>c. c \<noteq> CHR 0x00) s"

text \<open>\<open>RdbManager::load\<close> of a file, None when it cannot be opened.\<close>

definition rdb_load :: "(string \<Rightarrow> nat) \<Rightarrow> string option \<Rightarrow> (topology, bool) st" where
  "rdb_load hs file = (\<lambda>t.
     case file of
       None \<Rightarrow> (Inr False, t)
     | Some bytes \<Rightarrow>
         (case read_buffer 7 (open_istream bytes) of
            (Inl f, ifs1) \<Rightarrow> (Inl f, t)
          | (Inr magic, ifs1) \<Rightarrow>
              if c_string magic \<noteq> RDB_MAGIC then (Inr False, t)
              else
                (case read_int 4 ifs1 of
                   (Inl f, ifs2) \<Rightarrow> (Inl f, t)
                 | (Inr version, ifs2) \<Rightarrow>
                     if version \<noteq> RDB_VERSION then (Inr False, t) else load_loop hs ifs2 t)))"

end
