(* ===== verification/Rdb_Roundtrip.thy ===== *)
theory Rdb_Roundtrip
  imports Rdb
begin

text \<open>
  What a dump preserves. Without expiration times, loading a saved dump into an empty node
  restores the database, also when the number of cores has changed. With them it does not:
  \<open>load\<close> reads a string before it looks at the \<open>EXPIRE_MS\<close> marker, so it takes the low half of
  the expiration time for the length of a key.
\<close>

section \<open>Decoders invert encoders\<close>

definition fits :: "string \<Rightarrow> bool" where
  "fits s \<longleftrightarrow> length s < 2 ^ 32"

fun value_fits :: "cvalue \<Rightarrow> bool" where
  "value_fits (VString s) = fits s"
| "value_fits (VList xs) = (length xs < 2 ^ 32 \<and> (\<forall>x \<in> set xs. fits x))"
| "value_fits (VSet xs) = (length xs < 2 ^ 32 \<and> (\<forall>x \<in> set xs. fits x))"
| "value_fits (VHash m) = (length m < 2 ^ 32 \<and> (\<forall>(f, v) \<in> set m. fits f \<and> fits v))"
| "value_fits (VZSet z) = (zset_size z < 2 ^ 32 \<and> (\<forall>e \<in> set (tree z). fits (member e)))"
| "value_fits Monostate = True"

lemma reads_count: "n < 2 ^ 32 \<Longrightarrow> reads (read_int 4) (write_count n) n"
  using reads_int [of n 4] by (simp add: write_count_def)

lemma reads_string: "fits s \<Longrightarrow> reads read_string (write_string s) s"
  unfolding read_string_def write_string_def fits_def
  by (intro reads_bind [of _ _ "length s"] reads_count reads_buffer) (simp_all add: reads_def)

primrec foldE :: "('a \<Rightarrow> 'b \<Rightarrow> fault + 'b) \<Rightarrow> 'a list \<Rightarrow> 'b \<Rightarrow> fault + 'b" where
  "foldE add [] acc = Inr acc"
| "foldE add (x # xs) acc = (case add x acc of Inl f \<Rightarrow> Inl f | Inr acc' \<Rightarrow> foldE add xs acc')"

lemma reads_items:
  assumes "\<And>x. x \<in> set xs \<Longrightarrow> reads item (enc x) x" "foldE add xs acc = Inr r"
  shows "reads (read_items item add (length xs) acc) (concat (map enc xs)) r"
  using assms
proof (induction xs arbitrary: acc)
  case Nil
  then show ?case by (simp add: reads_def)
next
  case (Cons x xs)
  obtain acc' where "add x acc = Inr acc'" "foldE add xs acc' = Inr r"
    using Cons.prems(2) by (cases "add x acc") auto
  with Cons show ?case by (auto intro!: reads_bind)
qed

lemma reads_counted:
  assumes "length xs < 2 ^ 32" "\<And>x. x \<in> set xs \<Longrightarrow> reads item (enc x) x" "foldE add xs acc = Inr r"
  shows "reads (bindS (read_int 4) (\<lambda>n. read_items item add n acc))
    (write_count (length xs) @ concat (map enc xs)) r"
proof (rule reads_bind)
  show "reads (read_int 4) (write_count (length xs)) (length xs)" using assms(1) by (rule reads_count)
  show "reads (read_items item add (length xs) acc) (concat (map enc xs)) r"
    using assms(2,3) by (rule reads_items)
qed

lemma foldE_Inr: "(\<And>x acc. add x acc = Inr (f x acc)) \<Longrightarrow> foldE add xs acc = Inr (fold f xs acc)"
  by (induction xs arbitrary: acc) simp_all

text \<open>Inserting the elements of an ordered container in order rebuilds it.\<close>

lemma oset_insert_last:
  "\<forall>y \<in> set xs. lt y x \<and> \<not> lt x y \<Longrightarrow> oset_insert lt x xs = (xs @ [x], True)"
  by (induction xs) auto

lemma omap_put_last: "\<forall>k' \<in> fst ` set m. k' < k \<Longrightarrow> omap_put m k v = m @ [(k, v)]"
  by (induction m k v rule: omap_put.induct) auto

lemma fold_push: "fold (\<lambda>x xs. xs @ [x]) ys xs = xs @ ys"
  by (induction ys arbitrary: xs) simp_all

lemma fold_oset_insert:
  fixes ys :: "string list"
  assumes "sorted_wrt (<) (xs @ ys)"
  shows "fold (\<lambda>x xs. fst (oset_insert (<) x xs)) ys xs = xs @ ys"
  using assms
proof (induction ys arbitrary: xs)
  case (Cons y ys)
  have "\<forall>x \<in> set xs. x < y \<and> \<not> y < x" using Cons.prems by (auto simp: sorted_wrt_append)
  then have "oset_insert (<) y xs = (xs @ [y], True)" by (rule oset_insert_last)
  with Cons show ?case by simp
qed simp

lemma fold_omap_put:
  assumes "omap_sorted (m @ kvs)"
  shows "fold (\<lambda>(f, v) m. omap_put m f v) kvs m = m @ kvs"
  using assms
proof (induction kvs arbitrary: m)
  case (Cons kv kvs)
  obtain k v where kv: "kv = (k, v)" by (cases kv)
  have "\<forall>k' \<in> fst ` set m. k' < k" using Cons.prems by (auto simp: omap_sorted_def sorted_wrt_append kv)
  then have "omap_put m k v = m @ [(k, v)]" by (rule omap_put_last)
  with Cons show ?case by (simp add: kv)
qed simp

lemma zset_insert_last:
  assumes "\<forall>y \<in> set (tree z). entry_lt y e \<and> \<not> entry_lt e y" "dict z (member e) = None"
  shows "zset_insert e z = \<lparr>tree = tree z @ [e], dict = (dict z)(member e \<mapsto> score e)\<rparr>"
  using assms oset_insert_last [of "tree z" entry_lt e] by (simp add: zset_insert_def)

lemma foldE_insert_loaded:
  assumes "sorted_wrt entry_lt (tree z @ es)" "\<forall>e \<in> set (tree z @ es). entry_ok e"
    "\<forall>e \<in> set es. dict z (member e) = None" "distinct (map member es)"
  shows "foldE insert_loaded es z =
    Inr \<lparr>tree = tree z @ es, dict = dict z ++ map_of (map (\<lambda>e. (member e, score e)) es)\<rparr>"
  using assms
proof (induction es arbitrary: z)
  case (Cons e es)
  have "\<forall>y \<in> set (tree z). entry_lt y e \<and> \<not> entry_lt e y"
    using Cons.prems(1,2) zs.trans [of e _ e] zs.irrefl [of e] by (auto simp: sorted_wrt_append)
  moreover have "dict z (member e) = None" using Cons.prems(3) by simp
  ultimately have ins: "insert_loaded e z = Inr \<lparr>tree = tree z @ [e], dict = (dict z)(member e \<mapsto> score e)\<rparr>"
    using Cons.prems(2) by (simp add: insert_loaded_def zset_insert_last entry_ok_def)
  let ?z = "\<lparr>tree = tree z @ [e], dict = (dict z)(member e \<mapsto> score e)\<rparr>"
  have ih: "foldE insert_loaded es ?z =
      Inr \<lparr>tree = tree ?z @ es, dict = dict ?z ++ map_of (map (\<lambda>e. (member e, score e)) es)\<rparr>"
  proof (rule Cons.IH)
    have "\<forall>a \<in> set es. member a \<noteq> member e"
      using Cons.prems(4) by (simp add: image_iff) metis
    then show "\<forall>a \<in> set es. dict ?z (member a) = None" using Cons.prems(3) by simp
  qed (use Cons.prems in auto)
  have d: "(dict z)(member e \<mapsto> score e) ++ map_of (map (\<lambda>e. (member e, score e)) es) =
      dict z ++ map_of (map (\<lambda>e. (member e, score e)) (e # es))"
  proof -
    have "member e \<notin> fst ` set (map (\<lambda>e. (member e, score e)) es)" using Cons.prems(4) by auto
    then have "map_of (map (\<lambda>e. (member e, score e)) es) (member e) = None" by (simp add: map_of_eq_None_iff)
    then show ?thesis by (auto simp: fun_eq_iff map_add_def split: option.splits)
  qed
  show ?case
    using ih unfolding foldE.simps ins sum.case
    by (simp only: zset.simps d append_assoc append_Cons append_Nil)
qed simp

lemma zset_members_distinct: "zset_inv z \<Longrightarrow> distinct (map member (tree z))"
proof -
  assume inv: "zset_inv z"
  have "distinct (tree z)" using zs.sorted_distinct zset_invD(1,2) [OF inv] by blast
  moreover have "inj_on member (set (tree z))" by (rule inj_onI) (rule zset_member_unique [OF inv])
  ultimately show ?thesis by (simp add: distinct_map)
qed

lemma foldE_zset:
  assumes inv: "zset_inv z"
  shows "foldE insert_loaded (tree z) empty_zset = Inr z"
proof -
  have "map_of (map (\<lambda>e. (member e, score e)) (tree z)) = dict z"
  proof
    fix m
    have "distinct (map fst (map (\<lambda>e. (member e, score e)) (tree z)))"
      using zset_members_distinct [OF inv] by (simp add: comp_def)
    then have "map_of (map (\<lambda>e. (member e, score e)) (tree z)) m = Some s \<longleftrightarrow> dict z m = Some s" for s
      using zset_invD(3) [OF inv, of m s] by (force simp: map_of_eq_Some_iff)
    then show "map_of (map (\<lambda>e. (member e, score e)) (tree z)) m = dict z m"
      by (metis not_Some_eq)
  qed
  then show ?thesis
    using foldE_insert_loaded [of empty_zset "tree z"] zset_invD(1,2) [OF inv] zset_members_distinct [OF inv]
    by (simp add: empty_zset_def)
qed

section \<open>Entries\<close>

fun entry_type :: "cvalue \<Rightarrow> rdb_type" where
  "entry_type (VString _) = R_STRING"
| "entry_type (VList _) = R_LIST"
| "entry_type (VSet _) = R_SET"
| "entry_type (VHash _) = R_HASH"
| "entry_type (VZSet _) = R_ZSET"
| "entry_type Monostate = R_END_OF_FILE"

fun entry_payload :: "cvalue \<Rightarrow> string" where
  "entry_payload (VString s) = write_string s"
| "entry_payload (VList xs) = write_count (length xs) @ concat (map write_string xs)"
| "entry_payload (VSet xs) = write_count (length xs) @ concat (map write_string xs)"
| "entry_payload (VHash m) =
     write_count (length m) @ concat (map (\<lambda>(f, v). write_string f @ write_string v) m)"
| "entry_payload (VZSet z) =
     write_count (length (tree z)) @ concat (map (\<lambda>e. write_score (score e) @ write_string (member e)) (tree z))"
| "entry_payload Monostate = []"

lemma write_entry_split:
  "v \<noteq> Monostate \<Longrightarrow> write_entry k v = write_type (entry_type v) @ write_string k @ entry_payload v"
  by (cases v) (simp_all add: zset_size_def)

lemma entry_type_code:
  "v \<noteq> Monostate \<Longrightarrow> rdb_code (entry_type v) < 5"
  by (cases v) simp_all

lemma reads_pair:
  "fits f \<Longrightarrow> fits v \<Longrightarrow> reads read_pair (write_string f @ write_string v) (f, v)"
  unfolding read_pair_def
  using reads_string [of f] reads_string [of v] by (simp add: reads_def)

lemma reads_zset_entry:
  assumes "fits (member e)"
  shows "reads read_zset_entry (write_score (score e) @ write_string (member e)) e"
proof -
  have "reads (read_int 8) (write_score (score e)) (unat (score e))"
    unfolding write_score_def by (rule reads_int) (use unsigned_less [where ?'a = nat, of "score e"] in simp)
  with reads_string [OF assms] show ?thesis unfolding read_zset_entry_def by (simp add: reads_def)
qed

lemma reads_map_Some: "reads m bs x \<Longrightarrow> reads (bindS m (\<lambda>x. ret (Some (f x)))) bs (Some (f x))"
  by (simp add: reads_def)

lemma reads_value:
  assumes "value_fits v" "value_ok v"
  shows "reads (read_value (rdb_code (entry_type v))) (entry_payload v) (Some v)"
proof (cases v)
  case (VString s)
  then show ?thesis using assms by (simp add: read_value_def reads_map_Some reads_string)
next
  case (VList xs)
  have "reads read_list (entry_payload v) xs"
    unfolding read_list_def VList entry_payload.simps using assms VList
    by (intro reads_counted reads_string) (simp_all add: foldE_Inr fold_push)
  then show ?thesis using VList by (simp add: read_value_def reads_map_Some)
next
  case (VSet xs)
  have "foldE (\<lambda>x xs. Inr (fst (oset_insert (<) x xs))) xs [] = Inr xs"
    using fold_oset_insert [of "[]" xs] assms VSet by (simp add: foldE_Inr value_ok_def)
  then have "reads read_set (entry_payload v) xs"
    unfolding read_set_def VSet entry_payload.simps using assms VSet
    by (intro reads_counted reads_string) simp_all
  then show ?thesis using VSet by (simp add: read_value_def reads_map_Some)
next
  case (VHash m)
  have "foldE (\<lambda>(f, v) m. Inr (omap_put m f v)) m [] = Inr m"
    using fold_omap_put [of "[]" m] assms VHash
    by (subst foldE_Inr [where f = "\<lambda>(f, v) m. omap_put m f v"]) (auto simp: value_ok_def)
  then have "reads read_hash (entry_payload v) m"
    unfolding read_hash_def VHash entry_payload.simps using assms VHash
    by (intro reads_counted) (auto intro: reads_pair)
  then show ?thesis using VHash by (simp add: read_value_def reads_map_Some)
next
  case (VZSet z)
  have "foldE insert_loaded (tree z) empty_zset = Inr z"
    using assms VZSet by (intro foldE_zset) (simp add: value_ok_def)
  then have "reads read_zset (entry_payload v) z"
    unfolding read_zset_def VZSet entry_payload.simps using assms VZSet
    by (intro reads_counted reads_zset_entry) (simp_all add: zset_size_def)
  then show ?thesis using VZSet by (simp add: read_value_def reads_map_Some)
next
  case Monostate
  then show ?thesis using assms(2) by (simp add: value_ok_def)
qed

lemma reads_record:
  assumes "fits k" "value_fits v" "value_ok v"
  shows "reads (read_record (rdb_code (entry_type v))) (write_string k @ entry_payload v) (Some (k, v, None))"
proof -
  have "rdb_code (entry_type v) \<noteq> 252" using entry_type_code [of v] assms(3) by (simp add: value_ok_def)
  then show ?thesis
    using reads_string [OF assms(1)] reads_value [OF assms(2,3)] by (simp add: read_record_def reads_def)
qed

lemma reads_type: "reads (read_int 1) (write_type ty) (rdb_code ty)"
  unfolding write_type_def by (rule reads_int) (cases ty; simp)

lemma load_loop_entry:
  assumes "fits k" "value_fits v" "value_ok v"
  shows "load_loop hs \<lparr>unread = write_entry k v @ rest, good = True\<rparr> t =
    bindS (load_record hs (k, v, None)) (\<lambda>_. load_loop hs \<lparr>unread = rest, good = True\<rparr>) t"
proof -
  have mono: "v \<noteq> Monostate" using assms(3) by (simp add: value_ok_def)
  let ?w = "write_type (entry_type v) @ (write_string k @ entry_payload v) @ rest"
  have w: "write_entry k v @ rest = ?w" by (simp add: write_entry_split [OF mono])
  have ne: "\<not> at_eof \<lparr>unread = ?w, good = True\<rparr>" by (simp add: at_eof_def write_type_def)
  have ty: "read_int 1 \<lparr>unread = ?w, good = True\<rparr> = (Inr (rdb_code (entry_type v)),
      \<lparr>unread = (write_string k @ entry_payload v) @ rest, good = True\<rparr>)"
    using reads_type [of "entry_type v"] unfolding reads_def by blast
  have rec: "read_record (rdb_code (entry_type v))
      \<lparr>unread = (write_string k @ entry_payload v) @ rest, good = True\<rparr> =
      (Inr (Some (k, v, None)), \<lparr>unread = rest, good = True\<rparr>)"
    using reads_record [OF assms] unfolding reads_def by blast
  have "rdb_code (entry_type v) \<noteq> rdb_code R_END_OF_FILE" using entry_type_code [OF mono] by simp
  then show ?thesis
    unfolding w load_loop.simps [of hs "\<lparr>unread = ?w, good = True\<rparr>"] ty prod.case sum.case rec
    using ne by (simp add: bindS_def split: prod.splits sum.splits)
qed

lemma load_loop_end: "load_loop hs \<lparr>unread = write_type R_END_OF_FILE, good = True\<rparr> t = (Inr True, t)"
proof -
  have "read_int 1 \<lparr>unread = write_type R_END_OF_FILE, good = True\<rparr> =
      (Inr (rdb_code R_END_OF_FILE), \<lparr>unread = [], good = True\<rparr>)"
    using reads_type [of R_END_OF_FILE] unfolding reads_def by (metis append_Nil2)
  then have "read_int (Suc 0) \<lparr>unread = write_type R_END_OF_FILE, good = True\<rparr> =
      (Inr (rdb_code R_END_OF_FILE), \<lparr>unread = [], good = True\<rparr>)"
    by simp
  then show ?thesis by (simp add: load_loop.simps [of hs "\<lparr>unread = write_type R_END_OF_FILE, good = True\<rparr>"])
qed

lemma load_loop_entries:
  assumes "\<forall>(k, v) \<in> set kvs. fits k \<and> value_fits v \<and> value_ok v"
  shows "load_loop hs \<lparr>unread = concat (map (\<lambda>(k, v). write_entry k v) kvs) @ write_type R_END_OF_FILE, good = True\<rparr> t =
    bindS (for_batch (\<lambda>(k, v). load_record hs (k, v, None)) kvs) (\<lambda>_. ret True) t"
  using assms
proof (induction kvs arbitrary: t)
  case Nil
  then show ?case by (simp add: load_loop_end)
next
  case (Cons kv kvs)
  obtain k v where kv: "kv = (k, v)" by (cases kv)
  from Cons show ?case
    by (auto simp: kv load_loop_entry bindS_def split: prod.splits sum.splits)
qed

section \<open>Loading into shards with room\<close>

definition room :: "nat \<Rightarrow> topology \<Rightarrow> bool" where
  "room n t \<longleftrightarrow> (\<forall>c < num_cores t.
     occupied_count (data_store (shards t ! c)) + n \<le> hm_capacity (data_store (shards t ! c)))"

lemma shard_set_room:
  assumes inv: "shard_inv hs sh" and ok: "value_ok v"
    and free: "occupied_count (data_store sh) < hm_capacity (data_store sh)"
  obtains sh' where "shard_set hs k v sh = (Inr (), sh')" "shard_inv hs sh'"
    "shard_abs sh' = (shard_abs sh)(k \<mapsto> (v, None))"
    "occupied_count (data_store sh') \<le> Suc (occupied_count (data_store sh))"
    "hm_capacity (data_store sh') = hm_capacity (data_store sh)"
proof -
  note wf = shard_invD(1) [OF inv]
  have "\<not> (\<forall>e \<in> set (hm_entries (data_store sh)). occupied e)"
    using free hm_wfD(1) [OF wf] filter_id_conv [of occupied "hm_entries (data_store sh)"]
    by (auto simp: occupied_count_def hm_shape_def)
  then obtain h where h: "hm_put hs k v (data_store sh) = (Inr (hm_abs (data_store sh) k = None), h)"
    using hm_put_room [OF wf] by metis
  let ?sh = "erase_expiry k (sh\<lparr>data_store := h\<rparr>)"
  have s: "shard_set hs k v sh = (Inr (), ?sh)" using h by (simp add: shard_set_def)
  moreover have "data_store ?sh = h" by (simp add: erase_expiry_def)
  moreover note occupied_count_put [OF h hm_wfD(1) [OF wf]]
  moreover have "shard_inv hs ?sh" "shard_abs ?sh = (shard_abs sh)(k \<mapsto> (v, None))"
    using shard_set_law [OF inv ok, of k] s by auto
  ultimately show ?thesis using that [of ?sh] by simp
qed

lemma load_record_room:
  assumes inv: "topo_inv hs t" and ok: "value_ok v" and rm: "room (Suc n) t"
  obtains t' where "load_record hs (k, v, None) t = (Inr (), t')" "topo_inv hs t'"
    "topo_db t' = (topo_db t)(k \<mapsto> (v, None))" "room n t'" "num_cores t' = num_cores t"
proof -
  define c where "c = get_target_core t k"
  have c: "c < num_cores t" using target_in_range [OF inv] by (simp add: c_def)
  have "occupied_count (data_store (shards t ! c)) < hm_capacity (data_store (shards t ! c))"
    using rm c by (auto simp: room_def)
  then obtain sh where sh: "shard_set hs k v (shards t ! c) = (Inr (), sh)" "shard_inv hs sh"
    "shard_abs sh = (shard_abs (shards t ! c))(k \<mapsto> (v, None))"
    "occupied_count (data_store sh) \<le> Suc (occupied_count (data_store (shards t ! c)))"
    "hm_capacity (data_store sh) = hm_capacity (data_store (shards t ! c))"
    by (rule shard_set_room [OF topo_shard_inv [OF inv c] ok])
  let ?t = "t\<lparr>shards := (shards t)[c := sh]\<rparr>"
  have run: "load_record hs (k, v, None) t = (Inr (), ?t)"
    using on_shard_apply [OF inv c, of "bindS (shard_set hs k v) (\<lambda>_. ret ())" "Inr ()" sh] sh(1)
    by (simp add: load_record_def c_def [symmetric])
  have upd: "topo_inv hs ?t" "topo_db ?t = (topo_db t)(k := shard_abs sh k)"
    by (rule topo_shard_update [OF inv c_def sh(2)], use sh(3) in simp)+
  have "room n ?t"
    unfolding room_def
  proof (intro allI impI)
    fix d
    assume "d < num_cores ?t"
    then have d: "d < num_cores t" by simp
    have "length (shards t) = num_cores t" using inv by (simp add: topo_inv_def)
    then show "occupied_count (data_store (shards ?t ! d)) + n \<le> hm_capacity (data_store (shards ?t ! d))"
      using rm [unfolded room_def, rule_format, OF d] sh(4,5) d by (cases "d = c") simp_all
  qed
  then show ?thesis using that [OF run upd(1)] upd(2) sh(3) by simp
qed

definition put_entry :: "string \<times> cvalue \<Rightarrow> db \<Rightarrow> db" where
  "put_entry kv d = d(fst kv \<mapsto> (snd kv, None))"

lemma load_batch_room:
  assumes "topo_inv hs t" "\<forall>(k, v) \<in> set kvs. value_ok v" "room (length kvs) t"
  shows "\<exists>t'. for_batch (\<lambda>(k, v). load_record hs (k, v, None)) kvs t = (Inr (), t') \<and> topo_inv hs t' \<and>
    topo_db t' = fold put_entry kvs (topo_db t) \<and> num_cores t' = num_cores t"
  using assms
proof (induction kvs arbitrary: t)
  case Nil
  then show ?case by simp
next
  case (Cons kv kvs)
  obtain k v where kv: "kv = (k, v)" by (cases kv)
  obtain t1 where t1: "load_record hs (k, v, None) t = (Inr (), t1)" "topo_inv hs t1"
    "topo_db t1 = (topo_db t)(k \<mapsto> (v, None))" "room (length kvs) t1" "num_cores t1 = num_cores t"
    using Cons.prems by (auto simp: kv intro: load_record_room)
  obtain t2 where "for_batch (\<lambda>(k, v). load_record hs (k, v, None)) kvs t1 = (Inr (), t2)" "topo_inv hs t2"
    "topo_db t2 = fold put_entry kvs (topo_db t1)" "num_cores t2 = num_cores t1"
    using Cons.IH [OF t1(2) _ t1(4)] Cons.prems(2) by auto
  moreover have "put_entry (k, v) (topo_db t) = topo_db t1" unfolding put_entry_def t1(3) by simp
  ultimately show ?case using t1 by (simp add: kv)
qed

section \<open>The entries a dump holds\<close>

definition all_entries :: "topology \<Rightarrow> (string \<times> cvalue) list" where
  "all_entries t = concat (map (\<lambda>i. shard_for_each (shards t ! i)) [0 ..< num_cores t])"

lemma shard_for_each_iff:
  assumes "shard_inv hs sh"
  shows "(k, v) \<in> set (shard_for_each sh) \<longleftrightarrow> shard_abs sh k = Some (v, expires sh k)"
  using hm_for_each_distinct [OF shard_invD(1) [OF assms]]
  by (auto simp: shard_for_each_def shard_abs_def hm_abs_def)

lemma all_entries_iff:
  assumes inv: "topo_inv hs t" and ne: "\<forall>k v e. topo_db t k = Some (v, e) \<longrightarrow> e = None"
  shows "(k, v) \<in> set (all_entries t) \<longleftrightarrow> topo_db t k = Some (v, None)"
proof -
  let ?c = "get_target_core t k"
  have "(k, v) \<in> set (all_entries t) \<longleftrightarrow> (\<exists>c < num_cores t. shard_abs (shards t ! c) k = Some (v, expires (shards t ! c) k))"
    using shard_for_each_iff [OF topo_shard_inv [OF inv]] by (auto simp: all_entries_def)
  also have "\<dots> \<longleftrightarrow> shard_abs (shards t ! ?c) k = Some (v, expires (shards t ! ?c) k)"
    using topo_placement [OF inv, of _ k] target_in_range [OF inv, of k] by blast
  also have "\<dots> \<longleftrightarrow> topo_db t k = Some (v, None)"
    using ne by (auto simp: topo_db_def shard_abs_Some)
  finally show ?thesis .
qed

lemma all_entries_distinct:
  assumes inv: "topo_inv hs t"
  shows "distinct (map fst (all_entries t))"
proof -
  have dist: "distinct (map fst (shard_for_each (shards t ! i)))" if "i < num_cores t" for i
    using hm_for_each_distinct [OF shard_invD(1) [OF topo_shard_inv [OF inv that]]]
    by (simp add: shard_for_each_def)
  have keys: "get_target_core t k = i" if i: "i < num_cores t" and k: "k \<in> fst ` set (shard_for_each (shards t ! i))" for k i
  proof -
    obtain v where "(k, v) \<in> set (shard_for_each (shards t ! i))" using k by auto
    then have "shard_abs (shards t ! i) k \<noteq> None"
      using shard_for_each_iff [OF topo_shard_inv [OF inv i]] by simp
    then show ?thesis by (rule topo_placement [OF inv i])
  qed
  have "distinct (concat (map (\<lambda>i. map fst (shard_for_each (shards t ! i))) [0 ..< n]))" if "n \<le> num_cores t" for n
    using that
  proof (induction n)
    case (Suc n)
    have "k \<notin> fst ` set (shard_for_each (shards t ! i))"
      if "k \<in> fst ` set (shard_for_each (shards t ! n))" "i < n" for k i
      using keys [of n k] keys [of i k] that Suc.prems by auto
    with Suc dist [of n] show ?case by force
  qed simp
  from this [of "num_cores t"] show ?thesis by (simp add: all_entries_def map_concat comp_def)
qed

lemma fold_put_map_of:
  "distinct (map fst kvs) \<Longrightarrow>
     fold put_entry kvs d k =
     (case map_of kvs k of None \<Rightarrow> d k | Some v \<Rightarrow> Some (v, None))"
proof (induction kvs arbitrary: d)
  case (Cons kv kvs)
  then have "k = fst kv \<Longrightarrow> map_of kvs k = None" by (simp add: map_of_eq_None_iff)
  with Cons show ?case by (cases "k = fst kv") (auto simp: put_entry_def split: option.splits)
qed simp

section \<open>Properties\<close>

lemma concat_map_concat:
  "concat (map f (concat (map g xs))) = concat (map (\<lambda>x. concat (map f (g x))) xs)"
  by (induction xs) simp_all

lemma rdb_save_no_expiry:
  assumes inv: "topo_inv hs t" and ne: "\<forall>k v e. topo_db t k = Some (v, e) \<longrightarrow> e = None"
  shows "rdb_save t = Inr (RDB_MAGIC @ le_bytes 4 RDB_VERSION @
    concat (map (\<lambda>(k, v). write_entry k v) (all_entries t)) @ write_type R_END_OF_FILE)"
proof -
  have "save_shard (shards t ! i) = concat (map (\<lambda>(k, v). write_entry k v) (shard_for_each (shards t ! i)))"
    if i: "i < num_cores t" for i
  proof -
    have "save_entry (shards t ! i) kv = (\<lambda>(k, v). write_entry k v) kv"
      if kv: "kv \<in> set (shard_for_each (shards t ! i))" for kv
    proof -
      obtain k v where [simp]: "kv = (k, v)" by (cases kv)
      have a: "shard_abs (shards t ! i) k = Some (v, expires (shards t ! i) k)"
        using kv shard_for_each_iff [OF topo_shard_inv [OF inv i]] by simp
      then have "get_target_core t k = i" by (intro topo_placement [OF inv i]) simp
      then have "topo_db t k = Some (v, expires (shards t ! i) k)" using a by (simp add: topo_db_def)
      then have "expires (shards t ! i) k = None" using ne by blast
      then show ?thesis by (simp add: save_entry_def get_expiry_def)
    qed
    then show ?thesis unfolding save_shard_def by (intro arg_cong [of _ _ concat] map_cong) auto
  qed
  then have m: "map (\<lambda>i. save_shard (shards t ! i)) [0 ..< num_cores t] =
      map (\<lambda>i. concat (map (\<lambda>(k, v). write_entry k v) (shard_for_each (shards t ! i)))) [0 ..< num_cores t]"
    by simp
  have "length (shards t) = num_cores t" using inv by (simp add: topo_inv_def)
  then show ?thesis
    unfolding rdb_save_def shard_count_def m all_entries_def concat_map_concat by simp
qed

lemma rdb_load_header:
  "rdb_load hs (Some (RDB_MAGIC @ le_bytes 4 RDB_VERSION @ body)) t =
     load_loop hs \<lparr>unread = body, good = True\<rparr> t"
proof -
  have "reads (read_buffer 7) RDB_MAGIC RDB_MAGIC" by (rule reads_buffer) (simp add: RDB_MAGIC_def)
  moreover have "reads (read_int 4) (le_bytes 4 RDB_VERSION) RDB_VERSION"
    by (rule reads_int) (simp add: RDB_VERSION_def)
  moreover have "c_string RDB_MAGIC = RDB_MAGIC" by (simp add: c_string_def RDB_MAGIC_def)
  ultimately show ?thesis by (simp add: rdb_load_def open_istream_def reads_def)
qed

text \<open>Saving and loading, for this theory and for the restart of the server.\<close>

lemma save_then_load:
  assumes inv: "topo_inv hs t" and ne: "\<forall>k v e. topo_db t k = Some (v, e) \<longrightarrow> e = None"
    and fit: "\<forall>k v e. topo_db t k = Some (v, e) \<longrightarrow> fits k \<and> value_fits v"
    and few: "card (dom (topo_db t)) \<le> 10000" and n: "0 < n"
  shows "\<exists>bytes t'. rdb_save t = Inr bytes \<and> rdb_load hs' (Some bytes) (new_topology n) = (Inr True, t') \<and>
    topo_inv hs' t' \<and> topo_db t' = topo_db t"
proof -
  let ?kvs = "all_entries t"
  note iff = all_entries_iff [OF inv ne] and dist = all_entries_distinct [OF inv]
  have ok: "fits k \<and> value_fits v \<and> value_ok v" if kv: "(k, v) \<in> set ?kvs" for k v
  proof -
    have db: "topo_db t k = Some (v, None)" using kv iff by blast
    then have "value_ok v"
      using ks.values_ok [OF topo_shard_inv [OF inv target_in_range [OF inv]]] unfolding topo_db_def by blast
    with db fit show ?thesis by blast
  qed
  have "fst ` set ?kvs = dom (topo_db t)"
  proof
    show "fst ` set ?kvs \<subseteq> dom (topo_db t)" using iff by auto
    show "dom (topo_db t) \<subseteq> fst ` set ?kvs" using iff ne by (force simp: dom_def image_iff)
  qed
  then have len: "length ?kvs \<le> 10000" using few distinct_card [OF dist] by simp
  have "room (length ?kvs) (new_topology n)"
    using len by (simp add: room_def new_topology_def new_shard_def new_hash_map_def occupied_count_def
        fresh_entry_def)
  then obtain t' where t': "for_batch (\<lambda>(k, v). load_record hs' (k, v, None)) ?kvs (new_topology n) = (Inr (), t')"
    "topo_inv hs' t'" "topo_db t' = fold put_entry ?kvs Map.empty"
    using load_batch_room [OF topo_inv_new [OF n], of ?kvs hs'] ok topo_db_new [OF n] by auto
  have "topo_db t' = topo_db t"
  proof
    fix k
    have "topo_db t' k = (case map_of ?kvs k of None \<Rightarrow> None | Some v \<Rightarrow> Some (v, None))"
      unfolding t'(3) fold_put_map_of [OF dist] ..
    also have "\<dots> = topo_db t k"
    proof (cases "topo_db t k")
      case None
      then have "map_of ?kvs k \<noteq> Some v" for v using iff [of k v] map_of_eq_Some_iff [OF dist] by auto
      with None show ?thesis by (simp split: option.splits)
    next
      case (Some x)
      obtain v e where "x = (v, e)" by (cases x)
      with Some ne have "topo_db t k = Some (v, None)" by blast
      then show ?thesis using iff [of k v] map_of_eq_Some_iff [OF dist, of k v] by simp
    qed
    finally show "topo_db t' k = topo_db t k" .
  qed
  moreover have "rdb_load hs' (Some (RDB_MAGIC @ le_bytes 4 RDB_VERSION @
      concat (map (\<lambda>(k, v). write_entry k v) ?kvs) @ write_type R_END_OF_FILE)) (new_topology n) = (Inr True, t')"
    unfolding rdb_load_header using load_loop_entries [of ?kvs hs' "new_topology n"] ok t'(1) by auto
  ultimately show ?thesis using rdb_save_no_expiry [OF inv ne] t'(2) by blast
qed

text \<open>
  C6: Round trip of a dump. When no key has an expiration time, every string and container is
  shorter than 2^32 and there are at most 10000 keys (the capacity of one shard), saving a
  node and loading the file into an empty node with any number of cores succeeds and restores
  exactly the same database, with every key on the shard the router of the new node gives it.
\<close>

theorem rdb_roundtrip:
  assumes "topo_inv hs t" "\<forall>k v e. topo_db t k = Some (v, e) \<longrightarrow> e = None"
    and "\<forall>k v e. topo_db t k = Some (v, e) \<longrightarrow> fits k \<and> value_fits v"
    and "card (dom (topo_db t)) \<le> 10000" "0 < n"
  shows "\<exists>bytes t'. rdb_save t = Inr bytes \<and> rdb_load hs' (Some bytes) (new_topology n) = (Inr True, t') \<and>
    topo_inv hs' t' \<and> topo_db t' = topo_db t"
  using assms by (rule save_then_load)

lemma topo_single:
  assumes "0 < n" "value_ok v"
  obtains t where "topo_inv hs t" "topo_db t = [k \<mapsto> (v, None)]" "num_cores t = n"
proof -
  have "room (Suc 0) (new_topology n)"
    by (simp add: room_def new_topology_def new_shard_def new_hash_map_def occupied_count_def fresh_entry_def)
  then show ?thesis
    using load_record_room [OF topo_inv_new [OF assms(1)] assms(2), of 0 hs k] that topo_db_new [OF assms(1)]
    by (metis One_nat_def new_topology_def topology.select_convs(2))
qed

theorem rdb_roundtrip_witness:
  "\<exists>t bytes t'. topo_inv length t \<and> topo_db t = [''k'' \<mapsto> (VList [''a'', ''b''], None)] \<and>
    rdb_save t = Inr bytes \<and> rdb_load size (Some bytes) (new_topology 3) = (Inr True, t') \<and>
    topo_db t' = [''k'' \<mapsto> (VList [''a'', ''b''], None)]"
proof -
  obtain t where t: "topo_inv length t" "topo_db t = [''k'' \<mapsto> (VList [''a'', ''b''], None)]"
    by (rule topo_single [of 2 "VList [''a'', ''b'']" length "''k''"]) (simp_all add: value_ok_def)
  have "\<exists>bytes t'. rdb_save t = Inr bytes \<and> rdb_load size (Some bytes) (new_topology 3) = (Inr True, t') \<and>
      topo_inv size t' \<and> topo_db t' = topo_db t"
    by (rule rdb_roundtrip [OF t(1)]) (auto simp: t(2) fits_def split: if_splits)
  with t show ?thesis by auto
qed

text \<open>Reading an \<open>EXPIRE_MS\<close> record that \<open>save\<close> wrote.\<close>

lemma read_record_expiry:
  assumes "length rest + 4 < nat (e mod 2 ^ 32)"
  shows "fst (read_record (rdb_code R_EXPIRE_MS)
    \<lparr>unread = le_bytes 8 (nat (e mod 2 ^ 64)) @ rest, good = True\<rparr>) = Inl Undefined_behaviour"
proof -
  define x where "x = nat (e mod 2 ^ 64)"
  have "int (x mod 2 ^ 32) = e mod 2 ^ 32"
    by (simp add: x_def zmod_int mod_mod_cancel)
  then have low: "x mod 256 ^ 4 = nat (e mod 2 ^ 32)" by simp
  have split8: "le_bytes 8 x = le_bytes 4 x @ le_bytes 4 (x div 256 ^ 4)"
    using le_bytes_add [of 4 4 x] by simp
  have len: "read_int 4 \<lparr>unread = le_bytes 8 x @ rest, good = True\<rparr> =
      (Inr (nat (e mod 2 ^ 32)), \<lparr>unread = le_bytes 4 (x div 256 ^ 4) @ rest, good = True\<rparr>)"
    unfolding split8 append_assoc by (simp add: read_int_def le_val_mod low [simplified])
  have "read_string \<lparr>unread = le_bytes 8 x @ rest, good = True\<rparr> =
      (Inr ((le_bytes 4 (x div 256 ^ 4) @ rest) @
            replicate (nat (e mod 2 ^ 32) - length (le_bytes 4 (x div 256 ^ 4) @ rest)) (CHR 0x00)),
       \<lparr>unread = [], good = False\<rparr>)"
    using assms by (simp add: read_string_def len read_buffer_def read_bytes_def)
  then show ?thesis
    unfolding x_def [symmetric] by (simp add: read_record_def read_int_def read_bytes_def)
qed

lemma concat_single:
  assumes "c < n" "\<And>i. i < n \<Longrightarrow> i \<noteq> c \<Longrightarrow> g i = []"
  shows "concat (map g [0 ..< n]) = g c"
  using assms
proof (induction n)
  case (Suc n)
  have "c \<noteq> n \<Longrightarrow> concat (map g [0 ..< n]) = g c" using Suc by auto
  moreover have "c = n \<Longrightarrow> concat (map g [0 ..< n]) = []" using Suc.prems(2) by auto
  ultimately show ?case using Suc.prems(2) [of n] by (cases "c = n") simp_all
qed simp

lemma shard_entries_single:
  assumes inv: "topo_inv hs t" and db: "topo_db t = [k \<mapsto> (v, e)]" and i: "i < num_cores t"
  shows "shard_for_each (shards t ! i) = (if i = get_target_core t k then [(k, v)] else [])"
proof -
  note iff = shard_for_each_iff [OF topo_shard_inv [OF inv i]]
  have one: "k' = k \<and> v' = v \<and> i = get_target_core t k" if kv: "(k', v') \<in> set (shard_for_each (shards t ! i))" for k' v'
  proof -
    have a: "shard_abs (shards t ! i) k' = Some (v', expires (shards t ! i) k')" using kv iff by blast
    then have "get_target_core t k' = i" by (intro topo_placement [OF inv i]) simp
    then have "topo_db t k' = Some (v', expires (shards t ! i) k')" using a by (simp add: topo_db_def)
    then have "k' = k" "v' = v" unfolding db by (auto split: if_splits)
    with \<open>get_target_core t k' = i\<close> show ?thesis by simp
  qed
  have dist: "distinct (map fst (shard_for_each (shards t ! i)))"
    using hm_for_each_distinct [OF shard_invD(1) [OF topo_shard_inv [OF inv i]]] by (simp add: shard_for_each_def)
  show ?thesis
  proof (cases "i = get_target_core t k")
    case True
    have "shard_abs (shards t ! i) k = Some (v, e)" using fun_cong [OF db, of k] True by (simp add: topo_db_def)
    then have "(k, v) \<in> set (shard_for_each (shards t ! i))" using iff by (simp add: shard_abs_Some)
    moreover have "x = (k, v)" if "x \<in> set (shard_for_each (shards t ! i))" for x
      using one [of "fst x" "snd x"] that by (cases x) simp
    ultimately have s: "set (shard_for_each (shards t ! i)) = {(k, v)}" by blast
    have "length (shard_for_each (shards t ! i)) = 1" using distinct_card [OF dist] s by simp
    then obtain kv where "shard_for_each (shards t ! i) = [kv]" by (auto simp: length_Suc_conv)
    with s True show ?thesis by simp
  next
    case False
    then have "x \<notin> set (shard_for_each (shards t ! i))" for x using one [of "fst x" "snd x"] by auto
    then have "shard_for_each (shards t ! i) = []" by (cases "shard_for_each (shards t ! i)") auto
    with False show ?thesis by simp
  qed
qed

text \<open>
  C34: A dump with an expiration time cannot be loaded. When the only key of a node expires at
  a time whose low 32 bits exceed the size of the rest of the file (for a small dump, almost
  every time), loading what \<open>save\<close> wrote reads a length that was never initialised: \<open>load\<close> takes
  the low half of the time for the length of a key and runs off the end of the file.
\<close>

theorem rdb_expiry_lost:
  assumes inv: "topo_inv hs t" and db: "topo_db t = [k \<mapsto> (v, Some e)]" and e: "e \<noteq> - 1"
    and big: "length (write_entry k v) + 5 < nat (e mod 2 ^ 32)"
  shows "\<exists>bytes. rdb_save t = Inr bytes \<and> rdb_load hs' (Some bytes) t' = (Inl Undefined_behaviour, t')"
proof -
  let ?c = "get_target_core t k" and ?rest = "write_entry k v @ write_type R_END_OF_FILE"
  have c: "?c < num_cores t" using inv by simp
  have "shard_abs (shards t ! ?c) k = Some (v, Some e)" using fun_cong [OF db, of k] by (simp add: topo_db_def)
  then have "get_expiry k (shards t ! ?c) = e" by (simp add: shard_abs_Some get_expiry_def)
  then have "save_shard (shards t ! ?c) = write_expiry e @ write_entry k v"
    using shard_entries_single [OF inv db c] e by (simp add: save_shard_def save_entry_def)
  moreover have "concat (map (\<lambda>i. save_shard (shards t ! i)) [0 ..< num_cores t]) = save_shard (shards t ! ?c)"
    by (rule concat_single [OF c]) (simp add: save_shard_def shard_entries_single [OF inv db])
  ultimately have save: "rdb_save t = Inr (RDB_MAGIC @ le_bytes 4 RDB_VERSION @ write_expiry e @ ?rest)"
    using inv by (simp add: rdb_save_def shard_count_def topo_inv_def)
  let ?w = "write_type R_EXPIRE_MS @ le_bytes 8 (nat (e mod 2 ^ 64)) @ ?rest"
  have "read_int 1 \<lparr>unread = ?w, good = True\<rparr> =
      (Inr (rdb_code R_EXPIRE_MS), \<lparr>unread = le_bytes 8 (nat (e mod 2 ^ 64)) @ ?rest, good = True\<rparr>)"
    using reads_type [of R_EXPIRE_MS] unfolding reads_def by blast
  moreover obtain ifs where "read_record (rdb_code R_EXPIRE_MS)
      \<lparr>unread = le_bytes 8 (nat (e mod 2 ^ 64)) @ ?rest, good = True\<rparr> = (Inl Undefined_behaviour, ifs)"
    using read_record_expiry [of ?rest e] big
    by (cases "read_record (rdb_code R_EXPIRE_MS)
      \<lparr>unread = le_bytes 8 (nat (e mod 2 ^ 64)) @ ?rest, good = True\<rparr>") (auto simp: write_type_def)
  moreover have "\<not> at_eof \<lparr>unread = ?w, good = True\<rparr>" by (simp add: at_eof_def write_type_def)
  ultimately have "load_loop hs' \<lparr>unread = ?w, good = True\<rparr> t' = (Inl Undefined_behaviour, t')"
    unfolding load_loop.simps [of hs' "\<lparr>unread = ?w, good = True\<rparr>"] by simp
  moreover have "write_expiry e @ ?rest = ?w" by (simp add: write_expiry_def)
  ultimately show ?thesis unfolding save sum.inject ex_simps by (simp only: rdb_load_header simp_thms)
qed

theorem rdb_expiry_lost_witness:
  "\<exists>t bytes. topo_inv length t \<and> topo_db t = [''k'' \<mapsto> (VString ''v'', Some 1700000000000)] \<and>
    rdb_save t = Inr bytes \<and>
    rdb_load length (Some bytes) (new_topology 1) = (Inl Undefined_behaviour, new_topology 1)"
proof -
  obtain t0 where t0: "topo_inv length t0" "topo_db t0 = [''k'' \<mapsto> (VString ''v'', None)]"
    by (rule topo_single [of 1 "VString ''v''" length "''k''"]) (simp_all add: value_ok_def)
  let ?c = "get_target_core t0 ''k''"
  have sh: "shard_inv length (shards t0 ! ?c)" using topo_shard_inv [OF t0(1)] t0(1) by simp
  have "shard_abs (shards t0 ! ?c) ''k'' = Some (VString ''v'', None)"
    using fun_cong [OF t0(2), of "''k''"] by (simp add: topo_db_def)
  then obtain sh' where sh': "shard_inv length sh'"
    "shard_abs sh' = (shard_abs (shards t0 ! ?c))(''k'' \<mapsto> (VString ''v'', Some 1700000000000))"
    using ks.set_exp_law [OF sh] by blast
  let ?t = "t0\<lparr>shards := (shards t0)[?c := sh']\<rparr>"
  have t: "topo_inv length ?t" "topo_db ?t = [''k'' \<mapsto> (VString ''v'', Some 1700000000000)]"
    using topo_shard_update [OF t0(1) refl sh'(1), of "''k''"] sh'(2) t0(2) by auto
  have "length (write_entry ''k'' (VString ''v'')) + 5 < nat (1700000000000 mod 2 ^ 32)"
    by (simp add: write_type_def write_string_def write_count_def)
  then show ?thesis using t rdb_expiry_lost [OF t, of length "new_topology 1"] by auto
qed

end
