(* ===== verification/Command_Base.thy ===== *)
theory Command_Base
  imports Topology
begin

text \<open>
  What the command classes under \<open>src/commands\<close> share: the reply formats, the forwarding of a
  request to the core that owns the key, and the lookup of a value of a given type. In the
  sources these are repeated in every class; here they are one definition each.

  A command is specified as a transition of one \<open>slot\<close>, the value and expiration time of its
  key. \<open>implements\<close> is the refinement relation between the code that runs on a shard and such a
  transition; the locale \<open>alternative\<close> proves it once for every command that looks up one
  alternative of the value variant.
\<close>

section \<open>Replies\<close>

definition crlf :: string where
  "crlf = [CHR 0x0D, CHR 0x0A]"

definition bulk :: "string \<Rightarrow> string" where
  "bulk s = ''$'' @ nat_str (length s) @ crlf @ s @ crlf"

definition null_bulk :: string where
  "null_bulk = ''$-1'' @ crlf"

definition int_reply :: "int \<Rightarrow> string" where
  "int_reply i = '':'' @ int_str i @ crlf"

definition array_reply :: "int \<Rightarrow> string list \<Rightarrow> string" where
  "array_reply n xs = ''*'' @ int_str n @ crlf @ concat (map bulk xs)"

definition empty_array :: string where
  "empty_array = ''*0'' @ crlf"

definition ok_reply :: string where
  "ok_reply = ''+OK'' @ crlf"

definition wrong_args :: "string \<Rightarrow> string" where
  "wrong_args nm = ''-ERR wrong number of arguments for '' @ [CHR 0x27] @ nm @ [CHR 0x27] @ crlf"

definition wrong_type :: string where
  "wrong_type = ''-ERR WRONGTYPE Operation against a key holding the wrong kind of value'' @ crlf"

definition not_an_integer :: string where
  "not_an_integer = ''-ERR value is not an integer or out of range'' @ crlf"

lemmas reply_defs = bulk_def null_bulk_def int_reply_def array_reply_def empty_array_def ok_reply_def
  wrong_args_def wrong_type_def not_an_integer_def

section \<open>Dispatch on the owner of the key\<close>

definition request_message :: "nat \<Rightarrow> 32 word \<Rightarrow> string list \<Rightarrow> message" where
  "request_message core conn args =
     \<lparr>mtype = REQUEST, origin_core_id = core, conn_id = conn, mkey = args ! 1, margs = args,
      payload = '''', success = None\<rparr>"

definition forward_request :: "nat \<Rightarrow> 32 word \<Rightarrow> string list \<Rightarrow> (topology, string) st" where
  "forward_request core conn args = (\<lambda>t.
     let target = get_target_core t (args ! 1) in
     bindS (push_channel target (request_message core conn args)) (\<lambda>_.
     bindS (notify_core target) (\<lambda>_. ret [])) t)"

definition keyed :: "nat \<Rightarrow> 32 word \<Rightarrow> string list \<Rightarrow> (shard, string) st \<Rightarrow> (topology, string) st" where
  "keyed core conn args body = (\<lambda>t.
     if is_local t core (args ! 1) then on_shard core body t
     else forward_request core conn args t)"

section \<open>Lookup of a typed value\<close>

text \<open>\<open>std::get_if\<close> for the alternatives of \<open>Value\<close>.\<close>

fun as_string :: "cvalue \<Rightarrow> string option" where
  "as_string (VString s) = Some s" | "as_string _ = None"

fun as_list :: "cvalue \<Rightarrow> string list option" where
  "as_list (VList xs) = Some xs" | "as_list _ = None"

fun as_set :: "cvalue \<Rightarrow> string list option" where
  "as_set (VSet xs) = Some xs" | "as_set _ = None"

fun as_hash :: "cvalue \<Rightarrow> (string \<times> string) list option" where
  "as_hash (VHash m) = Some m" | "as_hash _ = None"

fun as_zset :: "cvalue \<Rightarrow> zset option" where
  "as_zset (VZSet z) = Some z" | "as_zset _ = None"

datatype 'a lookup = Missing | Wrong_type | Holds nat 'a

text \<open>
  \<open>val = shard->get(key); if (!val) ...; ptr = get_if<T>(val); if (!ptr) ...\<close>. The clock is read
  at most once by each call of \<open>get\<close>; \<open>clk i\<close> is the \<open>i\<close>-th reading during the command.
\<close>

definition find_typed ::
    "(string \<Rightarrow> nat) \<Rightarrow> (nat \<Rightarrow> int) \<Rightarrow> string \<Rightarrow> (cvalue \<Rightarrow> 'a option) \<Rightarrow> (shard, 'a lookup) st" where
  "find_typed hs clk key get_if =
     bindS (shard_get hs (clk 0) key) (\<lambda>val.
       case val of
         None \<Rightarrow> ret Missing
       | Some i \<Rightarrow>
           getS (\<lambda>sh. case get_if (shard_deref sh i) of None \<Rightarrow> Wrong_type | Some x \<Rightarrow> Holds i x))"

text \<open>
  The first lines of the commands that create the container: a missing key gets an empty one,
  which is looked up again; a null pointer would be dereferenced. None is a wrong type.
\<close>

definition get_or_create ::
    "(string \<Rightarrow> nat) \<Rightarrow> (nat \<Rightarrow> int) \<Rightarrow> string \<Rightarrow> cvalue \<Rightarrow> (cvalue \<Rightarrow> 'a option) \<Rightarrow>
     (shard, (nat \<times> 'a) option) st" where
  "get_or_create hs clk key fresh get_if =
     bindS (shard_get hs (clk 0) key) (\<lambda>val.
       case val of
         None \<Rightarrow>
           bindS (shard_set hs key fresh) (\<lambda>_.
           bindS (shard_get hs (clk 1) key) (\<lambda>val.
             case val of
               None \<Rightarrow> throw Undefined_behaviour
             | Some i \<Rightarrow>
                 bindS (getS (\<lambda>sh. get_if (shard_deref sh i))) (\<lambda>ptr.
                   case ptr of None \<Rightarrow> throw Undefined_behaviour | Some x \<Rightarrow> ret (Some (i, x)))))
       | Some i \<Rightarrow> getS (\<lambda>sh. map_option (Pair i) (get_if (shard_deref sh i))))"

text \<open>Writing the container back through the pointer.\<close>

definition store :: "nat \<Rightarrow> cvalue \<Rightarrow> (shard, unit) st" where
  "store i v = modifyS (shard_assign i v)"

lemma store_apply [simp]: "store i v sh = (Inr (), shard_assign i v sh)"
  by (simp add: store_def)

section \<open>Specifications\<close>

type_synonym slot = "(cvalue \<times> int option) option"

definition expire_slot :: "int \<Rightarrow> slot \<Rightarrow> slot" where
  "expire_slot now s = (case s of Some (v, Some t) \<Rightarrow> if now > t then None else s | _ \<Rightarrow> s)"

lemma purge_slot: "purge now k d = d(k := expire_slot now (d k))"
  by (auto simp: purge_def expire_slot_def fun_eq_iff split: option.splits)

lemma expire_slot_simps [simp]:
  "expire_slot now None = None"
  "expire_slot now (Some (v, None)) = Some (v, None)"
  "expire_slot now (Some (v, Some t)) = (if now > t then None else Some (v, Some t))"
  by (simp_all add: expire_slot_def)

lemma expire_slot_Some: "expire_slot now s = Some x \<Longrightarrow> s = Some x"
  by (auto simp: expire_slot_def split: option.splits if_splits)

text \<open>
  A command that reads or updates an existing container: \<open>h\<close> gives the reply and, when the
  container is written, its new content. The expiration time stays.
\<close>

definition spec_existing ::
    "int \<Rightarrow> (cvalue \<Rightarrow> 'a option) \<Rightarrow> ('a \<Rightarrow> cvalue) \<Rightarrow> string \<Rightarrow> ('a \<Rightarrow> (fault + string) \<times> 'a option) \<Rightarrow>
     (slot, string) st" where
  "spec_existing now get_if mk missing h s =
     (case expire_slot now s of
        None \<Rightarrow> (Inr missing, None)
      | Some (v, e) \<Rightarrow>
          (case get_if v of
             None \<Rightarrow> (Inr wrong_type, Some (v, e))
           | Some x \<Rightarrow> (fst (h x), Some (case snd (h x) of None \<Rightarrow> v | Some y \<Rightarrow> mk y, e))))"

text \<open>A command that creates the container, without expiration time, when there is none.\<close>

definition spec_upsert ::
    "int \<Rightarrow> (cvalue \<Rightarrow> 'a option) \<Rightarrow> ('a \<Rightarrow> cvalue) \<Rightarrow> 'a \<Rightarrow> ('a \<Rightarrow> (fault + string) \<times> 'a) \<Rightarrow>
     (slot, string) st" where
  "spec_upsert now get_if mk fresh h s =
     (case expire_slot now s of
        None \<Rightarrow> (fst (h fresh), Some (mk (snd (h fresh)), None))
      | Some (v, e) \<Rightarrow>
          (case get_if v of
             None \<Rightarrow> (Inr wrong_type, Some (v, e))
           | Some x \<Rightarrow> (fst (h x), Some (mk (snd (h x)), e))))"

section \<open>Refinement\<close>

text \<open>
  On a well-formed shard whose slot for \<open>k\<close> satisfies \<open>pre\<close>, \<open>body\<close> keeps the shard well-formed,
  touches no other key, and replies and changes the slot as \<open>spec\<close> does; or the hash map is
  full, which is possible only from slots in \<open>fill\<close>, and then the key is absent.
\<close>

definition implements ::
    "(string \<Rightarrow> nat) \<Rightarrow> string \<Rightarrow> (slot \<Rightarrow> bool) \<Rightarrow> (slot \<Rightarrow> bool) \<Rightarrow> (shard, 'a) st \<Rightarrow> (slot, 'a) st \<Rightarrow> bool" where
  "implements hs k pre fill body spec \<longleftrightarrow>
     (\<forall>sh. shard_inv hs sh \<longrightarrow> pre (shard_abs sh k) \<longrightarrow>
        (case body sh of
           (r, sh') \<Rightarrow>
             shard_inv hs sh' \<and> (\<forall>j. j \<noteq> k \<longrightarrow> shard_abs sh' j = shard_abs sh j) \<and>
             ((r, shard_abs sh' k) = spec (shard_abs sh k) \<or>
              fill (shard_abs sh k) \<and> r = Inl (Runtime_error ''HashMap is full'') \<and> shard_abs sh' k = None)))"

lemma implementsI:
  assumes "\<And>sh. shard_inv hs sh \<Longrightarrow> pre (shard_abs sh k) \<Longrightarrow>
    \<exists>r sh'. body sh = (r, sh') \<and> shard_inv hs sh' \<and> (\<forall>j. j \<noteq> k \<longrightarrow> shard_abs sh' j = shard_abs sh j) \<and>
      ((r, shard_abs sh' k) = spec (shard_abs sh k) \<or>
       fill (shard_abs sh k) \<and> r = Inl (Runtime_error ''HashMap is full'') \<and> shard_abs sh' k = None)"
  shows "implements hs k pre fill body spec"
  unfolding implements_def using assms by fastforce

lemma implementsD:
  assumes "implements hs k pre fill body spec" "shard_inv hs sh" "pre (shard_abs sh k)"
  obtains r sh' where "body sh = (r, sh')" "shard_inv hs sh'" "\<And>j. j \<noteq> k \<Longrightarrow> shard_abs sh' j = shard_abs sh j"
    "(r, shard_abs sh' k) = spec (shard_abs sh k) \<or>
       fill (shard_abs sh k) \<and> r = Inl (Runtime_error ''HashMap is full'') \<and> shard_abs sh' k = None"
proof -
  obtain r sh' where b: "body sh = (r, sh')" by fastforce
  note assms(1) [unfolded implements_def, rule_format, OF assms(2,3)]
  then show ?thesis unfolding b prod.case by (intro that [OF b]) blast+
qed

lemma implements_weaken:
  assumes "implements hs k pre fill body spec" "\<And>s. pre' s \<Longrightarrow> pre s" "\<And>s. fill s \<Longrightarrow> fill' s"
  shows "implements hs k pre' fill' body spec"
proof (rule implementsI)
  fix sh
  assume sh: "shard_inv hs sh" "pre' (shard_abs sh k)"
  show "\<exists>r sh'. body sh = (r, sh') \<and> shard_inv hs sh' \<and> (\<forall>j. j \<noteq> k \<longrightarrow> shard_abs sh' j = shard_abs sh j) \<and>
      ((r, shard_abs sh' k) = spec (shard_abs sh k) \<or>
       fill' (shard_abs sh k) \<and> r = Inl (Runtime_error ''HashMap is full'') \<and> shard_abs sh' k = None)"
    by (rule implementsD [OF assms(1) sh(1) assms(2) [OF sh(2)]]) (use assms(3) in blast)
qed

definition slot_holds :: "(cvalue \<Rightarrow> 'a option) \<Rightarrow> ('a \<Rightarrow> bool) \<Rightarrow> slot \<Rightarrow> bool" where
  "slot_holds get_if P s \<longleftrightarrow> (\<forall>v e x. s = Some (v, e) \<longrightarrow> get_if v = Some x \<longrightarrow> P x)"

lemma slot_holds_True [simp]: "slot_holds get_if (\<lambda>_. True) s"
  by (simp add: slot_holds_def)

text \<open>
  The shape of a command with a key: an argument error, or the dispatch of a body that
  implements the specification.
\<close>

definition key_command ::
    "(string \<Rightarrow> nat) \<Rightarrow> nat \<Rightarrow> 32 word \<Rightarrow> string list \<Rightarrow> (topology, string) st \<Rightarrow> string option \<Rightarrow>
     (slot \<Rightarrow> bool) \<Rightarrow> (slot \<Rightarrow> bool) \<Rightarrow> (slot, string) st \<Rightarrow> bool" where
  "key_command hs core conn args m err pre fill spec \<longleftrightarrow>
     (case err of
        Some e \<Rightarrow> m = ret e
      | None \<Rightarrow> \<exists>body. m = keyed core conn args body \<and> implements hs (args ! 1) pre fill body spec)"

lemma key_commandI:
  "m = (case err of Some e \<Rightarrow> ret e | None \<Rightarrow> keyed core conn args body) \<Longrightarrow>
   (err = None \<Longrightarrow> implements hs (args ! 1) pre fill body spec) \<Longrightarrow>
   key_command hs core conn args m err pre fill spec"
  by (auto simp: key_command_def split: option.splits)

definition arity_error :: "bool \<Rightarrow> string \<Rightarrow> string option" where
  "arity_error bad nm = (if bad then Some (wrong_args nm) else None)"

lemma arity_error_simps [simp]:
  "arity_error False nm = None" "arity_error True nm = Some (wrong_args nm)"
  by (simp_all add: arity_error_def)

lemma key_command_arity:
  assumes "m = (if bad then ret (wrong_args nm) else keyed core conn args body)"
    and "\<not> bad \<Longrightarrow> implements hs (args ! 1) pre fill body spec"
  shows "key_command hs core conn args m (arity_error bad nm) pre fill spec"
  using assms by (cases bad) (auto intro: key_commandI)

locale alternative =
  fixes get_if :: "cvalue \<Rightarrow> 'a option" and mk :: "'a \<Rightarrow> cvalue"
  assumes get_if_iff: "get_if v = Some x \<longleftrightarrow> v = mk x"
begin

lemma existing_implements:
  assumes f: "\<And>i x sh. P x \<Longrightarrow> value_ok (mk x) \<Longrightarrow>
      f i x sh = (fst (h x), case snd (h x) of None \<Rightarrow> sh | Some y \<Rightarrow> shard_assign i (mk y) sh)"
    and ok: "\<And>x y. value_ok (mk x) \<Longrightarrow> snd (h x) = Some y \<Longrightarrow> value_ok (mk y)"
  shows "implements hs k (slot_holds get_if P) (\<lambda>_. False)
    (bindS (find_typed hs clk k get_if) (\<lambda>l.
       case l of Missing \<Rightarrow> ret missing | Wrong_type \<Rightarrow> ret wrong_type | Holds i x \<Rightarrow> f i x))
    (spec_existing (clk 0) get_if mk missing h)"
proof (rule implementsI)
  fix sh
  assume inv: "shard_inv hs sh" and pre: "slot_holds get_if P (shard_abs sh k)"
  let ?body = "bindS (find_typed hs clk k get_if) (\<lambda>l.
       case l of Missing \<Rightarrow> ret missing | Wrong_type \<Rightarrow> ret wrong_type | Holds i x \<Rightarrow> f i x)"
  show "\<exists>r sh'. ?body sh = (r, sh') \<and> shard_inv hs sh' \<and> (\<forall>j. j \<noteq> k \<longrightarrow> shard_abs sh' j = shard_abs sh j) \<and>
      ((r, shard_abs sh' k) = spec_existing (clk 0) get_if mk missing h (shard_abs sh k) \<or>
       False \<and> r = Inl (Runtime_error ''HashMap is full'') \<and> shard_abs sh' k = None)"
    using inv
  proof (cases rule: ks.get_cases [where now = "clk 0" and k = k])
    case (miss sh')
    then show ?thesis
      by (simp add: find_typed_def spec_existing_def purge_slot del: shard_abs_None)
  next
    case (hit i sh' v e)
    have slot: "expire_slot (clk 0) (shard_abs sh k) = Some (v, e)" and abs: "shard_abs sh' = shard_abs sh"
      using hit(3,4) expire_slot_Some [of "clk 0" "shard_abs sh k"] by (auto simp: purge_slot)
    show ?thesis
    proof (cases "get_if v")
      case None
      with hit slot abs show ?thesis by (simp add: find_typed_def spec_existing_def expire_slot_Some)
    next
      case (Some x)
      then have v: "v = mk x" by (simp add: get_if_iff)
      have sk: "shard_abs sh k = Some (v, e)" using slot by (rule expire_slot_Some)
      with pre Some have "P x" by (auto simp: slot_holds_def)
      with hit v have body: "?body sh = (fst (h x), case snd (h x) of None \<Rightarrow> sh' | Some y \<Rightarrow> shard_assign i (mk y) sh')"
        using Some by (simp add: find_typed_def f)
      show ?thesis
      proof (cases "snd (h x)")
        case None
        with body hit(2) abs slot Some sk show ?thesis by (simp add: spec_existing_def)
      next
        case (Some y)
        have "shard_inv hs (shard_assign i (mk y) sh') \<and>
            shard_abs (shard_assign i (mk y) sh') = (shard_abs sh)(k \<mapsto> (mk y, e))"
          using ks.assign_law [OF inv hit(1), of v e "mk y"] ok Some hit(6) v abs sk by simp
        with body abs slot Some \<open>get_if v = Some x\<close> show ?thesis by (simp add: spec_existing_def)
      qed
    qed
  qed
qed

lemma upsert_implements:
  assumes f: "\<And>i x sh. value_ok (mk x) \<Longrightarrow> f i x sh = (fst (h x), shard_assign i (mk (snd (h x))) sh)"
    and ok: "\<And>x. value_ok (mk x) \<Longrightarrow> value_ok (mk (snd (h x)))" and fresh: "value_ok (mk fresh)"
  shows "implements hs k (\<lambda>_. True) (\<lambda>s. expire_slot (clk 0) s = None)
    (bindS (get_or_create hs clk k (mk fresh) get_if) (\<lambda>l.
       case l of None \<Rightarrow> ret wrong_type | Some (i, x) \<Rightarrow> f i x))
    (spec_upsert (clk 0) get_if mk fresh h)"
proof (rule implementsI)
  fix sh
  assume inv: "shard_inv hs sh"
  let ?full = "Runtime_error ''HashMap is full''"
  let ?body = "bindS (get_or_create hs clk k (mk fresh) get_if) (\<lambda>l.
       case l of None \<Rightarrow> ret wrong_type | Some (i, x) \<Rightarrow> f i x)"
  have refl: "get_if (mk x) = Some x" for x by (simp add: get_if_iff)
  show "\<exists>r sh'. ?body sh = (r, sh') \<and> shard_inv hs sh' \<and> (\<forall>j. j \<noteq> k \<longrightarrow> shard_abs sh' j = shard_abs sh j) \<and>
      ((r, shard_abs sh' k) = spec_upsert (clk 0) get_if mk fresh h (shard_abs sh k) \<or>
       expire_slot (clk 0) (shard_abs sh k) = None \<and> r = Inl ?full \<and> shard_abs sh' k = None)"
    using inv
  proof (cases rule: ks.get_cases [where now = "clk 0" and k = k])
    case (miss sh1)
    then have slot: "expire_slot (clk 0) (shard_abs sh k) = None" "shard_abs sh1 = (shard_abs sh)(k := None)"
      by (simp_all add: purge_slot)
    from ks.set_law [OF miss(2) fresh, of k] show ?thesis
    proof (elim disjE exE conjE)
      fix sh2
      assume s: "shard_set hs k (mk fresh) sh1 = (Inr (), sh2)"
      obtain i sh3 where g: "shard_get hs (clk 1) k sh2 = (Inr (Some i), sh3)" "shard_inv hs sh3"
        "shard_abs sh3 = (shard_abs sh1)(k \<mapsto> (mk fresh, None))" "shard_deref sh3 i = mk fresh"
        by (rule ks.set_then_get [OF miss(2) fresh s])
      have inv2: "shard_inv hs sh2" using ks.set_law [OF miss(2) fresh, of k] s by auto
      have "?body sh = (fst (h fresh), shard_assign i (mk (snd (h fresh))) sh3)"
        using miss(1) s g(1,4) refl by (simp add: get_or_create_def f [OF fresh])
      moreover have "shard_inv hs (shard_assign i (mk (snd (h fresh))) sh3) \<and>
          shard_abs (shard_assign i (mk (snd (h fresh))) sh3) = (shard_abs sh3)(k \<mapsto> (mk (snd (h fresh)), None))"
        using ks.assign_law [OF inv2 g(1) _ ok [OF fresh]] g(3) by simp
      ultimately show ?thesis using slot g(3) by (simp add: spec_upsert_def)
    next
      assume "shard_abs sh1 k = None" "shard_set hs k (mk fresh) sh1 = (Inl ?full, sh1)"
      with miss(1,2) slot have "?body sh = (Inl ?full, sh1)" by (simp add: get_or_create_def)
      with miss(2) slot show ?thesis by (simp del: shard_abs_None)
    qed
  next
    case (hit i sh' v e)
    have slot: "expire_slot (clk 0) (shard_abs sh k) = Some (v, e)" and abs: "shard_abs sh' = shard_abs sh"
      using hit(3,4) expire_slot_Some [of "clk 0" "shard_abs sh k"] by (auto simp: purge_slot)
    have sk: "shard_abs sh k = Some (v, e)" using slot by (rule expire_slot_Some)
    show ?thesis
    proof (cases "get_if v")
      case None
      with hit slot abs sk show ?thesis by (simp add: get_or_create_def spec_upsert_def)
    next
      case (Some x)
      then have v: "v = mk x" by (simp add: get_if_iff)
      have "?body sh = (fst (h x), shard_assign i (mk (snd (h x))) sh')"
        using hit v Some by (simp add: get_or_create_def f)
      moreover have "shard_inv hs (shard_assign i (mk (snd (h x))) sh') \<and>
          shard_abs (shard_assign i (mk (snd (h x))) sh') = (shard_abs sh)(k \<mapsto> (mk (snd (h x)), e))"
        using ks.assign_law [OF inv hit(1), of v e] ok [of x] hit(6) v abs sk by simp
      ultimately show ?thesis using abs slot Some by (simp add: spec_upsert_def)
    qed
  qed
qed

lemma existing_command:
  assumes m: "m = (if bad then ret (wrong_args nm) else keyed core conn args
      (bindS (find_typed hs clk (args ! 1) get_if) (\<lambda>l.
         case l of Missing \<Rightarrow> ret missing | Wrong_type \<Rightarrow> ret wrong_type | Holds i x \<Rightarrow> f i x)))"
    and f: "\<And>i x sh. \<not> bad \<Longrightarrow> P x \<Longrightarrow> value_ok (mk x) \<Longrightarrow>
      f i x sh = (fst (h x), case snd (h x) of None \<Rightarrow> sh | Some y \<Rightarrow> shard_assign i (mk y) sh)"
    and ok: "\<And>x y. value_ok (mk x) \<Longrightarrow> snd (h x) = Some y \<Longrightarrow> value_ok (mk y)"
  shows "key_command hs core conn args m (arity_error bad nm) (slot_holds get_if P) (\<lambda>_. False)
    (spec_existing (clk 0) get_if mk missing h)"
  by (rule key_command_arity [OF m existing_implements]) (erule (2) f, erule (1) ok)

lemma upsert_command:
  assumes m: "m = (if bad then ret (wrong_args nm) else keyed core conn args
      (bindS (get_or_create hs clk (args ! 1) (mk fresh) get_if) (\<lambda>l.
         case l of None \<Rightarrow> ret wrong_type | Some (i, x) \<Rightarrow> f i x)))"
    and f: "\<And>i x sh. \<not> bad \<Longrightarrow> value_ok (mk x) \<Longrightarrow>
      f i x sh = (fst (h x), shard_assign i (mk (snd (h x))) sh)"
    and ok: "\<And>x. value_ok (mk x) \<Longrightarrow> value_ok (mk (snd (h x)))" and fresh: "value_ok (mk fresh)"
  shows "key_command hs core conn args m (arity_error bad nm) (\<lambda>_. True)
    (\<lambda>s. expire_slot (clk 0) s = None) (spec_upsert (clk 0) get_if mk fresh h)"
  by (rule key_command_arity [OF m upsert_implements]) (erule (1) f, erule ok, rule fresh)

end

interpretation alt_string: alternative as_string VString
proof
  show "as_string v = Some x \<longleftrightarrow> v = VString x" for v x by (cases v) auto
qed

interpretation alt_list: alternative as_list VList
proof
  show "as_list v = Some x \<longleftrightarrow> v = VList x" for v x by (cases v) auto
qed

interpretation alt_set: alternative as_set VSet
proof
  show "as_set v = Some x \<longleftrightarrow> v = VSet x" for v x by (cases v) auto
qed

interpretation alt_hash: alternative as_hash VHash
proof
  show "as_hash v = Some x \<longleftrightarrow> v = VHash x" for v x by (cases v) auto
qed

interpretation alt_zset: alternative as_zset VZSet
proof
  show "as_zset v = Some x \<longleftrightarrow> v = VZSet x" for v x by (cases v) auto
qed

text \<open>A command executed by the core that owns its key changes the slot of the key.\<close>

lemma key_command_local:
  assumes kc: "key_command hs core conn args m None pre fill spec"
    and k: "args ! 1 = k" and inv: "topo_inv hs t" and own: "get_target_core t k = core"
    and pre: "pre (topo_db t k)"
  obtains r t' where "m t = (r, t')" "topo_inv hs t'" "num_cores t' = num_cores t"
    "channel_of t' = channel_of t" "fd_writes t' = fd_writes t" "notify_fds t' = notify_fds t"
    "\<forall>j. j \<noteq> k \<longrightarrow> topo_db t' j = topo_db t j"
    "(r, topo_db t' k) = spec (topo_db t k) \<or>
       fill (topo_db t k) \<and> r = Inl (Runtime_error ''HashMap is full'') \<and> topo_db t' k = None"
proof -
  obtain body where m: "m = keyed core conn args body" and imp: "implements hs k pre fill body spec"
    using kc k by (auto simp: key_command_def)
  have c: "core < num_cores t" using own target_in_range [OF inv] by blast
  have slot: "shard_abs (shards t ! core) k = topo_db t k" by (simp add: topo_db_def own)
  obtain r sh' where b: "body (shards t ! core) = (r, sh')" "shard_inv hs sh'"
    "\<And>j. j \<noteq> k \<Longrightarrow> shard_abs sh' j = shard_abs (shards t ! core) j"
    "(r, shard_abs sh' k) = spec (topo_db t k) \<or>
       fill (topo_db t k) \<and> r = Inl (Runtime_error ''HashMap is full'') \<and> shard_abs sh' k = None"
    using implementsD [OF imp topo_shard_inv [OF inv c]] pre unfolding slot by blast
  let ?t = "t\<lparr>shards := (shards t)[core := sh']\<rparr>"
  have "is_local t core (args ! 1)" unfolding k using own by (simp add: is_local_def get_target_core_def)
  then have run: "m t = (r, ?t)"
    using on_shard_apply [where m = body, OF inv c b(1)] by (simp add: m keyed_def)
  have upd: "topo_inv hs ?t" "topo_db ?t = (topo_db t)(k := shard_abs sh' k)"
    using topo_shard_update [OF inv own [symmetric] b(2,3)] by auto
  have ch: "channel_of ?t = channel_of t" by (simp add: channel_of_def fun_eq_iff)
  show ?thesis
    by (rule that [OF run upd(1) _ ch]) (use b(4) in \<open>simp_all add: upd(2) del: shard_abs_None\<close>)
qed

text \<open>On any other core it only queues a request for the owner, and wakes the owner up.\<close>

lemma key_command_remote:
  assumes kc: "key_command hs core conn args m None pre fill spec"
    and k: "args ! 1 = k" and inv: "topo_inv hs t"
    and other: "get_target_core t k = target" "target \<noteq> core"
  obtains t' where "m t = (Inr [], t')" "topo_inv hs t'" "topo_db t' = topo_db t" "num_cores t' = num_cores t"
    "channel_of t' = (channel_of t)(target := channel_of t target @ [request_message core conn args])"
    "fd_writes t' = fd_writes t @ (if 0 \<le> notify_fds t ! target then [notify_fds t ! target] else [])"
    "notify_fds t' = notify_fds t"
proof -
  obtain body where m: "m = keyed core conn args body" using kc by (auto simp: key_command_def)
  have c: "target < num_cores t" using other target_in_range [OF inv] by blast
  obtain t1 where t1: "push_channel target (request_message core conn args) t = (Inr (), t1)" "topo_inv hs t1"
    "topo_db t1 = topo_db t"
    "channel_of t1 = (channel_of t)(target := channel_of t target @ [request_message core conn args])"
    "fd_writes t1 = fd_writes t" "num_cores t1 = num_cores t" "notify_fds t1 = notify_fds t"
    by (rule push_channel_apply [OF inv c])
  obtain t2 where t2: "notify_core target t1 = (Inr (), t2)" "topo_inv hs t2" "topo_db t2 = topo_db t1"
    "channel_of t2 = channel_of t1" "num_cores t2 = num_cores t1" "notify_fds t2 = notify_fds t1"
    "fd_writes t2 = fd_writes t1 @ (if target < num_cores t1 \<and> 0 \<le> notify_fds t1 ! target
       then [notify_fds t1 ! target] else [])"
    by (rule notify_core_apply [OF t1(2)])
  have "\<not> is_local t core k" "get_target_core t k = target"
    using other by (simp_all add: is_local_def get_target_core_def)
  then have "m t = (Inr [], t2)"
    unfolding m keyed_def forward_request_def k Let_def using t1(1) t2(1) by simp
  then show ?thesis by (rule that) (use t1 t2 c in simp_all)
qed

end
