(* ===== verification/String_Commands.thy ===== *)
theory String_Commands
  imports Command_Base
begin

text \<open>
  SET, GET and DEL (\<open>src/commands/string_commands.hpp\<close>): the commands, their specifications as
  slot transitions, and that each command implements its specification.
\<close>

section \<open>Commands\<close>

definition set_command :: "(string \<Rightarrow> nat) \<Rightarrow> nat \<Rightarrow> 32 word \<Rightarrow> string list \<Rightarrow> (topology, string) st" where
  "set_command hs core conn args =
     (if length args \<noteq> 3 then ret (wrong_args ''set'')
      else keyed core conn args
        (bindS (shard_set hs (args ! 1) (VString (args ! 2))) (\<lambda>_. ret ok_reply)))"

definition get_command ::
    "(string \<Rightarrow> nat) \<Rightarrow> (nat \<Rightarrow> int) \<Rightarrow> nat \<Rightarrow> 32 word \<Rightarrow> string list \<Rightarrow> (topology, string) st" where
  "get_command hs clk core conn args =
     (if length args \<noteq> 2 then ret (wrong_args ''get'')
      else keyed core conn args
        (bindS (find_typed hs clk (args ! 1) as_string) (\<lambda>val.
           case val of
             Missing \<Rightarrow> ret null_bulk
           | Wrong_type \<Rightarrow> ret wrong_type
           | Holds i str_val \<Rightarrow> ret (bulk str_val))))"

definition del_command :: "(string \<Rightarrow> nat) \<Rightarrow> nat \<Rightarrow> 32 word \<Rightarrow> string list \<Rightarrow> (topology, string) st" where
  "del_command hs core conn args =
     (if length args \<noteq> 2 then ret (wrong_args ''del'')
      else keyed core conn args
        (bindS (shard_del hs (args ! 1)) (\<lambda>deleted. ret (int_reply (if deleted then 1 else 0)))))"

section \<open>Specifications\<close>

definition set_spec :: "string \<Rightarrow> (slot, string) st" where
  "set_spec v s = (Inr ok_reply, Some (VString v, None))"

definition get_spec :: "int \<Rightarrow> (slot, string) st" where
  "get_spec now = spec_existing now as_string VString null_bulk (\<lambda>v. (Inr (bulk v), None))"

definition del_spec :: "(slot, string) st" where
  "del_spec s = (Inr (int_reply (if s = None then 0 else 1)), None)"

section \<open>Refinement\<close>

lemma set_key_command:
  "key_command hs core conn args (set_command hs core conn args)
     (arity_error (length args \<noteq> 3) ''set'') (\<lambda>_. True) (\<lambda>s. s = None) (set_spec (args ! 2))"
proof (rule key_command_arity [OF set_command_def], rule implementsI)
  let ?k = "args ! 1" and ?v = "VString (args ! 2)"
  fix sh
  assume "shard_inv hs sh"
  then show "\<exists>r sh'. bindS (shard_set hs ?k ?v) (\<lambda>_. ret ok_reply) sh = (r, sh') \<and> shard_inv hs sh' \<and>
      (\<forall>j. j \<noteq> ?k \<longrightarrow> shard_abs sh' j = shard_abs sh j) \<and>
      ((r, shard_abs sh' ?k) = set_spec (args ! 2) (shard_abs sh ?k) \<or>
       shard_abs sh ?k = None \<and> r = Inl (Runtime_error ''HashMap is full'') \<and> shard_abs sh' ?k = None)"
    using ks.set_law [of hs sh ?v ?k] by (auto simp: set_spec_def value_ok_def)
qed

lemma get_key_command:
  "key_command hs core conn args (get_command hs clk core conn args)
     (arity_error (length args \<noteq> 2) ''get'') (slot_holds as_string (\<lambda>_. True)) (\<lambda>_. False)
     (get_spec (clk 0))"
  unfolding get_spec_def by (rule alt_string.existing_command [OF get_command_def]) simp_all

lemma del_key_command:
  "key_command hs core conn args (del_command hs core conn args)
     (arity_error (length args \<noteq> 2) ''del'') (\<lambda>_. True) (\<lambda>_. False) del_spec"
proof (rule key_command_arity [OF del_command_def], rule implementsI)
  let ?k = "args ! 1"
  let ?body = "bindS (shard_del hs ?k) (\<lambda>deleted. ret (int_reply (if deleted then 1 else 0)))"
  fix sh
  assume "shard_inv hs sh"
  then obtain sh' where "shard_del hs ?k sh = (Inr (shard_abs sh ?k \<noteq> None), sh')" "shard_inv hs sh'"
    "shard_abs sh' = (shard_abs sh)(?k := None)"
    using ks.del_law [of hs sh ?k] by blast
  then show "\<exists>r sh'. ?body sh = (r, sh') \<and> shard_inv hs sh' \<and>
      (\<forall>j. j \<noteq> ?k \<longrightarrow> shard_abs sh' j = shard_abs sh j) \<and>
      ((r, shard_abs sh' ?k) = del_spec (shard_abs sh ?k) \<or>
       False \<and> r = Inl (Runtime_error ''HashMap is full'') \<and> shard_abs sh' ?k = None)"
    by (intro exI conjI) (auto simp: del_spec_def simp del: shard_abs_None)
qed

end
