(* ===== verification/Generic_Commands.thy ===== *)
theory Generic_Commands
  imports Command_Base
begin

text \<open>
  EXPIRE and TTL (\<open>src/commands/generic_commands.hpp\<close>). \<open>clk 0\<close> is the clock reading of
  \<open>Shard::get\<close>, \<open>clk 1\<close> the one of the command itself. \<open>long\<close> and \<open>long long\<close> are 64 bits wide and
  signed overflow is undefined.
\<close>

section \<open>Commands\<close>

definition chk_i64 :: "int \<Rightarrow> fault + int" where
  "chk_i64 i = (if in_i64 i then Inr i else Inl Undefined_behaviour)"

text \<open>\<open>long long expiry = now + (seconds * 1000)\<close>.\<close>

definition expiry_time :: "int \<Rightarrow> int \<Rightarrow> fault + int" where
  "expiry_time now seconds =
     (case chk_i64 (seconds * 1000) of Inl f \<Rightarrow> Inl f | Inr ms \<Rightarrow> chk_i64 (now + ms))"

definition expire_command ::
    "(string \<Rightarrow> nat) \<Rightarrow> (nat \<Rightarrow> int) \<Rightarrow> nat \<Rightarrow> 32 word \<Rightarrow> string list \<Rightarrow> (topology, string) st" where
  "expire_command hs clk core conn args =
     (if length args \<noteq> 3 then ret (wrong_args ''expire'')
      else (case stol (args ! 2) of
              Inl _ \<Rightarrow> ret not_an_integer
            | Inr seconds \<Rightarrow>
                keyed core conn args
                  (bindS (shard_get hs (clk 0) (args ! 1)) (\<lambda>val.
                     case val of
                       None \<Rightarrow> ret (int_reply 0)
                     | Some _ \<Rightarrow>
                         (case expiry_time (clk 1) seconds of
                            Inl f \<Rightarrow> throw f
                          | Inr expiry \<Rightarrow> bindS (set_expiry (args ! 1) expiry) (\<lambda>_. ret (int_reply 1)))))))"

definition ttl_command ::
    "(string \<Rightarrow> nat) \<Rightarrow> (nat \<Rightarrow> int) \<Rightarrow> nat \<Rightarrow> 32 word \<Rightarrow> string list \<Rightarrow> (topology, string) st" where
  "ttl_command hs clk core conn args =
     (if length args \<noteq> 2 then ret (wrong_args ''ttl'')
      else keyed core conn args
        (bindS (shard_get hs (clk 0) (args ! 1)) (\<lambda>val.
           case val of
             None \<Rightarrow> ret (int_reply (- 2))
           | Some _ \<Rightarrow>
               bindS (getS (get_expiry (args ! 1))) (\<lambda>expiry.
                 if expiry = - 1 then ret (int_reply (- 1))
                 else (case chk_i64 (expiry - clk 1) of
                         Inl f \<Rightarrow> throw f
                       | Inr diff \<Rightarrow>
                           if diff < 0 then ret (int_reply (- 2))
                           else ret (int_reply (diff div 1000)))))))"

section \<open>Specifications\<close>

definition expire_error :: "string list \<Rightarrow> string option" where
  "expire_error args =
     (if length args \<noteq> 3 then Some (wrong_args ''expire'')
      else (case stol (args ! 2) of Inl _ \<Rightarrow> Some not_an_integer | Inr _ \<Rightarrow> None))"

definition expire_spec :: "(nat \<Rightarrow> int) \<Rightarrow> string \<Rightarrow> (slot, string) st" where
  "expire_spec clk arg s =
     (case expire_slot (clk 0) s of
        None \<Rightarrow> (Inr (int_reply 0), None)
      | Some (v, e) \<Rightarrow>
          (case stol arg of
             Inl f \<Rightarrow> (Inl f, Some (v, e))
           | Inr seconds \<Rightarrow>
               if in_i64 (seconds * 1000) \<and> in_i64 (clk 1 + seconds * 1000)
               then (Inr (int_reply 1), Some (v, Some (clk 1 + seconds * 1000)))
               else (Inl Undefined_behaviour, Some (v, e))))"

definition ttl_spec :: "(nat \<Rightarrow> int) \<Rightarrow> (slot, string) st" where
  "ttl_spec clk s =
     (case expire_slot (clk 0) s of
        None \<Rightarrow> (Inr (int_reply (- 2)), None)
      | Some (v, e) \<Rightarrow>
          ((case e of
              None \<Rightarrow> Inr (int_reply (- 1))
            | Some t \<Rightarrow>
                if t = - 1 then Inr (int_reply (- 1))
                else if \<not> in_i64 (t - clk 1) then Inl Undefined_behaviour
                else if t < clk 1 then Inr (int_reply (- 2))
                else Inr (int_reply ((t - clk 1) div 1000))), Some (v, e)))"

section \<open>Refinement\<close>

lemma chk_i64_simps [simp]:
  "in_i64 i \<Longrightarrow> chk_i64 i = Inr i" "\<not> in_i64 i \<Longrightarrow> chk_i64 i = Inl Undefined_behaviour"
  by (simp_all add: chk_i64_def)

text \<open>A body that looks the key up and goes on with \<open>g\<close> when it is there.\<close>

lemma get_implements:
  assumes miss: "\<And>s. expire_slot now s = None \<Longrightarrow> spec s = (Inr missing, None)"
    and hit: "\<And>sh v e. shard_inv hs sh \<Longrightarrow> shard_abs sh k = Some (v, e) \<Longrightarrow>
      expire_slot now (Some (v, e)) = Some (v, e) \<Longrightarrow>
      \<exists>r sh'. g sh = (r, sh') \<and> shard_inv hs sh' \<and> (\<forall>j. j \<noteq> k \<longrightarrow> shard_abs sh' j = shard_abs sh j) \<and>
        (r, shard_abs sh' k) = spec (Some (v, e))"
  shows "implements hs k (\<lambda>_. True) (\<lambda>_. False)
    (bindS (shard_get hs now k) (\<lambda>val. case val of None \<Rightarrow> ret missing | Some _ \<Rightarrow> g)) spec"
proof (rule implementsI)
  fix sh
  assume inv: "shard_inv hs sh"
  let ?body = "bindS (shard_get hs now k) (\<lambda>val. case val of None \<Rightarrow> ret missing | Some _ \<Rightarrow> g)"
  show "\<exists>r sh'. ?body sh = (r, sh') \<and> shard_inv hs sh' \<and> (\<forall>j. j \<noteq> k \<longrightarrow> shard_abs sh' j = shard_abs sh j) \<and>
      ((r, shard_abs sh' k) = spec (shard_abs sh k) \<or>
       False \<and> r = Inl (Runtime_error ''HashMap is full'') \<and> shard_abs sh' k = None)"
    using inv
  proof (cases rule: ks.get_cases [where now = now and k = k])
    case (miss sh')
    then show ?thesis using assms(1) [of "shard_abs sh k"] by (simp add: purge_slot del: shard_abs_None)
  next
    case (hit i sh' v e)
    have slot: "expire_slot now (shard_abs sh k) = Some (v, e)"
      using hit(4) by (simp add: purge_slot)
    then have sk: "shard_abs sh k = Some (v, e)" by (rule expire_slot_Some)
    then have abs: "shard_abs sh' = shard_abs sh" using hit(3) slot by (simp add: purge_slot fun_upd_idem)
    have ex: "expire_slot now (Some (v, e)) = Some (v, e)" using slot unfolding sk .
    have "shard_abs sh' k = Some (v, e)" using sk abs by simp
    from assms(2) [OF hit(2) this ex] hit(1) show ?thesis unfolding abs sk by auto
  qed
qed

lemma expire_key_command:
  "key_command hs core conn args (expire_command hs clk core conn args)
     (expire_error args) (\<lambda>_. True) (\<lambda>_. False) (expire_spec clk (args ! 2))"
proof (cases "stol (args ! 2)")
  case (Inl f)
  then show ?thesis by (simp add: key_command_def expire_command_def expire_error_def)
next
  case (Inr seconds)
  let ?k = "args ! 1"
  let ?g = "case expiry_time (clk 1) seconds of Inl f \<Rightarrow> throw f
    | Inr expiry \<Rightarrow> bindS (set_expiry ?k expiry) (\<lambda>_. ret (int_reply 1))"
  let ?t = "clk 1 + seconds * 1000"
  show ?thesis
  proof (rule key_commandI)
    show "expire_command hs clk core conn args =
        (case expire_error args of Some e \<Rightarrow> ret e | None \<Rightarrow> keyed core conn args
          (bindS (shard_get hs (clk 0) ?k) (\<lambda>val. case val of None \<Rightarrow> ret (int_reply 0) | Some _ \<Rightarrow> ?g)))"
      by (simp add: expire_command_def expire_error_def Inr)
  next
    show "implements hs ?k (\<lambda>_. True) (\<lambda>_. False)
        (bindS (shard_get hs (clk 0) ?k) (\<lambda>val. case val of None \<Rightarrow> ret (int_reply 0) | Some _ \<Rightarrow> ?g))
        (expire_spec clk (args ! 2))"
    proof (rule get_implements)
      fix sh v e
      assume sh: "shard_inv hs sh" "shard_abs sh ?k = Some (v, e)"
        and ex: "expire_slot (clk 0) (Some (v, e)) = Some (v, e)"
      obtain sh' where "set_expiry ?k ?t sh = (Inr (), sh')" "shard_inv hs sh'"
        "shard_abs sh' = (shard_abs sh)(?k \<mapsto> (v, Some ?t))"
        using ks.set_exp_law [OF sh] by blast
      with sh ex Inr show "\<exists>r sh'. ?g sh = (r, sh') \<and> shard_inv hs sh' \<and>
          (\<forall>j. j \<noteq> ?k \<longrightarrow> shard_abs sh' j = shard_abs sh j) \<and>
          (r, shard_abs sh' ?k) = expire_spec clk (args ! 2) (Some (v, e))"
        by (cases "in_i64 (seconds * 1000)"; cases "in_i64 ?t") (simp_all add: expiry_time_def expire_spec_def)
    qed (simp add: expire_spec_def)
  qed
qed

lemma ttl_key_command:
  "key_command hs core conn args (ttl_command hs clk core conn args)
     (arity_error (length args \<noteq> 2) ''ttl'') (\<lambda>_. True) (\<lambda>_. False) (ttl_spec clk)"
proof (rule key_command_arity [OF ttl_command_def], rule get_implements)
  let ?k = "args ! 1"
  let ?g = "bindS (getS (get_expiry ?k)) (\<lambda>expiry.
     if expiry = - 1 then ret (int_reply (- 1))
     else (case chk_i64 (expiry - clk 1) of
             Inl f \<Rightarrow> throw f
           | Inr diff \<Rightarrow> if diff < 0 then ret (int_reply (- 2)) else ret (int_reply (diff div 1000))))"
  fix sh v e
  assume sh: "shard_inv hs sh" "shard_abs sh ?k = Some (v, e)"
    and ex: "expire_slot (clk 0) (Some (v, e)) = Some (v, e)"
  have "expires sh ?k = e" using sh(2) by (simp add: shard_abs_Some)
  with sh ex show "\<exists>r sh'. ?g sh = (r, sh') \<and> shard_inv hs sh' \<and>
      (\<forall>j. j \<noteq> ?k \<longrightarrow> shard_abs sh' j = shard_abs sh j) \<and> (r, shard_abs sh' ?k) = ttl_spec clk (Some (v, e))"
    by (auto simp: get_expiry_def ttl_spec_def chk_i64_def split: option.splits)
qed (simp add: ttl_spec_def)

end
