(* ===== verification/Index_Range.thy ===== *)
theory Index_Range
  imports Command_Base
begin

text \<open>
  The index arithmetic LRANGE and ZRANGE share (the same lines in \<open>list_commands.hpp\<close> and
  \<open>zset_commands.hpp\<close>): indices are 32-bit signed integers, the container size is cast to one,
  negative indices count from the end. Signed overflow and an element access out of range are
  undefined behaviour; the lemmas show that neither happens for containers of fewer than 2^31
  elements, where the code computes \<open>index_slice\<close>.
\<close>

section \<open>The code\<close>

definition chk_i32 :: "int \<Rightarrow> fault + int" where
  "chk_i32 i = (if in_i32 i then Inr i else Inl Undefined_behaviour)"

definition bindE :: "fault + 'a \<Rightarrow> ('a \<Rightarrow> fault + 'b) \<Rightarrow> fault + 'b" where
  "bindE r f = (case r of Inl e \<Rightarrow> Inl e | Inr x \<Rightarrow> f x)"

lemma bindE_simps [simp]: "bindE (Inr x) f = f x" "bindE (Inl e) f = Inl e"
  by (simp_all add: bindE_def)

primrec mapE :: "('a \<Rightarrow> fault + 'b) \<Rightarrow> 'a list \<Rightarrow> fault + 'b list" where
  "mapE f [] = Inr []"
| "mapE f (x # xs) = bindE (f x) (\<lambda>y. bindE (mapE f xs) (\<lambda>ys. Inr (y # ys)))"

text \<open>\<open>static_cast<int>(size)\<close>.\<close>

definition int_size :: "nat \<Rightarrow> int" where
  "int_size n = sint (of_nat n :: 32 word)"

text \<open>None is the early return of an empty array.\<close>

definition range_window :: "nat \<Rightarrow> int \<Rightarrow> int \<Rightarrow> fault + (int \<times> int) option" where
  "range_window n start stop =
     (let size = int_size n in
      bindE (if start < 0 then chk_i32 (size + start) else Inr start) (\<lambda>start.
      bindE (if stop < 0 then chk_i32 (size + stop) else Inr stop) (\<lambda>stop.
        let start = (if start < 0 then 0 else start); stop = (if stop < 0 then 0 else stop) in
        if start \<ge> size then Inr None
        else
          bindE (if stop \<ge> size then chk_i32 (size - 1) else Inr stop) (\<lambda>stop.
            if start > stop then Inr None else Inr (Some (start, stop))))))"

definition elem_at :: "'a list \<Rightarrow> int \<Rightarrow> fault + 'a" where
  "elem_at xs i = (if 0 \<le> i \<and> nat i < length xs then Inr (xs ! nat i) else Inl Undefined_behaviour)"

text \<open>The loop over the window, with the element count of the header.\<close>

definition range_elems :: "'a list \<Rightarrow> int \<Rightarrow> int \<Rightarrow> fault + (int \<times> 'a list) option" where
  "range_elems xs start stop =
     bindE (range_window (length xs) start stop) (\<lambda>w.
       case w of
         None \<Rightarrow> Inr None
       | Some (a, b) \<Rightarrow>
           bindE (chk_i32 (b - a + 1)) (\<lambda>n.
           bindE (mapE (elem_at xs) [a .. b]) (\<lambda>es. Inr (Some (n, es)))))"

section \<open>The index_slice it computes\<close>

definition clamp_index :: "nat \<Rightarrow> int \<Rightarrow> nat" where
  "clamp_index n i = (if i < 0 then nat (int n + i) else nat i)"

definition index_slice :: "int \<Rightarrow> int \<Rightarrow> 'a list \<Rightarrow> 'a list" where
  "index_slice start stop xs =
     (let a = clamp_index (length xs) start; b = clamp_index (length xs) stop
      in take (Suc b - a) (drop a xs))"

lemma chk_i32_in [simp]: "in_i32 i \<Longrightarrow> chk_i32 i = Inr i"
  by (simp add: chk_i32_def)

lemma stoi_range: "stoi s = Inr i \<Longrightarrow> in_i32 i"
  by (auto simp: stoi_def split: option.splits if_splits)

lemma array_reply_Nil [simp]: "array_reply 0 [] = empty_array"
  by code_simp

lemma int_size_small: "n < 2 ^ 31 \<Longrightarrow> int_size n = int n"
proof -
  assume "n < 2 ^ 31"
  then have "int n < 2 ^ 31" by simp
  then show ?thesis
    by (simp add: int_size_def signed_of_nat signed_take_bit_int_eq_self)
qed

lemma range_window_small:
  assumes n: "n < 2 ^ 31" and i: "in_i32 start" "in_i32 stop"
  shows "range_window n start stop =
    (let a = int (clamp_index n start); b = min (int (clamp_index n stop)) (int n - 1)
     in Inr (if a \<ge> int n \<or> a > b then None else Some (a, b)))"
  using n i unfolding range_window_def int_size_small [OF n] clamp_index_def chk_i32_def in_i32_def Let_def
  by (auto simp: min_def)

lemma mapE_elem_at:
  assumes "a \<le> b" "b < length xs"
  shows "mapE (elem_at xs) [int a .. int b] = Inr (take (Suc b - a) (drop a xs))"
  using assms
proof (induction "b - a" arbitrary: a)
  case 0
  then have "a = b" "a < length xs" by simp_all
  then show ?case by (simp add: elem_at_def take_Suc_conv_app_nth upto_rec1 Cons_nth_drop_Suc [symmetric])
next
  case (Suc d)
  then have "a < b" "a < length xs" by simp_all
  moreover have "mapE (elem_at xs) [int (Suc a) .. int b] = Inr (take (Suc b - Suc a) (drop (Suc a) xs))"
    using Suc by (intro Suc.hyps(1)) auto
  ultimately show ?case
    by (simp add: elem_at_def upto_rec1 [of "int a"] add.commute Cons_nth_drop_Suc [symmetric] Suc_diff_le)
qed

lemma range_elems_small:
  assumes n: "length xs < 2 ^ 31" and i: "in_i32 start" "in_i32 stop"
  shows "range_elems xs start stop =
    Inr (if index_slice start stop xs = [] then None
         else Some (int (length (index_slice start stop xs)), index_slice start stop xs))"
proof -
  let ?n = "length xs"
  let ?a = "clamp_index ?n start" and ?c = "clamp_index ?n stop"
  define b where "b = min ?c (?n - 1)"
  show ?thesis
  proof (cases "?a \<ge> ?n \<or> ?a > ?c")
    case True
    then have "index_slice start stop xs = []" by (auto simp: index_slice_def Let_def)
    moreover have "range_window ?n start stop = Inr None"
      using True by (auto simp: range_window_small [OF assms] Let_def)
    ultimately show ?thesis by (simp add: range_elems_def)
  next
    case False
    then have b: "?a \<le> b" "b < ?n" by (auto simp: b_def)
    have "int b = min (int ?c) (int ?n - 1)" using False by (auto simp: b_def min_def)
    then have w: "range_window ?n start stop = Inr (Some (int ?a, int b))"
      using False b by (auto simp: range_window_small [OF assms] Let_def)
    have s: "index_slice start stop xs = take (Suc b - ?a) (drop ?a xs)"
      using False by (auto simp: index_slice_def Let_def b_def min_def)
    have l: "length (index_slice start stop xs) = Suc b - ?a" using b by (simp add: s)
    then have "int b - int ?a + 1 = int (length (index_slice start stop xs))" using b by simp
    moreover have "in_i32 (int (length (index_slice start stop xs)))"
      using l b n by (simp add: in_i32_def)
    moreover have "index_slice start stop xs \<noteq> []" using l b by auto
    ultimately show ?thesis using mapE_elem_at [OF b] by (simp add: range_elems_def w s)
  qed
qed

end
