(* ===== verification/List_Commands.thy ===== *)
theory List_Commands
  imports Index_Range
begin

text \<open>
  LPUSH, LPOP, LRANGE, RPUSH, RPOP and LLEN (\<open>src/commands/list_commands.hpp\<close>) on \<open>std::deque\<close>
  values, their specifications as slot transitions, and the refinement between the two.
\<close>

section \<open>Commands\<close>

definition lpush_command ::
    "(string \<Rightarrow> nat) \<Rightarrow> (nat \<Rightarrow> int) \<Rightarrow> nat \<Rightarrow> 32 word \<Rightarrow> string list \<Rightarrow> (topology, string) st" where
  "lpush_command hs clk core conn args =
     (if length args < 3 then ret (wrong_args ''lpush'')
      else keyed core conn args
        (bindS (get_or_create hs clk (args ! 1) (VList []) as_list) (\<lambda>l.
           case l of
             None \<Rightarrow> ret wrong_type
           | Some (i, list) \<Rightarrow>
               (let list' = fold (\<lambda>a list. a # list) (drop 2 args) list in
                bindS (store i (VList list')) (\<lambda>_. ret (int_reply (int (length list'))))))))"

definition lpop_command ::
    "(string \<Rightarrow> nat) \<Rightarrow> (nat \<Rightarrow> int) \<Rightarrow> nat \<Rightarrow> 32 word \<Rightarrow> string list \<Rightarrow> (topology, string) st" where
  "lpop_command hs clk core conn args =
     (if length args \<noteq> 2 then ret (wrong_args ''lpop'')
      else keyed core conn args
        (bindS (find_typed hs clk (args ! 1) as_list) (\<lambda>l.
           case l of
             Missing \<Rightarrow> ret null_bulk
           | Wrong_type \<Rightarrow> ret wrong_type
           | Holds i list \<Rightarrow>
               if list = [] then ret null_bulk
               else bindS (store i (VList (tl list))) (\<lambda>_. ret (bulk (hd list))))))"

definition lrange_reply :: "string list \<Rightarrow> string list \<Rightarrow> fault + string" where
  "lrange_reply args list =
     (case stoi (args ! 2) of
        Inl _ \<Rightarrow> Inr not_an_integer
      | Inr start \<Rightarrow>
          (case stoi (args ! 3) of
             Inl _ \<Rightarrow> Inr not_an_integer
           | Inr stop \<Rightarrow>
               bindE (range_elems list start stop) (\<lambda>r.
                 case r of None \<Rightarrow> Inr empty_array | Some (n, es) \<Rightarrow> Inr (array_reply n es))))"

definition lrange_command ::
    "(string \<Rightarrow> nat) \<Rightarrow> (nat \<Rightarrow> int) \<Rightarrow> nat \<Rightarrow> 32 word \<Rightarrow> string list \<Rightarrow> (topology, string) st" where
  "lrange_command hs clk core conn args =
     (if length args \<noteq> 4 then ret (wrong_args ''lrange'')
      else keyed core conn args
        (bindS (find_typed hs clk (args ! 1) as_list) (\<lambda>l.
           case l of
             Missing \<Rightarrow> ret empty_array
           | Wrong_type \<Rightarrow> ret wrong_type
           | Holds i list \<Rightarrow> (\<lambda>sh. (lrange_reply args list, sh)))))"

definition rpush_command ::
    "(string \<Rightarrow> nat) \<Rightarrow> (nat \<Rightarrow> int) \<Rightarrow> nat \<Rightarrow> 32 word \<Rightarrow> string list \<Rightarrow> (topology, string) st" where
  "rpush_command hs clk core conn args =
     (if length args < 3 then ret (wrong_args ''rpush'')
      else keyed core conn args
        (bindS (get_or_create hs clk (args ! 1) (VList []) as_list) (\<lambda>l.
           case l of
             None \<Rightarrow> ret wrong_type
           | Some (i, list) \<Rightarrow>
               (let list' = fold (\<lambda>a list. list @ [a]) (drop 2 args) list in
                bindS (store i (VList list')) (\<lambda>_. ret (int_reply (int (length list'))))))))"

definition rpop_command ::
    "(string \<Rightarrow> nat) \<Rightarrow> (nat \<Rightarrow> int) \<Rightarrow> nat \<Rightarrow> 32 word \<Rightarrow> string list \<Rightarrow> (topology, string) st" where
  "rpop_command hs clk core conn args =
     (if length args \<noteq> 2 then ret (wrong_args ''rpop'')
      else keyed core conn args
        (bindS (find_typed hs clk (args ! 1) as_list) (\<lambda>l.
           case l of
             Missing \<Rightarrow> ret null_bulk
           | Wrong_type \<Rightarrow> ret wrong_type
           | Holds i list \<Rightarrow>
               if list = [] then ret null_bulk
               else bindS (store i (VList (butlast list))) (\<lambda>_. ret (bulk (last list))))))"

definition llen_command ::
    "(string \<Rightarrow> nat) \<Rightarrow> (nat \<Rightarrow> int) \<Rightarrow> nat \<Rightarrow> 32 word \<Rightarrow> string list \<Rightarrow> (topology, string) st" where
  "llen_command hs clk core conn args =
     (if length args \<noteq> 2 then ret (wrong_args ''llen'')
      else keyed core conn args
        (bindS (find_typed hs clk (args ! 1) as_list) (\<lambda>l.
           case l of
             Missing \<Rightarrow> ret (int_reply 0)
           | Wrong_type \<Rightarrow> ret wrong_type
           | Holds i list \<Rightarrow> ret (int_reply (int (length list))))))"

section \<open>Specifications\<close>

definition lpush_spec :: "int \<Rightarrow> string list \<Rightarrow> (slot, string) st" where
  "lpush_spec now xs = spec_upsert now as_list VList []
     (\<lambda>list. (Inr (int_reply (int (length xs + length list))), rev xs @ list))"

definition rpush_spec :: "int \<Rightarrow> string list \<Rightarrow> (slot, string) st" where
  "rpush_spec now xs = spec_upsert now as_list VList []
     (\<lambda>list. (Inr (int_reply (int (length xs + length list))), list @ xs))"

definition lpop_spec :: "int \<Rightarrow> (slot, string) st" where
  "lpop_spec now = spec_existing now as_list VList null_bulk
     (\<lambda>list. case list of [] \<Rightarrow> (Inr null_bulk, None) | x # xs \<Rightarrow> (Inr (bulk x), Some xs))"

definition rpop_spec :: "int \<Rightarrow> (slot, string) st" where
  "rpop_spec now = spec_existing now as_list VList null_bulk
     (\<lambda>list. case rev list of [] \<Rightarrow> (Inr null_bulk, None) | x # xs \<Rightarrow> (Inr (bulk x), Some (rev xs)))"

definition llen_spec :: "int \<Rightarrow> (slot, string) st" where
  "llen_spec now = spec_existing now as_list VList (int_reply 0)
     (\<lambda>list. (Inr (int_reply (int (length list))), None))"

definition lrange_spec :: "int \<Rightarrow> string \<Rightarrow> string \<Rightarrow> (slot, string) st" where
  "lrange_spec now start stop = spec_existing now as_list VList empty_array
     (\<lambda>list. (case (stoi start, stoi stop) of
         (Inr a, Inr b) \<Rightarrow> Inr (array_reply (int (length (index_slice a b list))) (index_slice a b list))
       | _ \<Rightarrow> Inr not_an_integer, None))"

section \<open>Refinement\<close>

lemma push_front_all: "fold (\<lambda>a list. a # list) xs list = rev xs @ list"
  by (induction xs arbitrary: list) simp_all

lemma push_back_all: "fold (\<lambda>a list. list @ [a]) xs list = list @ xs"
  by (induction xs arbitrary: list) simp_all

lemma value_ok_simple [simp]: "value_ok (VString s)" "value_ok (VList list)"
  by (simp_all add: value_ok_def)

lemma lrange_reply_small:
  assumes "length list < 2 ^ 31"
  shows "lrange_reply args list =
    (case (stoi (args ! 2), stoi (args ! 3)) of
       (Inr a, Inr b) \<Rightarrow> Inr (array_reply (int (length (index_slice a b list))) (index_slice a b list))
     | _ \<Rightarrow> Inr not_an_integer)"
  using stoi_range [of "args ! 2"] stoi_range [of "args ! 3"]
  by (auto simp: lrange_reply_def range_elems_small [OF assms] split: sum.splits)

lemma lpush_key_command:
  "key_command hs core conn args (lpush_command hs clk core conn args)
     (arity_error (length args < 3) ''lpush'') (\<lambda>_. True) (\<lambda>s. expire_slot (clk 0) s = None)
     (lpush_spec (clk 0) (drop 2 args))"
  unfolding lpush_spec_def
  by (rule alt_list.upsert_command [OF lpush_command_def]) (simp_all add: push_front_all Let_def)

lemma rpush_key_command:
  "key_command hs core conn args (rpush_command hs clk core conn args)
     (arity_error (length args < 3) ''rpush'') (\<lambda>_. True) (\<lambda>s. expire_slot (clk 0) s = None)
     (rpush_spec (clk 0) (drop 2 args))"
  unfolding rpush_spec_def
  by (rule alt_list.upsert_command [OF rpush_command_def]) (simp_all add: push_back_all Let_def add.commute)

lemma lpop_key_command:
  "key_command hs core conn args (lpop_command hs clk core conn args)
     (arity_error (length args \<noteq> 2) ''lpop'') (slot_holds as_list (\<lambda>_. True)) (\<lambda>_. False) (lpop_spec (clk 0))"
  unfolding lpop_spec_def
  by (rule alt_list.existing_command [OF lpop_command_def]) (auto split: list.splits)

lemma rpop_key_command:
  "key_command hs core conn args (rpop_command hs clk core conn args)
     (arity_error (length args \<noteq> 2) ''rpop'') (slot_holds as_list (\<lambda>_. True)) (\<lambda>_. False) (rpop_spec (clk 0))"
  unfolding rpop_spec_def
proof (rule alt_list.existing_command [OF rpop_command_def])
  show "(if x = [] then ret null_bulk else bindS (store i (VList (butlast x))) (\<lambda>_. ret (bulk (last x)))) sh =
      (fst (case rev x of [] \<Rightarrow> (Inr null_bulk, None) | y # ys \<Rightarrow> (Inr (bulk y), Some (rev ys))),
       case snd (case rev x of [] \<Rightarrow> (Inr null_bulk, None) | y # ys \<Rightarrow> (Inr (bulk y), Some (rev ys))) of
         None \<Rightarrow> sh | Some y \<Rightarrow> shard_assign i (VList y) sh)" for i x sh
    by (cases x rule: rev_cases) simp_all
qed simp_all

lemma llen_key_command:
  "key_command hs core conn args (llen_command hs clk core conn args)
     (arity_error (length args \<noteq> 2) ''llen'') (slot_holds as_list (\<lambda>_. True)) (\<lambda>_. False) (llen_spec (clk 0))"
  unfolding llen_spec_def by (rule alt_list.existing_command [OF llen_command_def]) simp_all

lemma lrange_key_command:
  "key_command hs core conn args (lrange_command hs clk core conn args)
     (arity_error (length args \<noteq> 4) ''lrange'') (slot_holds as_list (\<lambda>list. length list < 2 ^ 31)) (\<lambda>_. False)
     (lrange_spec (clk 0) (args ! 2) (args ! 3))"
  unfolding lrange_spec_def
  by (rule alt_list.existing_command [OF lrange_command_def]) (simp_all add: lrange_reply_small)

end
