(* ===== verification/Set_Commands.thy ===== *)
theory Set_Commands
  imports Command_Base
begin

text \<open>
  SADD, SMEMBERS, SREM and SCARD (\<open>src/commands/set_commands.hpp\<close>) on \<open>std::set<std::string>\<close>
  values, kept as the strictly increasing list of their elements. The specifications are
  stated with finite sets: union, difference and cardinality.
\<close>

section \<open>Commands\<close>

definition sadd_loop :: "string list \<Rightarrow> string list \<Rightarrow> nat \<times> string list" where
  "sadd_loop members elems =
     fold (\<lambda>m (added, elems). case oset_insert (<) m elems of (elems', inserted) \<Rightarrow>
         (if inserted then added + 1 else added, elems'))
       members (0, elems)"

definition sadd_command ::
    "(string \<Rightarrow> nat) \<Rightarrow> (nat \<Rightarrow> int) \<Rightarrow> nat \<Rightarrow> 32 word \<Rightarrow> string list \<Rightarrow> (topology, string) st" where
  "sadd_command hs clk core conn args =
     (if length args < 3 then ret (wrong_args ''sadd'')
      else keyed core conn args
        (bindS (get_or_create hs clk (args ! 1) (VSet []) as_set) (\<lambda>l.
           case l of
             None \<Rightarrow> ret wrong_type
           | Some (i, elems) \<Rightarrow>
               (case sadd_loop (drop 2 args) elems of
                  (added, elems') \<Rightarrow> bindS (store i (VSet elems')) (\<lambda>_. ret (int_reply (int added)))))))"

definition smembers_command ::
    "(string \<Rightarrow> nat) \<Rightarrow> (nat \<Rightarrow> int) \<Rightarrow> nat \<Rightarrow> 32 word \<Rightarrow> string list \<Rightarrow> (topology, string) st" where
  "smembers_command hs clk core conn args =
     (if length args \<noteq> 2 then ret (wrong_args ''smembers'')
      else keyed core conn args
        (bindS (find_typed hs clk (args ! 1) as_set) (\<lambda>l.
           case l of
             Missing \<Rightarrow> ret empty_array
           | Wrong_type \<Rightarrow> ret wrong_type
           | Holds i elems \<Rightarrow> ret (array_reply (int (length elems)) elems))))"

definition srem_loop :: "string list \<Rightarrow> string list \<Rightarrow> nat \<times> string list" where
  "srem_loop members elems =
     fold (\<lambda>m (removed, elems). case oset_erase (<) m elems of (elems', erased) \<Rightarrow>
         (if erased then removed + 1 else removed, elems'))
       members (0, elems)"

definition srem_command ::
    "(string \<Rightarrow> nat) \<Rightarrow> (nat \<Rightarrow> int) \<Rightarrow> nat \<Rightarrow> 32 word \<Rightarrow> string list \<Rightarrow> (topology, string) st" where
  "srem_command hs clk core conn args =
     (if length args < 3 then ret (wrong_args ''srem'')
      else keyed core conn args
        (bindS (find_typed hs clk (args ! 1) as_set) (\<lambda>l.
           case l of
             Missing \<Rightarrow> ret (int_reply 0)
           | Wrong_type \<Rightarrow> ret wrong_type
           | Holds i elems \<Rightarrow>
               (case srem_loop (drop 2 args) elems of
                  (removed, elems') \<Rightarrow> bindS (store i (VSet elems')) (\<lambda>_. ret (int_reply (int removed)))))))"

definition scard_command ::
    "(string \<Rightarrow> nat) \<Rightarrow> (nat \<Rightarrow> int) \<Rightarrow> nat \<Rightarrow> 32 word \<Rightarrow> string list \<Rightarrow> (topology, string) st" where
  "scard_command hs clk core conn args =
     (if length args \<noteq> 2 then ret (wrong_args ''scard'')
      else keyed core conn args
        (bindS (find_typed hs clk (args ! 1) as_set) (\<lambda>l.
           case l of
             Missing \<Rightarrow> ret (int_reply 0)
           | Wrong_type \<Rightarrow> ret wrong_type
           | Holds i elems \<Rightarrow> ret (int_reply (int (length elems))))))"

section \<open>Specifications\<close>

definition sadd_spec :: "int \<Rightarrow> string list \<Rightarrow> (slot, string) st" where
  "sadd_spec now xs = spec_upsert now as_set VSet []
     (\<lambda>s. (Inr (int_reply (int (card (set xs - set s)))), sorted_list_of_set (set s \<union> set xs)))"

definition smembers_spec :: "int \<Rightarrow> (slot, string) st" where
  "smembers_spec now = spec_existing now as_set VSet empty_array
     (\<lambda>s. (Inr (array_reply (int (card (set s))) (sorted_list_of_set (set s))), None))"

definition srem_spec :: "int \<Rightarrow> string list \<Rightarrow> (slot, string) st" where
  "srem_spec now xs = spec_existing now as_set VSet (int_reply 0)
     (\<lambda>s. (Inr (int_reply (int (card (set s \<inter> set xs)))), Some (sorted_list_of_set (set s - set xs))))"

definition scard_spec :: "int \<Rightarrow> (slot, string) st" where
  "scard_spec now = spec_existing now as_set VSet (int_reply 0)
     (\<lambda>s. (Inr (int_reply (int (card (set s)))), None))"

section \<open>Refinement\<close>

lemma value_ok_VSet [simp]: "value_ok (VSet xs) \<longleftrightarrow> sorted_wrt (<) xs"
  by (simp add: value_ok_def)

lemma sorted_set_list: "sorted_wrt (<) xs \<Longrightarrow> sorted_list_of_set (set xs) = (xs :: string list)"
  by (simp add: strict_sorted_iff sorted_distinct_set_unique)

lemma sorted_set_card: "sorted_wrt (<) xs \<Longrightarrow> length (xs :: string list) = card (set xs)"
  by (simp add: strict_sorted_iff distinct_card)

lemma sadd_loop_spec:
  assumes "sorted_wrt (<) s"
  shows "sadd_loop xs s = (card (set xs - set s), sorted_list_of_set (set s \<union> set xs))"
proof -
  have "fold (\<lambda>m (added, elems). case oset_insert (<) m elems of (elems', inserted) \<Rightarrow>
         (if inserted then added + 1 else added, elems')) xs (n, s) =
      (n + card (set xs - set s), sorted_list_of_set (set s \<union> set xs))" for n
    using assms
  proof (induction xs arbitrary: n s)
    case Nil
    then show ?case by (simp add: sorted_set_list)
  next
    case (Cons x xs)
    obtain s' b where ins: "oset_insert (<) x s = (s', b)" by fastforce
    have s': "set s' = insert x (set s)" "sorted_wrt (<) s'" "b \<longleftrightarrow> x \<notin> set s"
      using less_set_insert [OF Cons.prems ins] by blast+
    have "set (x # xs) - set s = (if b then insert x (set xs - set s') else set xs - set s')"
      using s'(1,3) by auto
    then have "card (set (x # xs) - set s) = (if b then Suc (card (set xs - set s')) else card (set xs - set s'))"
      using s'(1) by auto
    moreover have "set s \<union> set (x # xs) = set s' \<union> set xs" using s'(1) by auto
    ultimately show ?case using Cons.IH [OF s'(2)] ins by simp
  qed
  from this [of 0] show ?thesis by (simp add: sadd_loop_def)
qed

lemma srem_loop_spec:
  assumes "sorted_wrt (<) s"
  shows "srem_loop xs s = (card (set s \<inter> set xs), sorted_list_of_set (set s - set xs))"
proof -
  have "fold (\<lambda>m (removed, elems). case oset_erase (<) m elems of (elems', erased) \<Rightarrow>
         (if erased then removed + 1 else removed, elems')) xs (n, s) =
      (n + card (set s \<inter> set xs), sorted_list_of_set (set s - set xs))" for n
    using assms
  proof (induction xs arbitrary: n s)
    case Nil
    then show ?case by (simp add: sorted_set_list)
  next
    case (Cons x xs)
    obtain s' b where er: "oset_erase (<) x s = (s', b)" by fastforce
    have s': "set s' = set s - {x}" "sorted_wrt (<) s'" "b \<longleftrightarrow> x \<in> set s"
      using less_set_erase [OF Cons.prems er] by blast+
    have "set s \<inter> set (x # xs) = (if b then insert x (set s' \<inter> set xs) else set s' \<inter> set xs)"
      using s'(1,3) by auto
    then have "card (set s \<inter> set (x # xs)) = (if b then Suc (card (set s' \<inter> set xs)) else card (set s' \<inter> set xs))"
      using s'(1) by auto
    moreover have "set s - set (x # xs) = set s' - set xs" using s'(1) by auto
    ultimately show ?case using Cons.IH [OF s'(2)] er by simp
  qed
  from this [of 0] show ?thesis by (simp add: srem_loop_def)
qed

lemma sadd_key_command:
  "key_command hs core conn args (sadd_command hs clk core conn args)
     (arity_error (length args < 3) ''sadd'') (\<lambda>_. True) (\<lambda>s. expire_slot (clk 0) s = None)
     (sadd_spec (clk 0) (drop 2 args))"
  unfolding sadd_spec_def
  by (rule alt_set.upsert_command [OF sadd_command_def]) (simp_all add: sadd_loop_spec)

lemma smembers_key_command:
  "key_command hs core conn args (smembers_command hs clk core conn args)
     (arity_error (length args \<noteq> 2) ''smembers'') (slot_holds as_set (\<lambda>_. True)) (\<lambda>_. False)
     (smembers_spec (clk 0))"
  unfolding smembers_spec_def
  by (rule alt_set.existing_command [OF smembers_command_def]) (simp_all add: sorted_set_list sorted_set_card)

lemma srem_key_command:
  "key_command hs core conn args (srem_command hs clk core conn args)
     (arity_error (length args < 3) ''srem'') (slot_holds as_set (\<lambda>_. True)) (\<lambda>_. False)
     (srem_spec (clk 0) (drop 2 args))"
  unfolding srem_spec_def
  by (rule alt_set.existing_command [OF srem_command_def]) (auto simp: srem_loop_spec)

lemma scard_key_command:
  "key_command hs core conn args (scard_command hs clk core conn args)
     (arity_error (length args \<noteq> 2) ''scard'') (slot_holds as_set (\<lambda>_. True)) (\<lambda>_. False)
     (scard_spec (clk 0))"
  unfolding scard_spec_def
  by (rule alt_set.existing_command [OF scard_command_def]) (simp_all add: sorted_set_card)

end
