(* ===== verification/Hash_Commands.thy ===== *)
theory Hash_Commands
  imports Command_Base
begin

text \<open>
  HSET, HGET, HGETALL, HDEL and HLEN (\<open>src/commands/hash_commands.hpp\<close>) on
  \<open>std::map<std::string, std::string>\<close> values, kept as the list of their entries in key order.
\<close>

section \<open>Commands\<close>

text \<open>The loop of HSET; reading \<open>args[i + 1]\<close> past the end is undefined.\<close>

fun hset_loop :: "string list \<Rightarrow> (string \<times> string) list \<Rightarrow> nat \<Rightarrow> (fault + nat) \<times> (string \<times> string) list" where
  "hset_loop (field # v # rest) h created =
     (case omap_find h field of
        None \<Rightarrow> hset_loop rest (omap_put h field v) (created + 1)
      | Some _ \<Rightarrow> hset_loop rest (omap_put h field v) created)"
| "hset_loop [field] h created = (Inl Undefined_behaviour, h)"
| "hset_loop [] h created = (Inr created, h)"

definition hset_command ::
    "(string \<Rightarrow> nat) \<Rightarrow> (nat \<Rightarrow> int) \<Rightarrow> nat \<Rightarrow> 32 word \<Rightarrow> string list \<Rightarrow> (topology, string) st" where
  "hset_command hs clk core conn args =
     (if length args < 4 \<or> length args mod 2 \<noteq> 0 then ret (wrong_args ''hset'')
      else keyed core conn args
        (bindS (get_or_create hs clk (args ! 1) (VHash []) as_hash) (\<lambda>l.
           case l of
             None \<Rightarrow> ret wrong_type
           | Some (i, h) \<Rightarrow>
               (case hset_loop (drop 2 args) h 0 of
                  (r, h') \<Rightarrow>
                    bindS (store i (VHash h')) (\<lambda>_.
                      case r of Inl f \<Rightarrow> throw f | Inr created \<Rightarrow> ret (int_reply (int created)))))))"

definition hget_command ::
    "(string \<Rightarrow> nat) \<Rightarrow> (nat \<Rightarrow> int) \<Rightarrow> nat \<Rightarrow> 32 word \<Rightarrow> string list \<Rightarrow> (topology, string) st" where
  "hget_command hs clk core conn args =
     (if length args \<noteq> 3 then ret (wrong_args ''hget'')
      else keyed core conn args
        (bindS (find_typed hs clk (args ! 1) as_hash) (\<lambda>l.
           case l of
             Missing \<Rightarrow> ret null_bulk
           | Wrong_type \<Rightarrow> ret wrong_type
           | Holds i h \<Rightarrow>
               (case omap_find h (args ! 2) of None \<Rightarrow> ret null_bulk | Some v \<Rightarrow> ret (bulk v)))))"

definition hgetall_command ::
    "(string \<Rightarrow> nat) \<Rightarrow> (nat \<Rightarrow> int) \<Rightarrow> nat \<Rightarrow> 32 word \<Rightarrow> string list \<Rightarrow> (topology, string) st" where
  "hgetall_command hs clk core conn args =
     (if length args \<noteq> 2 then ret (wrong_args ''hgetall'')
      else keyed core conn args
        (bindS (find_typed hs clk (args ! 1) as_hash) (\<lambda>l.
           case l of
             Missing \<Rightarrow> ret empty_array
           | Wrong_type \<Rightarrow> ret wrong_type
           | Holds i h \<Rightarrow> ret (array_reply (int (length h * 2)) (concat (map (\<lambda>(f, v). [f, v]) h))))))"

definition hdel_loop :: "string list \<Rightarrow> (string \<times> string) list \<Rightarrow> nat \<times> (string \<times> string) list" where
  "hdel_loop fs h =
     fold (\<lambda>f (removed, h). case omap_erase h f of (h', erased) \<Rightarrow>
         (if erased then removed + 1 else removed, h'))
       fs (0, h)"

definition hdel_command ::
    "(string \<Rightarrow> nat) \<Rightarrow> (nat \<Rightarrow> int) \<Rightarrow> nat \<Rightarrow> 32 word \<Rightarrow> string list \<Rightarrow> (topology, string) st" where
  "hdel_command hs clk core conn args =
     (if length args < 3 then ret (wrong_args ''hdel'')
      else keyed core conn args
        (bindS (find_typed hs clk (args ! 1) as_hash) (\<lambda>l.
           case l of
             Missing \<Rightarrow> ret (int_reply 0)
           | Wrong_type \<Rightarrow> ret wrong_type
           | Holds i h \<Rightarrow>
               (case hdel_loop (drop 2 args) h of
                  (removed, h') \<Rightarrow> bindS (store i (VHash h')) (\<lambda>_. ret (int_reply (int removed)))))))"

definition hlen_command ::
    "(string \<Rightarrow> nat) \<Rightarrow> (nat \<Rightarrow> int) \<Rightarrow> nat \<Rightarrow> 32 word \<Rightarrow> string list \<Rightarrow> (topology, string) st" where
  "hlen_command hs clk core conn args =
     (if length args \<noteq> 2 then ret (wrong_args ''hlen'')
      else keyed core conn args
        (bindS (find_typed hs clk (args ! 1) as_hash) (\<lambda>l.
           case l of
             Missing \<Rightarrow> ret (int_reply 0)
           | Wrong_type \<Rightarrow> ret wrong_type
           | Holds i h \<Rightarrow> ret (int_reply (int (length h))))))"

section \<open>Specifications\<close>

fun field_pairs :: "string list \<Rightarrow> (string \<times> string) list" where
  "field_pairs (f # v # rest) = (f, v) # field_pairs rest"
| "field_pairs _ = []"

abbreviation hash_fields :: "(string \<times> string) list \<Rightarrow> string set" where
  "hash_fields h \<equiv> fst ` set h"

definition hset_spec :: "int \<Rightarrow> (string \<times> string) list \<Rightarrow> (slot, string) st" where
  "hset_spec now fvs = spec_upsert now as_hash VHash []
     (\<lambda>h. (Inr (int_reply (int (card (hash_fields fvs - hash_fields h)))),
           fold (\<lambda>(f, v) h. omap_put h f v) fvs h))"

definition hget_spec :: "int \<Rightarrow> string \<Rightarrow> (slot, string) st" where
  "hget_spec now f = spec_existing now as_hash VHash null_bulk
     (\<lambda>h. (Inr (case map_of h f of None \<Rightarrow> null_bulk | Some v \<Rightarrow> bulk v), None))"

definition hgetall_spec :: "int \<Rightarrow> (slot, string) st" where
  "hgetall_spec now = spec_existing now as_hash VHash empty_array
     (\<lambda>h. (Inr (array_reply (2 * int (card (hash_fields h))) (concat (map (\<lambda>(f, v). [f, v]) h))), None))"

definition hdel_spec :: "int \<Rightarrow> string list \<Rightarrow> (slot, string) st" where
  "hdel_spec now fs = spec_existing now as_hash VHash (int_reply 0)
     (\<lambda>h. (Inr (int_reply (int (card (hash_fields h \<inter> set fs)))), Some (filter (\<lambda>(f, _). f \<notin> set fs) h)))"

definition hlen_spec :: "int \<Rightarrow> (slot, string) st" where
  "hlen_spec now = spec_existing now as_hash VHash (int_reply 0)
     (\<lambda>h. (Inr (int_reply (int (card (hash_fields h)))), None))"

section \<open>Refinement\<close>

lemma value_ok_VHash [simp]: "value_ok (VHash h) \<longleftrightarrow> omap_sorted h"
  by (simp add: value_ok_def)

lemma hash_length: "omap_sorted h \<Longrightarrow> length h = card (hash_fields h)"
proof -
  assume "omap_sorted h"
  then have "distinct (map fst h)" by (simp add: omap_sorted_def strict_sorted_iff)
  from distinct_card [OF this] show ?thesis by simp
qed

lemma hash_find_None: "omap_sorted h \<Longrightarrow> omap_find h f = None \<longleftrightarrow> f \<notin> hash_fields h"
  by (simp add: omap_find_map_of map_of_eq_None_iff)

lemma hset_loop_spec:
  assumes "omap_sorted h" "even (length xs)"
  shows "hset_loop xs h n =
    (Inr (n + card (hash_fields (field_pairs xs) - hash_fields h)),
     fold (\<lambda>(f, v) h. omap_put h f v) (field_pairs xs) h)"
  using assms
proof (induction xs h n rule: hset_loop.induct)
  case (1 f v rest h n)
  let ?h = "omap_put h f v" and ?A = "hash_fields (field_pairs rest)"
  have "hash_fields (field_pairs (f # v # rest)) - hash_fields h =
      (if f \<in> hash_fields h then ?A - hash_fields ?h else insert f (?A - hash_fields ?h))"
    by (auto simp: omap_keys_put)
  then have "card (hash_fields (field_pairs (f # v # rest)) - hash_fields h) =
      (if f \<in> hash_fields h then card (?A - hash_fields ?h) else Suc (card (?A - hash_fields ?h)))"
    by (auto simp: omap_keys_put)
  moreover have "omap_find h f = None \<longleftrightarrow> f \<notin> hash_fields h" using 1 by (simp add: hash_find_None)
  ultimately show ?case using 1 by (cases "omap_find h f") simp_all
qed simp_all

lemma hset_fold_sorted [simp]: "omap_sorted h \<Longrightarrow> omap_sorted (fold (\<lambda>(f, v) h. omap_put h f v) fvs h)"
  by (induction fvs arbitrary: h) auto

lemma omap_erase_filter: "omap_sorted h \<Longrightarrow> fst (omap_erase h f) = filter (\<lambda>(g, _). g \<noteq> f) h"
proof (induction h)
  case (Cons e h)
  obtain a w where [simp]: "e = (a, w)" by (cases e)
  have "f \<le> a \<Longrightarrow> filter (\<lambda>(g, _). g \<noteq> f) h = h"
    using Cons.prems by (force simp: filter_id_conv)
  with Cons show ?case by (cases f a rule: linorder_cases) (auto split: prod.splits)
qed simp

lemma hdel_loop_spec:
  assumes "omap_sorted h"
  shows "hdel_loop fs h = (card (hash_fields h \<inter> set fs), filter (\<lambda>(f, _). f \<notin> set fs) h)"
proof -
  have "fold (\<lambda>f (removed, h). case omap_erase h f of (h', erased) \<Rightarrow>
         (if erased then removed + 1 else removed, h')) fs (n, h) =
      (n + card (hash_fields h \<inter> set fs), filter (\<lambda>(f, _). f \<notin> set fs) h)" for n
    using assms
  proof (induction fs arbitrary: n h)
    case Nil
    then show ?case by (simp add: case_prod_beta)
  next
    case (Cons f fs)
    obtain h' b where er: "omap_erase h f = (h', b)" by fastforce
    have h': "h' = filter (\<lambda>(g, _). g \<noteq> f) h" "omap_sorted h'" "b \<longleftrightarrow> f \<in> hash_fields h"
      using omap_erase_filter [OF Cons.prems, of f] omap_sorted_erase [OF Cons.prems, of f]
        omap_erase_snd [of h f] hash_find_None [OF Cons.prems, of f] er by auto
    have fields: "hash_fields h' = hash_fields h - {f}" unfolding h'(1) by force
    have "hash_fields h \<inter> set (f # fs) =
        (if b then insert f (hash_fields h' \<inter> set fs) else hash_fields h' \<inter> set fs)"
      using fields h'(3) by auto
    then have "card (hash_fields h \<inter> set (f # fs)) =
        (if b then Suc (card (hash_fields h' \<inter> set fs)) else card (hash_fields h' \<inter> set fs))"
      using fields by auto
    moreover have "filter (\<lambda>(g, _). g \<notin> set (f # fs)) h = filter (\<lambda>(g, _). g \<notin> set fs) h'"
      unfolding h'(1) filter_filter by (rule filter_cong) auto
    ultimately show ?case using Cons.IH [OF h'(2)] er by simp
  qed
  from this [of 0] show ?thesis by (simp add: hdel_loop_def)
qed

lemma omap_sorted_filter: "omap_sorted h \<Longrightarrow> omap_sorted (filter P h)"
  by (induction h) (auto simp: omap_sorted_def)

lemma hset_key_command:
  "key_command hs core conn args (hset_command hs clk core conn args)
     (arity_error (length args < 4 \<or> length args mod 2 \<noteq> 0) ''hset'') (\<lambda>_. True)
     (\<lambda>s. expire_slot (clk 0) s = None) (hset_spec (clk 0) (field_pairs (drop 2 args)))"
  unfolding hset_spec_def
proof (rule alt_hash.upsert_command [OF hset_command_def])
  fix i h sh
  assume "\<not> (length args < 4 \<or> length args mod 2 \<noteq> 0)" and ok: "value_ok (VHash h)"
  then have "even (length (drop 2 args))" by auto
  with ok show "(case hset_loop (drop 2 args) h 0 of (r, h') \<Rightarrow>
        bindS (store i (VHash h')) (\<lambda>_. case r of Inl f \<Rightarrow> throw f | Inr c \<Rightarrow> ret (int_reply (int c)))) sh =
      (fst (Inr (int_reply (int (card (hash_fields (field_pairs (drop 2 args)) - hash_fields h)))),
            fold (\<lambda>(f, v) h. omap_put h f v) (field_pairs (drop 2 args)) h),
       shard_assign i (VHash (snd (Inr (int_reply (int (card (hash_fields (field_pairs (drop 2 args)) - hash_fields h)))) :: fault + string,
            fold (\<lambda>(f, v) h. omap_put h f v) (field_pairs (drop 2 args)) h))) sh)"
    by (simp add: hset_loop_spec)
qed simp_all

lemma hget_key_command:
  "key_command hs core conn args (hget_command hs clk core conn args)
     (arity_error (length args \<noteq> 3) ''hget'') (slot_holds as_hash (\<lambda>_. True)) (\<lambda>_. False)
     (hget_spec (clk 0) (args ! 2))"
  unfolding hget_spec_def
  by (rule alt_hash.existing_command [OF hget_command_def])
    (auto simp: omap_find_map_of split: option.splits)

lemma hgetall_key_command:
  "key_command hs core conn args (hgetall_command hs clk core conn args)
     (arity_error (length args \<noteq> 2) ''hgetall'') (slot_holds as_hash (\<lambda>_. True)) (\<lambda>_. False)
     (hgetall_spec (clk 0))"
  unfolding hgetall_spec_def
  by (rule alt_hash.existing_command [OF hgetall_command_def]) (simp_all add: hash_length mult.commute)

lemma hdel_key_command:
  "key_command hs core conn args (hdel_command hs clk core conn args)
     (arity_error (length args < 3) ''hdel'') (slot_holds as_hash (\<lambda>_. True)) (\<lambda>_. False)
     (hdel_spec (clk 0) (drop 2 args))"
  unfolding hdel_spec_def
  by (rule alt_hash.existing_command [OF hdel_command_def]) (auto simp: hdel_loop_spec omap_sorted_filter)

lemma hlen_key_command:
  "key_command hs core conn args (hlen_command hs clk core conn args)
     (arity_error (length args \<noteq> 2) ''hlen'') (slot_holds as_hash (\<lambda>_. True)) (\<lambda>_. False)
     (hlen_spec (clk 0))"
  unfolding hlen_spec_def
  by (rule alt_hash.existing_command [OF hlen_command_def]) (simp_all add: hash_length)

end
