(* ===== verification/Zset_Commands.thy ===== *)
theory Zset_Commands
  imports Index_Range
begin

text \<open>
  ZADD, ZRANGE, ZREM, ZCARD and ZSCORE (\<open>src/commands/zset_commands.hpp\<close>) on sorted sets.
  Scores are IEEE-754 doubles. Inserting a NaN into the tree breaks the strict weak order
  \<open>std::set\<close> requires of its comparison, which is undefined behaviour.
\<close>

section \<open>Commands\<close>

definition not_a_float :: string where
  "not_a_float = ''-ERR value is not a valid float'' @ crlf"

text \<open>
  The loop of ZADD: the reply, and the sorted set it leaves. An invalid score returns in the
  middle of the loop, after the pairs before it have been inserted.
\<close>

fun zadd_loop :: "string list \<Rightarrow> zset \<Rightarrow> nat \<Rightarrow> (fault + string) \<times> zset" where
  "zadd_loop (s # m # rest) z added =
     (case stod s of
        Inl _ \<Rightarrow> (Inr not_a_float, z)
      | Inr sc \<Rightarrow>
          (case dict z m of
             Some old \<Rightarrow>
               if dbl_eq old sc then zadd_loop rest z added
               else if is_nan sc then (Inl Undefined_behaviour, z)
               else zadd_loop rest (zset_insert \<lparr>score = sc, member = m\<rparr> z) added
           | None \<Rightarrow>
               if is_nan sc then (Inl Undefined_behaviour, z)
               else zadd_loop rest (zset_insert \<lparr>score = sc, member = m\<rparr> z) (added + 1)))"
| "zadd_loop [s] z added =
     (case stod s of Inl _ \<Rightarrow> (Inr not_a_float, z) | Inr _ \<Rightarrow> (Inl Undefined_behaviour, z))"
| "zadd_loop [] z added = (Inr (int_reply (int added)), z)"

definition zadd_command ::
    "(string \<Rightarrow> nat) \<Rightarrow> (nat \<Rightarrow> int) \<Rightarrow> nat \<Rightarrow> 32 word \<Rightarrow> string list \<Rightarrow> (topology, string) st" where
  "zadd_command hs clk core conn args =
     (if length args < 4 \<or> length args mod 2 \<noteq> 0 then ret (wrong_args ''zadd'')
      else keyed core conn args
        (bindS (get_or_create hs clk (args ! 1) (VZSet empty_zset) as_zset) (\<lambda>l.
           case l of
             None \<Rightarrow> ret wrong_type
           | Some (i, z) \<Rightarrow>
               (case zadd_loop (drop 2 args) z 0 of
                  (r, z') \<Rightarrow> bindS (store i (VZSet z')) (\<lambda>_ sh. (r, sh))))))"

text \<open>
  The text of a score: \<open>std::to_string\<close>, the trailing zeros erased, then a trailing period.
  \<open>back()\<close> of an empty string is undefined.
\<close>

definition score_text :: "double \<Rightarrow> fault + string" where
  "score_text d =
     (let s = rev (dropWhile (\<lambda>c. c = CHR ''0'') (rev (dbl_to_string d))) in
      if s = [] then Inl Undefined_behaviour
      else if last s = CHR ''.'' then Inr (butlast s) else Inr s)"

definition withscores :: "string list \<Rightarrow> bool" where
  "withscores args \<longleftrightarrow> length args > 4 \<and> to_upper (args ! 4) = ''WITHSCORES''"

definition zrange_entry :: "bool \<Rightarrow> zset_entry \<Rightarrow> fault + string" where
  "zrange_entry ws e =
     (if ws then bindE (score_text (score e)) (\<lambda>s. Inr (bulk (member e) @ bulk s))
      else Inr (bulk (member e)))"

definition zrange_reply :: "string list \<Rightarrow> zset_entry list \<Rightarrow> fault + string" where
  "zrange_reply args es =
     (case stoi (args ! 2) of
        Inl _ \<Rightarrow> Inr not_an_integer
      | Inr start \<Rightarrow>
          (case stoi (args ! 3) of
             Inl _ \<Rightarrow> Inr not_an_integer
           | Inr stop \<Rightarrow>
               bindE (range_elems es start stop) (\<lambda>r.
                 case r of
                   None \<Rightarrow> Inr empty_array
                 | Some (n, xs) \<Rightarrow>
                     bindE (chk_i32 (n * (if withscores args then 2 else 1))) (\<lambda>c.
                     bindE (mapE (zrange_entry (withscores args)) xs) (\<lambda>parts.
                       Inr (''*'' @ int_str c @ crlf @ concat parts))))))"

definition zrange_command ::
    "(string \<Rightarrow> nat) \<Rightarrow> (nat \<Rightarrow> int) \<Rightarrow> nat \<Rightarrow> 32 word \<Rightarrow> string list \<Rightarrow> (topology, string) st" where
  "zrange_command hs clk core conn args =
     (if length args < 4 then ret (wrong_args ''zrange'')
      else keyed core conn args
        (bindS (find_typed hs clk (args ! 1) as_zset) (\<lambda>l.
           case l of
             Missing \<Rightarrow> ret empty_array
           | Wrong_type \<Rightarrow> ret wrong_type
           | Holds i z \<Rightarrow> (\<lambda>sh. (zrange_reply args (tree z), sh)))))"

definition zrem_loop :: "string list \<Rightarrow> zset \<Rightarrow> nat \<times> zset" where
  "zrem_loop ms z =
     fold (\<lambda>m (removed, z). case zset_erase m z of (z', erased) \<Rightarrow>
         (if erased then removed + 1 else removed, z'))
       ms (0, z)"

definition zrem_command ::
    "(string \<Rightarrow> nat) \<Rightarrow> (nat \<Rightarrow> int) \<Rightarrow> nat \<Rightarrow> 32 word \<Rightarrow> string list \<Rightarrow> (topology, string) st" where
  "zrem_command hs clk core conn args =
     (if length args < 3 then ret (wrong_args ''zrem'')
      else keyed core conn args
        (bindS (find_typed hs clk (args ! 1) as_zset) (\<lambda>l.
           case l of
             Missing \<Rightarrow> ret (int_reply 0)
           | Wrong_type \<Rightarrow> ret wrong_type
           | Holds i z \<Rightarrow>
               (case zrem_loop (drop 2 args) z of
                  (removed, z') \<Rightarrow> bindS (store i (VZSet z')) (\<lambda>_. ret (int_reply (int removed)))))))"

definition zcard_command ::
    "(string \<Rightarrow> nat) \<Rightarrow> (nat \<Rightarrow> int) \<Rightarrow> nat \<Rightarrow> 32 word \<Rightarrow> string list \<Rightarrow> (topology, string) st" where
  "zcard_command hs clk core conn args =
     (if length args \<noteq> 2 then ret (wrong_args ''zcard'')
      else keyed core conn args
        (bindS (find_typed hs clk (args ! 1) as_zset) (\<lambda>l.
           case l of
             Missing \<Rightarrow> ret (int_reply 0)
           | Wrong_type \<Rightarrow> ret wrong_type
           | Holds i z \<Rightarrow> ret (int_reply (int (zset_size z))))))"

definition zscore_command ::
    "(string \<Rightarrow> nat) \<Rightarrow> (nat \<Rightarrow> int) \<Rightarrow> nat \<Rightarrow> 32 word \<Rightarrow> string list \<Rightarrow> (topology, string) st" where
  "zscore_command hs clk core conn args =
     (if length args \<noteq> 3 then ret (wrong_args ''zscore'')
      else keyed core conn args
        (bindS (find_typed hs clk (args ! 1) as_zset) (\<lambda>l.
           case l of
             Missing \<Rightarrow> ret null_bulk
           | Wrong_type \<Rightarrow> ret wrong_type
           | Holds i z \<Rightarrow>
               (case dict z (args ! 2) of
                  None \<Rightarrow> ret null_bulk
                | Some d \<Rightarrow> (case score_text d of Inl f \<Rightarrow> throw f | Inr s \<Rightarrow> ret (bulk s))))))"

section \<open>The text of a score is never empty\<close>

definition score_str :: "double \<Rightarrow> string" where
  "score_str d =
     (let s = rev (dropWhile (\<lambda>c. c = CHR ''0'') (rev (dbl_to_string d)))
      in if last s = CHR ''.'' then butlast s else s)"

lemma dbl_to_string_not_zeros: "\<exists>c \<in> set (dbl_to_string d). c \<noteq> CHR ''0''"
proof -
  have "CHR ''n'' \<in> set (dbl_to_string d) \<or> CHR ''.'' \<in> set (dbl_to_string d)"
    by (auto simp: dbl_to_string_def Let_def)
  then show ?thesis
  proof
    show ?thesis if "CHR ''n'' \<in> set (dbl_to_string d)" using that by (rule bexI [rotated]) simp
    show ?thesis if "CHR ''.'' \<in> set (dbl_to_string d)" using that by (rule bexI [rotated]) simp
  qed
qed

lemma score_text_str [simp]: "score_text d = Inr (score_str d)"
proof -
  have "dropWhile (\<lambda>c. c = CHR ''0'') (rev (dbl_to_string d)) \<noteq> []"
    using dbl_to_string_not_zeros [of d] by (auto simp: dropWhile_eq_Nil_conv)
  then show ?thesis by (simp add: score_text_def score_str_def Let_def)
qed

section \<open>Specifications\<close>

definition zadd_spec :: "int \<Rightarrow> string list \<Rightarrow> (slot, string) st" where
  "zadd_spec now xs = spec_upsert now as_zset VZSet empty_zset (\<lambda>z. zadd_loop xs z 0)"

definition zrange_parts :: "bool \<Rightarrow> zset_entry list \<Rightarrow> string list" where
  "zrange_parts ws es = concat (map (\<lambda>e. member e # (if ws then [score_str (score e)] else [])) es)"

definition zrange_spec :: "int \<Rightarrow> string \<Rightarrow> string \<Rightarrow> bool \<Rightarrow> (slot, string) st" where
  "zrange_spec now start stop ws = spec_existing now as_zset VZSet empty_array
     (\<lambda>z. (case (stoi start, stoi stop) of
         (Inr a, Inr b) \<Rightarrow>
           (let parts = zrange_parts ws (index_slice a b (tree z))
            in Inr (array_reply (int (length parts)) parts))
       | _ \<Rightarrow> Inr not_an_integer, None))"

definition zrem_spec :: "int \<Rightarrow> string list \<Rightarrow> (slot, string) st" where
  "zrem_spec now ms = spec_existing now as_zset VZSet (int_reply 0)
     (\<lambda>z. (Inr (int_reply (int (card (dom (dict z) \<inter> set ms)))), Some (fold (\<lambda>m z. fst (zset_erase m z)) ms z)))"

definition zcard_spec :: "int \<Rightarrow> (slot, string) st" where
  "zcard_spec now = spec_existing now as_zset VZSet (int_reply 0)
     (\<lambda>z. (Inr (int_reply (int (card (dom (dict z))))), None))"

definition zscore_spec :: "int \<Rightarrow> string \<Rightarrow> (slot, string) st" where
  "zscore_spec now m = spec_existing now as_zset VZSet null_bulk
     (\<lambda>z. (Inr (case dict z m of None \<Rightarrow> null_bulk | Some d \<Rightarrow> bulk (score_str d)), None))"

section \<open>Refinement\<close>

lemma value_ok_VZSet [simp]: "value_ok (VZSet z) \<longleftrightarrow> zset_inv z"
  by (simp add: value_ok_def)

lemma zset_inv_insert_score:
  "zset_inv z \<Longrightarrow> \<not> is_nan s \<Longrightarrow> zset_inv (zset_insert \<lparr>score = s, member = m\<rparr> z)"
  by (rule zset_inv_insert) (simp_all add: entry_ok_def)

lemma zadd_loop_inv: "zset_inv z \<Longrightarrow> zset_inv (snd (zadd_loop xs z n))"
  by (induction xs z n rule: zadd_loop.induct)
    (simp_all add: zset_inv_insert_score split: sum.splits option.splits)

lemma zset_dom_finite: "zset_inv z \<Longrightarrow> finite (dom (dict z))"
proof -
  assume inv: "zset_inv z"
  have "dom (dict z) \<subseteq> member ` set (tree z)" using zset_invD(3) [OF inv] by force
  then show ?thesis by (rule finite_subset) simp
qed

lemma zrem_loop_spec:
  assumes "zset_inv z"
  shows "zrem_loop ms z = (card (dom (dict z) \<inter> set ms), fold (\<lambda>m z. fst (zset_erase m z)) ms z)"
proof -
  have "fold (\<lambda>m (removed, z). case zset_erase m z of (z', erased) \<Rightarrow>
         (if erased then removed + 1 else removed, z')) ms (n, z) =
      (n + card (dom (dict z) \<inter> set ms), fold (\<lambda>m z. fst (zset_erase m z)) ms z)" for n
    using assms
  proof (induction ms arbitrary: n z)
    case (Cons m ms)
    obtain z' b where er: "zset_erase m z = (z', b)" by fastforce
    have z': "zset_inv z'" "dom (dict z') = dom (dict z) - {m}" "b \<longleftrightarrow> m \<in> dom (dict z)"
      using zset_inv_erase [OF Cons.prems, of m] dict_zset_erase [of m z] snd_zset_erase [of m z] er by auto
    have "dom (dict z) \<inter> set (m # ms) =
        (if b then insert m (dom (dict z') \<inter> set ms) else dom (dict z') \<inter> set ms)"
      using z' by auto
    then have "card (dom (dict z) \<inter> set (m # ms)) =
        (if b then Suc (card (dom (dict z') \<inter> set ms)) else card (dom (dict z') \<inter> set ms))"
      using z'(2) by auto
    then show ?case using Cons.IH [OF z'(1)] er by simp
  qed simp
  from this [of 0] show ?thesis by (simp add: zrem_loop_def)
qed

lemma zrem_fold_inv: "zset_inv z \<Longrightarrow> zset_inv (fold (\<lambda>m z. fst (zset_erase m z)) ms z)"
  by (induction ms arbitrary: z) (simp_all add: zset_inv_erase)

lemma zrange_entries:
  "mapE (zrange_entry ws) es = Inr (map (\<lambda>e. concat (map bulk (zrange_parts ws [e]))) es)"
  by (induction es) (simp_all add: zrange_entry_def zrange_parts_def)

lemma zrange_parts_length: "length (zrange_parts ws es) = length es * (if ws then 2 else 1)"
  by (induction es) (simp_all add: zrange_parts_def)

lemma zrange_parts_bulk:
  "concat (map (\<lambda>e. concat (map bulk (zrange_parts ws [e]))) es) = concat (map bulk (zrange_parts ws es))"
  by (induction es) (simp_all add: zrange_parts_def)

lemma zrange_reply_small:
  assumes "length es < 2 ^ 30"
  shows "zrange_reply args es =
    (case (stoi (args ! 2), stoi (args ! 3)) of
       (Inr a, Inr b) \<Rightarrow>
         (let parts = zrange_parts (withscores args) (index_slice a b es)
          in Inr (array_reply (int (length parts)) parts))
     | _ \<Rightarrow> Inr not_an_integer)"
proof (cases "stoi (args ! 2)"; cases "stoi (args ! 3)")
  fix a b
  assume ab: "stoi (args ! 2) = Inr a" "stoi (args ! 3) = Inr b"
  let ?s = "index_slice a b es" and ?ws = "withscores args"
  have e: "range_elems es a b = Inr (if ?s = [] then None else Some (int (length ?s), ?s))"
    using assms stoi_range [OF ab(1)] stoi_range [OF ab(2)] by (intro range_elems_small) simp_all
  have "length ?s \<le> length es" by (simp add: index_slice_def Let_def)
  then have "in_i32 (int (length ?s) * (if ?ws then 2 else 1))" using assms by (simp add: in_i32_def)
  moreover have "zrange_parts ?ws [] = []" by (simp add: zrange_parts_def)
  ultimately show ?thesis
  proof (cases "?s = []")
    case False
    with \<open>in_i32 _\<close> e ab show ?thesis
      by (simp add: zrange_reply_def zrange_entries zrange_parts_length zrange_parts_bulk array_reply_def)
  qed (simp add: zrange_reply_def e ab)
qed (simp_all add: zrange_reply_def)

lemma zadd_key_command:
  "key_command hs core conn args (zadd_command hs clk core conn args)
     (arity_error (length args < 4 \<or> length args mod 2 \<noteq> 0) ''zadd'') (\<lambda>_. True)
     (\<lambda>s. expire_slot (clk 0) s = None) (zadd_spec (clk 0) (drop 2 args))"
  unfolding zadd_spec_def
  by (rule alt_zset.upsert_command [OF zadd_command_def]) (auto simp: zadd_loop_inv split: prod.splits)

lemma zrange_key_command:
  "key_command hs core conn args (zrange_command hs clk core conn args)
     (arity_error (length args < 4) ''zrange'') (slot_holds as_zset (\<lambda>z. length (tree z) < 2 ^ 30)) (\<lambda>_. False)
     (zrange_spec (clk 0) (args ! 2) (args ! 3) (withscores args))"
  unfolding zrange_spec_def
  by (rule alt_zset.existing_command [OF zrange_command_def]) (simp_all add: zrange_reply_small)

lemma zrem_key_command:
  "key_command hs core conn args (zrem_command hs clk core conn args)
     (arity_error (length args < 3) ''zrem'') (slot_holds as_zset (\<lambda>_. True)) (\<lambda>_. False)
     (zrem_spec (clk 0) (drop 2 args))"
  unfolding zrem_spec_def
  by (rule alt_zset.existing_command [OF zrem_command_def]) (auto simp: zrem_loop_spec zrem_fold_inv)

lemma zcard_key_command:
  "key_command hs core conn args (zcard_command hs clk core conn args)
     (arity_error (length args \<noteq> 2) ''zcard'') (slot_holds as_zset (\<lambda>_. True)) (\<lambda>_. False)
     (zcard_spec (clk 0))"
  unfolding zcard_spec_def
  by (rule alt_zset.existing_command [OF zcard_command_def]) (simp_all add: zset_size_card)

lemma zscore_key_command:
  "key_command hs core conn args (zscore_command hs clk core conn args)
     (arity_error (length args \<noteq> 3) ''zscore'') (slot_holds as_zset (\<lambda>_. True)) (\<lambda>_. False)
     (zscore_spec (clk 0) (args ! 2))"
  unfolding zscore_spec_def
  by (rule alt_zset.existing_command [OF zscore_command_def]) (auto split: option.splits)

end
