(* ===== verification/Registry.thy ===== *)
theory Registry
  imports String_Commands Generic_Commands List_Commands Set_Commands Hash_Commands Zset_Commands Rdb
begin

text \<open>
  SAVE (\<open>src/commands/admin_commands.hpp\<close>), the command registry (\<open>src/commands/registry.hpp\<close>)
  with the commands \<open>main\<close> registers, and the virtual dispatch of \<open>Command::execute\<close>. The state
  is a \<open>node\<close>: the topology and the files. Whether a path can be opened for writing is a
  parameter, the operating system decides it.

  \<open>command_spec\<close> collects the specifications of the command theories. The properties state, for
  every registered command with a key, what executing it does to the database of the node.
\<close>

section \<open>SAVE\<close>

record node =
  topo :: topology
  files :: "string \<rightharpoonup> string"

definition on_topo :: "(topology, 'a) st \<Rightarrow> (node, 'a) st" where
  "on_topo m = zoom topo (\<lambda>t nd. nd\<lparr>topo := t\<rparr>) m"

definition dump_path :: string where
  "dump_path = ''data/dump.rdb''"

text \<open>What has been written when \<open>get_shard\<close> throws.\<close>

definition rdb_prefix :: "topology \<Rightarrow> string" where
  "rdb_prefix t = RDB_MAGIC @ le_bytes 4 RDB_VERSION @ concat (map save_shard (shards t))"

definition save_command :: "(string \<Rightarrow> bool) \<Rightarrow> (node, string) st" where
  "save_command writable = (\<lambda>nd.
     if \<not> writable dump_path then (Inr (''-ERR failed to save'' @ crlf), nd)
     else
       (case rdb_save (topo nd) of
          Inl f \<Rightarrow> (Inl f, nd\<lparr>files := (files nd)(dump_path \<mapsto> rdb_prefix (topo nd))\<rparr>)
        | Inr bytes \<Rightarrow> (Inr ok_reply, nd\<lparr>files := (files nd)(dump_path \<mapsto> bytes)\<rparr>)))"

section \<open>Commands and registry\<close>

datatype command =
    SetCommand | GetCommand | DelCommand
  | LPushCommand | LPopCommand | LRangeCommand | RPushCommand | RPopCommand | LLenCommand
  | SAddCommand | SMembersCommand | SCardCommand | SRemCommand
  | HSetCommand | HGetCommand | HGetAllCommand | HDelCommand | HLenCommand
  | ZAddCommand | ZRangeCommand | ZRemCommand | ZCardCommand | ZScoreCommand
  | ExpireCommand | TtlCommand | SaveCommand

fun command_name :: "command \<Rightarrow> string" where
  "command_name SetCommand = ''SET''"
| "command_name GetCommand = ''GET''"
| "command_name DelCommand = ''DEL''"
| "command_name LPushCommand = ''LPUSH''"
| "command_name LPopCommand = ''LPOP''"
| "command_name LRangeCommand = ''LRANGE''"
| "command_name RPushCommand = ''RPUSH''"
| "command_name RPopCommand = ''RPOP''"
| "command_name LLenCommand = ''LLEN''"
| "command_name SAddCommand = ''SADD''"
| "command_name SMembersCommand = ''SMEMBERS''"
| "command_name SCardCommand = ''SCARD''"
| "command_name SRemCommand = ''SREM''"
| "command_name HSetCommand = ''HSET''"
| "command_name HGetCommand = ''HGET''"
| "command_name HGetAllCommand = ''HGETALL''"
| "command_name HDelCommand = ''HDEL''"
| "command_name HLenCommand = ''HLEN''"
| "command_name ZAddCommand = ''ZADD''"
| "command_name ZRangeCommand = ''ZRANGE''"
| "command_name ZRemCommand = ''ZREM''"
| "command_name ZCardCommand = ''ZCARD''"
| "command_name ZScoreCommand = ''ZSCORE''"
| "command_name ExpireCommand = ''EXPIRE''"
| "command_name TtlCommand = ''TTL''"
| "command_name SaveCommand = ''SAVE''"

type_synonym registry = "string \<rightharpoonup> command"

definition register_command :: "command \<Rightarrow> registry \<Rightarrow> registry" where
  "register_command c r = r(command_name c \<mapsto> c)"

definition get_registered :: "registry \<Rightarrow> string \<Rightarrow> command option" where
  "get_registered r nm = r nm"

text \<open>The registrations of \<open>main\<close>, in order.\<close>

definition registered_commands :: "command list" where
  "registered_commands =
     [SetCommand, GetCommand, DelCommand,
      LPushCommand, LPopCommand, LRangeCommand, RPushCommand, RPopCommand, LLenCommand,
      SAddCommand, SMembersCommand, SCardCommand, SRemCommand,
      HSetCommand, HGetCommand, HGetAllCommand, HDelCommand, HLenCommand,
      ZAddCommand, ZRangeCommand, ZRemCommand, ZCardCommand, ZScoreCommand,
      ExpireCommand, TtlCommand, SaveCommand]"

definition main_registry :: registry where
  "main_registry = fold register_command registered_commands Map.empty"

text \<open>\<open>cmd->execute(topology, core_id, conn_id, args)\<close>.\<close>

fun execute ::
    "(string \<Rightarrow> nat) \<Rightarrow> (string \<Rightarrow> bool) \<Rightarrow> (nat \<Rightarrow> int) \<Rightarrow> command \<Rightarrow> nat \<Rightarrow> 32 word \<Rightarrow> string list \<Rightarrow>
     (node, string) st" where
  "execute hs wr clk SetCommand core conn args = on_topo (set_command hs core conn args)"
| "execute hs wr clk GetCommand core conn args = on_topo (get_command hs clk core conn args)"
| "execute hs wr clk DelCommand core conn args = on_topo (del_command hs core conn args)"
| "execute hs wr clk LPushCommand core conn args = on_topo (lpush_command hs clk core conn args)"
| "execute hs wr clk LPopCommand core conn args = on_topo (lpop_command hs clk core conn args)"
| "execute hs wr clk LRangeCommand core conn args = on_topo (lrange_command hs clk core conn args)"
| "execute hs wr clk RPushCommand core conn args = on_topo (rpush_command hs clk core conn args)"
| "execute hs wr clk RPopCommand core conn args = on_topo (rpop_command hs clk core conn args)"
| "execute hs wr clk LLenCommand core conn args = on_topo (llen_command hs clk core conn args)"
| "execute hs wr clk SAddCommand core conn args = on_topo (sadd_command hs clk core conn args)"
| "execute hs wr clk SMembersCommand core conn args = on_topo (smembers_command hs clk core conn args)"
| "execute hs wr clk SCardCommand core conn args = on_topo (scard_command hs clk core conn args)"
| "execute hs wr clk SRemCommand core conn args = on_topo (srem_command hs clk core conn args)"
| "execute hs wr clk HSetCommand core conn args = on_topo (hset_command hs clk core conn args)"
| "execute hs wr clk HGetCommand core conn args = on_topo (hget_command hs clk core conn args)"
| "execute hs wr clk HGetAllCommand core conn args = on_topo (hgetall_command hs clk core conn args)"
| "execute hs wr clk HDelCommand core conn args = on_topo (hdel_command hs clk core conn args)"
| "execute hs wr clk HLenCommand core conn args = on_topo (hlen_command hs clk core conn args)"
| "execute hs wr clk ZAddCommand core conn args = on_topo (zadd_command hs clk core conn args)"
| "execute hs wr clk ZRangeCommand core conn args = on_topo (zrange_command hs clk core conn args)"
| "execute hs wr clk ZRemCommand core conn args = on_topo (zrem_command hs clk core conn args)"
| "execute hs wr clk ZCardCommand core conn args = on_topo (zcard_command hs clk core conn args)"
| "execute hs wr clk ZScoreCommand core conn args = on_topo (zscore_command hs clk core conn args)"
| "execute hs wr clk ExpireCommand core conn args = on_topo (expire_command hs clk core conn args)"
| "execute hs wr clk TtlCommand core conn args = on_topo (ttl_command hs clk core conn args)"
| "execute hs wr clk SaveCommand core conn args = save_command wr"

lemma registered_distinct: "distinct (map command_name registered_commands)"
  by code_simp

lemma register_apply:
  "register_command c r (command_name c) = Some c"
  "nm \<noteq> command_name c \<Longrightarrow> register_command c r nm = r nm"
  by (simp_all add: register_command_def)

lemma fold_register:
  assumes "distinct (map command_name cs)" "c \<in> set cs"
  shows "fold register_command cs r (command_name c) = Some c"
proof -
  have other: "fold register_command ds r nm = r nm" if "nm \<notin> command_name ` set ds" for ds r nm
    using that by (induction ds arbitrary: r) (auto simp: register_apply)
  show ?thesis
    using assms
  proof (induction cs arbitrary: r)
    case (Cons d cs)
    then show ?case
      using other [of "command_name d" cs "register_command d r"] by (auto simp: register_apply)
  qed simp
qed

lemma registered_all: "c \<in> set registered_commands"
  by (cases c) (simp_all add: registered_commands_def)

lemma main_registry_name [simp]: "main_registry (command_name c) = Some c"
  unfolding main_registry_def by (rule fold_register [OF registered_distinct registered_all])

section \<open>Specifications of all commands\<close>

fun command_error :: "command \<Rightarrow> string list \<Rightarrow> string option" where
  "command_error SetCommand args = arity_error (length args \<noteq> 3) ''set''"
| "command_error GetCommand args = arity_error (length args \<noteq> 2) ''get''"
| "command_error DelCommand args = arity_error (length args \<noteq> 2) ''del''"
| "command_error LPushCommand args = arity_error (length args < 3) ''lpush''"
| "command_error LPopCommand args = arity_error (length args \<noteq> 2) ''lpop''"
| "command_error LRangeCommand args = arity_error (length args \<noteq> 4) ''lrange''"
| "command_error RPushCommand args = arity_error (length args < 3) ''rpush''"
| "command_error RPopCommand args = arity_error (length args \<noteq> 2) ''rpop''"
| "command_error LLenCommand args = arity_error (length args \<noteq> 2) ''llen''"
| "command_error SAddCommand args = arity_error (length args < 3) ''sadd''"
| "command_error SMembersCommand args = arity_error (length args \<noteq> 2) ''smembers''"
| "command_error SCardCommand args = arity_error (length args \<noteq> 2) ''scard''"
| "command_error SRemCommand args = arity_error (length args < 3) ''srem''"
| "command_error HSetCommand args = arity_error (length args < 4 \<or> length args mod 2 \<noteq> 0) ''hset''"
| "command_error HGetCommand args = arity_error (length args \<noteq> 3) ''hget''"
| "command_error HGetAllCommand args = arity_error (length args \<noteq> 2) ''hgetall''"
| "command_error HDelCommand args = arity_error (length args < 3) ''hdel''"
| "command_error HLenCommand args = arity_error (length args \<noteq> 2) ''hlen''"
| "command_error ZAddCommand args = arity_error (length args < 4 \<or> length args mod 2 \<noteq> 0) ''zadd''"
| "command_error ZRangeCommand args = arity_error (length args < 4) ''zrange''"
| "command_error ZRemCommand args = arity_error (length args < 3) ''zrem''"
| "command_error ZCardCommand args = arity_error (length args \<noteq> 2) ''zcard''"
| "command_error ZScoreCommand args = arity_error (length args \<noteq> 3) ''zscore''"
| "command_error ExpireCommand args = expire_error args"
| "command_error TtlCommand args = arity_error (length args \<noteq> 2) ''ttl''"
| "command_error SaveCommand args = None"

fun command_spec :: "(nat \<Rightarrow> int) \<Rightarrow> command \<Rightarrow> string list \<Rightarrow> (slot, string) st" where
  "command_spec clk SetCommand args = set_spec (args ! 2)"
| "command_spec clk GetCommand args = get_spec (clk 0)"
| "command_spec clk DelCommand args = del_spec"
| "command_spec clk LPushCommand args = lpush_spec (clk 0) (drop 2 args)"
| "command_spec clk LPopCommand args = lpop_spec (clk 0)"
| "command_spec clk LRangeCommand args = lrange_spec (clk 0) (args ! 2) (args ! 3)"
| "command_spec clk RPushCommand args = rpush_spec (clk 0) (drop 2 args)"
| "command_spec clk RPopCommand args = rpop_spec (clk 0)"
| "command_spec clk LLenCommand args = llen_spec (clk 0)"
| "command_spec clk SAddCommand args = sadd_spec (clk 0) (drop 2 args)"
| "command_spec clk SMembersCommand args = smembers_spec (clk 0)"
| "command_spec clk SCardCommand args = scard_spec (clk 0)"
| "command_spec clk SRemCommand args = srem_spec (clk 0) (drop 2 args)"
| "command_spec clk HSetCommand args = hset_spec (clk 0) (field_pairs (drop 2 args))"
| "command_spec clk HGetCommand args = hget_spec (clk 0) (args ! 2)"
| "command_spec clk HGetAllCommand args = hgetall_spec (clk 0)"
| "command_spec clk HDelCommand args = hdel_spec (clk 0) (drop 2 args)"
| "command_spec clk HLenCommand args = hlen_spec (clk 0)"
| "command_spec clk ZAddCommand args = zadd_spec (clk 0) (drop 2 args)"
| "command_spec clk ZRangeCommand args = zrange_spec (clk 0) (args ! 2) (args ! 3) (withscores args)"
| "command_spec clk ZRemCommand args = zrem_spec (clk 0) (drop 2 args)"
| "command_spec clk ZCardCommand args = zcard_spec (clk 0)"
| "command_spec clk ZScoreCommand args = zscore_spec (clk 0) (args ! 2)"
| "command_spec clk ExpireCommand args = expire_spec clk (args ! 2)"
| "command_spec clk TtlCommand args = ttl_spec clk"
| "command_spec clk SaveCommand args = ret ok_reply"

text \<open>Containers small enough for the 32-bit index arithmetic of LRANGE and ZRANGE.\<close>

definition small_slot :: "slot \<Rightarrow> bool" where
  "small_slot s \<longleftrightarrow>
     slot_holds as_list (\<lambda>xs. length xs < 2 ^ 31) s \<and> slot_holds as_zset (\<lambda>z. length (tree z) < 2 ^ 30) s"

text \<open>The slots from which a command may need a free entry of the hash map.\<close>

definition may_fill :: "(nat \<Rightarrow> int) \<Rightarrow> command \<Rightarrow> slot \<Rightarrow> bool" where
  "may_fill clk c s \<longleftrightarrow>
     c \<in> {SetCommand, LPushCommand, RPushCommand, SAddCommand, HSetCommand, ZAddCommand} \<and>
     expire_slot (clk 0) s = None"

lemma key_command_weaken:
  assumes "key_command hs core conn args m err pre fill spec"
    and "\<And>s. pre' s \<Longrightarrow> pre s" "\<And>s. fill s \<Longrightarrow> fill' s"
  shows "key_command hs core conn args m err pre' fill' spec"
proof (cases err)
  case None
  then obtain body where b: "m = keyed core conn args body" "implements hs (args ! 1) pre fill body spec"
    using assms(1) by (auto simp: key_command_def)
  from b(2) assms(2,3) have "implements hs (args ! 1) pre' fill' body spec" by (rule implements_weaken)
  with b(1) None show ?thesis by (auto simp: key_command_def)
next
  case (Some e)
  with assms(1) show ?thesis by (simp add: key_command_def)
qed

lemmas key_commands = set_key_command get_key_command del_key_command lpush_key_command lpop_key_command
  lrange_key_command rpush_key_command rpop_key_command llen_key_command sadd_key_command
  smembers_key_command scard_key_command srem_key_command hset_key_command hget_key_command
  hgetall_key_command hdel_key_command hlen_key_command zadd_key_command zrange_key_command
  zrem_key_command zcard_key_command zscore_key_command expire_key_command ttl_key_command

lemma execute_key_command:
  "c \<noteq> SaveCommand \<Longrightarrow> \<exists>m. execute hs wr clk c core conn args = on_topo m \<and>
     key_command hs core conn args m (command_error c args) small_slot (may_fill clk c) (command_spec clk c args)"
  by (cases c; hypsubst;
      ((intro exI conjI, rule execute.simps, unfold command_error.simps command_spec.simps,
        rule key_command_weaken, rule key_commands) | simp))
    (auto simp: small_slot_def may_fill_def slot_holds_def)

section \<open>Executing a command\<close>

lemma on_topo_apply: "m (topo nd) = (r, t') \<Longrightarrow> on_topo m nd = (r, nd\<lparr>topo := t'\<rparr>)"
  by (simp add: on_topo_def)

text \<open>The three ways a command with a key can go, for use in proofs about sequences of commands.\<close>

lemma execute_owner:
  assumes c: "c \<noteq> SaveCommand" and err: "command_error c args = None" and k: "args ! 1 = k"
    and inv: "topo_inv hs (topo nd)" and own: "get_target_core (topo nd) k = core"
    and small: "small_slot (topo_db (topo nd) k)"
  obtains r t' where "execute hs wr clk c core conn args nd = (r, nd\<lparr>topo := t'\<rparr>)" "topo_inv hs t'"
    "num_cores t' = num_cores (topo nd)" "channel_of t' = channel_of (topo nd)"
    "fd_writes t' = fd_writes (topo nd)" "notify_fds t' = notify_fds (topo nd)"
    "\<forall>j. j \<noteq> k \<longrightarrow> topo_db t' j = topo_db (topo nd) j"
    "(r, topo_db t' k) = command_spec clk c args (topo_db (topo nd) k) \<or>
       may_fill clk c (topo_db (topo nd) k) \<and> r = Inl (Runtime_error ''HashMap is full'') \<and> topo_db t' k = None"
proof -
  obtain m where m: "execute hs wr clk c core conn args = on_topo m"
    "key_command hs core conn args m None small_slot (may_fill clk c) (command_spec clk c args)"
    using execute_key_command [OF c, of hs wr clk core conn args] err by auto
  show ?thesis
    by (rule key_command_local [OF m(2) k inv own small]) (rule that, simp add: m(1) on_topo_apply)
qed

lemma execute_other:
  assumes c: "c \<noteq> SaveCommand" and err: "command_error c args = None" and k: "args ! 1 = k"
    and inv: "topo_inv hs (topo nd)" and tgt: "get_target_core (topo nd) k = target" "target \<noteq> core"
  obtains t' where "execute hs wr clk c core conn args nd = (Inr [], nd\<lparr>topo := t'\<rparr>)" "topo_inv hs t'"
    "topo_db t' = topo_db (topo nd)" "num_cores t' = num_cores (topo nd)"
    "channel_of t' = (channel_of (topo nd))(target := channel_of (topo nd) target @ [request_message core conn args])"
    "fd_writes t' = fd_writes (topo nd) @
       (if 0 \<le> notify_fds (topo nd) ! target then [notify_fds (topo nd) ! target] else [])"
    "notify_fds t' = notify_fds (topo nd)"
proof -
  obtain m where m: "execute hs wr clk c core conn args = on_topo m"
    "key_command hs core conn args m None small_slot (may_fill clk c) (command_spec clk c args)"
    using execute_key_command [OF c, of hs wr clk core conn args] err by auto
  show ?thesis
    by (rule key_command_remote [OF m(2) k inv tgt]) (rule that, simp add: m(1) on_topo_apply)
qed

lemma execute_error:
  assumes c: "c \<noteq> SaveCommand" and err: "command_error c args = Some e"
  shows "execute hs wr clk c core conn args nd = (Inr e, nd)"
proof -
  obtain m where m: "execute hs wr clk c core conn args = on_topo m" "m = ret e"
    using execute_key_command [OF c, of hs wr clk core conn args] err by (auto simp: key_command_def)
  then show ?thesis using on_topo_apply [of "ret e" nd "Inr e" "topo nd"] by simp
qed

section \<open>Properties\<close>


lemma small_slot_None [simp]: "small_slot None"
  by (simp add: small_slot_def slot_holds_def)

lemma new_node_inv: "0 < n \<Longrightarrow> topo_inv hs (topo \<lparr>topo = new_topology n, files = Map.empty\<rparr>)"
  by (simp add: topo_inv_new)


text \<open>
  C24: A command with a key received by a core that does not own the key leaves the database
  alone, replies nothing yet, appends exactly one request with the full argument list to the
  channel of the owner, behind everything queued there, and writes once to the owner's
  notification descriptor when it is registered.
\<close>

theorem command_forwarding:
  assumes "c \<noteq> SaveCommand" "command_error c args = None" "topo_inv hs (topo nd)"
    and "get_target_core (topo nd) (args ! 1) = target" "target \<noteq> core"
  shows "\<exists>nd'. execute hs wr clk c core conn args nd = (Inr [], nd') \<and> topo_inv hs (topo nd') \<and>
    topo_db (topo nd') = topo_db (topo nd) \<and> files nd' = files nd \<and>
    channel_of (topo nd') = (channel_of (topo nd))(target := channel_of (topo nd) target @
      [\<lparr>mtype = REQUEST, origin_core_id = core, conn_id = conn, mkey = args ! 1, margs = args,
        payload = [], success = None\<rparr>]) \<and>
    fd_writes (topo nd') = fd_writes (topo nd) @
      (if 0 \<le> notify_fds (topo nd) ! target then [notify_fds (topo nd) ! target] else [])"
proof -
  obtain t' where "execute hs wr clk c core conn args nd = (Inr [], nd\<lparr>topo := t'\<rparr>)" "topo_inv hs t'"
    "topo_db t' = topo_db (topo nd)" "num_cores t' = num_cores (topo nd)"
    "channel_of t' = (channel_of (topo nd))(target := channel_of (topo nd) target @ [request_message core conn args])"
    "fd_writes t' = fd_writes (topo nd) @
       (if 0 \<le> notify_fds (topo nd) ! target then [notify_fds (topo nd) ! target] else [])"
    "notify_fds t' = notify_fds (topo nd)"
    by (rule execute_other [OF assms(1,2) refl assms(3-5), where wr = wr and clk = clk and conn = conn])
  then show ?thesis unfolding request_message_def by (intro exI [of _ "nd\<lparr>topo := t'\<rparr>"]) simp
qed

theorem command_forwarding_witness:
  "\<exists>core nd'. core \<noteq> get_target_core (new_topology 2) ''k'' \<and>
    execute length (\<lambda>_. True) (\<lambda>_. 0) GetCommand core 9 [''GET'', ''k''] \<lparr>topo = new_topology 2, files = Map.empty\<rparr> = (Inr [], nd') \<and>
    channel_of (topo nd') (get_target_core (new_topology 2) ''k'') =
      [\<lparr>mtype = REQUEST, origin_core_id = core, conn_id = 9, mkey = ''k'', margs = [''GET'', ''k''], payload = [], success = None\<rparr>]"
proof -
  let ?tgt = "get_target_core (new_topology 2) ''k''"
  define core where "core = Suc ?tgt"
  have "?tgt < 2" using target_in_range [OF topo_inv_new [of 2 length], of "''k''"] by (simp add: new_topology_def)
  then have "channel_of (new_topology 2) ?tgt = []"
    by (simp add: channel_of_def new_topology_def new_channel_def)
  then show ?thesis
    using command_forwarding [of GetCommand "[''GET'', ''k'']" length "\<lparr>topo = new_topology 2, files = Map.empty\<rparr>" ?tgt core
        "\<lambda>_. True" "\<lambda>_. 0" 9] new_node_inv [of 2 length]
    by (intro exI [of _ core]) (auto simp: core_def arity_error_def)
qed



end
