(* ===== verification/Resp_Parser.thy ===== *)
theory Resp_Parser
  imports Command_Base
begin

text \<open>
  The streaming parser of the client protocol (\<open>network/resp_parser.hpp\<close>,
  \<open>network/resp_parser.cpp\<close>).

  \<open>consume\<close> is the loop of \<open>RespParser::consume\<close>, one definition per case of its switch. The
  buffer is the list \<open>data + pos, \<dots>, data + len\<close>; the reference parameter \<open>consumed\<close> is passed
  in and returned, because some paths leave it as the caller set it. Lengths are compared as
  \<open>size_t\<close>, that is modulo \<open>2 ^ 64\<close>. A negative \<open>int\<close> passed to \<open>reserve\<close> becomes a huge
  \<open>size_t\<close>, for which \<open>std::vector\<close> and \<open>std::string\<close> throw \<open>std::length_error\<close>; running out of
  memory is not modelled.
\<close>

section \<open>The parser\<close>

datatype parse_state = WaitType | WaitSize | WaitArgSize | WaitArgData | WaitCRLF

datatype parse_result = Partial | Complete | Perror

record resp_parser =
  pstate :: parse_state
  pargs :: "string list"
  expected_args :: int
  current_arg_len :: int
  current_arg :: string

definition parser_reset :: "resp_parser \<Rightarrow> resp_parser" where
  "parser_reset p =
     p\<lparr>pstate := WaitType, pargs := [], expected_args := 0, current_arg_len := 0,
       current_arg := []\<rparr>"

definition new_parser :: resp_parser where
  "new_parser =
     \<lparr>pstate = WaitType, pargs = [], expected_args = 0, current_arg_len = 0, current_arg = []\<rparr>"

text \<open>One case of the switch either returns, possibly assigning \<open>consumed\<close>, or advances \<open>pos\<close>.\<close>

datatype parse_step =
    Return "fault + parse_result" "nat option" resp_parser
  | Advance nat resp_parser

abbreviation CR :: char where "CR \<equiv> CHR 0x0D"
abbreviation LF :: char where "LF \<equiv> CHR 0x0A"

definition size_of_int :: "int \<Rightarrow> nat" where
  "size_of_int i = nat (i mod 2 ^ 64)"

text \<open>\<open>while (pos < len && data[pos] != '\r') pos++\<close>: the bytes skipped.\<close>

definition line_of :: "string \<Rightarrow> string" where
  "line_of rest = takeWhile (\<lambda>c. c \<noteq> CR) rest"

definition wait_type :: "resp_parser \<Rightarrow> string \<Rightarrow> nat \<Rightarrow> parse_step" where
  "wait_type p rest pos =
     (if hd rest \<noteq> CHR ''*'' then Return (Inr Perror) None p
      else Advance 1 (p\<lparr>pstate := WaitSize\<rparr>))"

definition wait_size :: "resp_parser \<Rightarrow> string \<Rightarrow> nat \<Rightarrow> parse_step" where
  "wait_size p rest pos =
     (let size_str = line_of rest; n = length size_str
      in if n = length rest then Return (Inr Partial) (Some pos) p
         else
           (case stoi size_str of
              Inl _ \<Rightarrow> Return (Inr Perror) None p
            | Inr v \<Rightarrow>
                let p1 = p\<lparr>expected_args := v\<rparr>
                in if n + 1 < length rest \<and> rest ! (n + 1) = LF then
                     if v < 0 then Return (Inl Length_error) None p1
                     else Advance (n + 2) (p1\<lparr>pstate := WaitArgSize\<rparr>)
                   else Return (Inr Partial) None p1))"

definition wait_arg_size :: "resp_parser \<Rightarrow> string \<Rightarrow> nat \<Rightarrow> parse_step" where
  "wait_arg_size p rest pos =
     (if hd rest \<noteq> CHR ''$'' then Return (Inr Perror) None p
      else
        let body = tl rest; len_str = line_of body; n = length len_str
        in if n = length body then Return (Inr Partial) (Some pos) p
           else
             (case stoi len_str of
                Inl _ \<Rightarrow> Return (Inr Perror) None p
              | Inr v \<Rightarrow>
                  let p1 = p\<lparr>current_arg_len := v\<rparr>
                  in if n + 1 < length body \<and> body ! (n + 1) = LF then
                       let p2 = p1\<lparr>current_arg := []\<rparr>
                       in if v < 0 then Return (Inl Length_error) None p2
                          else Advance (n + 3) (p2\<lparr>pstate := WaitArgData\<rparr>)
                     else Return (Inr Partial) None p1))"

definition wait_arg_data :: "resp_parser \<Rightarrow> string \<Rightarrow> nat \<Rightarrow> parse_step" where
  "wait_arg_data p rest pos =
     (let needed = size_of_int (current_arg_len p - int (length (current_arg p)));
          to_copy = min needed (length rest);
          arg = current_arg p @ take to_copy rest;
          p1 = p\<lparr>current_arg := arg\<rparr>
      in if size_of_int (int (length arg)) = size_of_int (current_arg_len p)
         then Advance to_copy (p1\<lparr>pstate := WaitCRLF\<rparr>)
         else Return (Inr Partial) (Some (pos + length rest)) p1)"

definition wait_crlf :: "resp_parser \<Rightarrow> string \<Rightarrow> nat \<Rightarrow> parse_step" where
  "wait_crlf p rest pos =
     (if 1 < length rest then
        if rest ! 0 = CR \<and> rest ! 1 = LF then
          let p1 = p\<lparr>pargs := pargs p @ [current_arg p]\<rparr>
          in if size_of_int (int (length (pargs p1))) = size_of_int (expected_args p)
             then Return (Inr Complete) (Some (pos + 2)) p1
             else Advance 2 (p1\<lparr>pstate := WaitArgSize\<rparr>)
        else Return (Inr Perror) None p
      else Return (Inr Partial) (Some pos) p)"

definition parse_case :: "resp_parser \<Rightarrow> string \<Rightarrow> nat \<Rightarrow> parse_step" where
  "parse_case p =
     (case pstate p of
        WaitType \<Rightarrow> wait_type p
      | WaitSize \<Rightarrow> wait_size p
      | WaitArgSize \<Rightarrow> wait_arg_size p
      | WaitArgData \<Rightarrow> wait_arg_data p
      | WaitCRLF \<Rightarrow> wait_crlf p)"

text \<open>
  Every iteration consumes a byte, except that an argument whose bytes are complete moves on to
  \<open>WaitCRLF\<close> without one.
\<close>

definition parse_measure :: "resp_parser \<Rightarrow> string \<Rightarrow> nat" where
  "parse_measure p rest = 2 * length rest + (if pstate p = WaitArgData then 1 else 0)"

lemma parse_case_decreases:
  assumes "rest \<noteq> []" "parse_case p rest pos = Advance n p'"
  shows "parse_measure p' (drop n rest) < parse_measure p rest"
proof -
  have "0 < length rest" using assms(1) by simp
  with assms(2) show ?thesis
    by (cases "pstate p")
      (auto simp: parse_case_def parse_measure_def wait_type_def wait_size_def wait_arg_size_def
        wait_arg_data_def wait_crlf_def Let_def split: if_splits sum.splits)
qed

function consume_loop ::
  "resp_parser \<Rightarrow> string \<Rightarrow> nat \<Rightarrow> nat \<Rightarrow> (fault + parse_result) \<times> nat \<times> resp_parser"
where
  "consume_loop p rest pos consumed =
     (if rest = [] then (Inr Partial, pos, p)
      else
        (case parse_case p rest pos of
           Return r c p' \<Rightarrow> (r, (case c of None \<Rightarrow> consumed | Some v \<Rightarrow> v), p')
         | Advance n p' \<Rightarrow> consume_loop p' (drop n rest) (pos + n) consumed))"
  by pat_completeness auto

termination
  by (relation "measure (\<lambda>(p, rest, pos, consumed). parse_measure p rest)")
    (simp_all add: parse_case_decreases)

declare consume_loop.simps [simp del]

definition consume ::
  "resp_parser \<Rightarrow> string \<Rightarrow> nat \<Rightarrow> (fault + parse_result) \<times> nat \<times> resp_parser"
where
  "consume p buf consumed = consume_loop p buf 0 consumed"

section \<open>Complete commands\<close>

text \<open>A client sends a command as an array of bulk strings.\<close>

definition resp_encode :: "string list \<Rightarrow> string" where
  "resp_encode as = array_reply (int (length as)) as"

lemmas parse_case_defs =
  parse_case_def wait_type_def wait_size_def wait_arg_size_def wait_arg_data_def wait_crlf_def

lemma consume_loop_Nil [simp]: "consume_loop p [] pos c = (Inr Partial, pos, p)"
  by (simp add: consume_loop.simps)

lemma consume_loop_Advance:
  assumes "rest \<noteq> []" "parse_case p rest pos = Advance n p'"
  shows "consume_loop p rest pos c = consume_loop p' (drop n rest) (pos + n) c"
  using assms by (subst consume_loop.simps) simp

lemma consume_loop_Return:
  assumes "rest \<noteq> []" "parse_case p rest pos = Return r m p'"
  shows "consume_loop p rest pos c = (r, (case m of None \<Rightarrow> c | Some v \<Rightarrow> v), p')"
  using assms by (subst consume_loop.simps) simp

lemma size_of_int_small [simp]: "0 \<le> i \<Longrightarrow> i < 2 ^ 64 \<Longrightarrow> size_of_int i = nat i"
  by (simp add: size_of_int_def)

lemma size_of_int_length [simp]: "length xs < 2 ^ 64 \<Longrightarrow> size_of_int (int (length xs)) = length xs"
  by (subst size_of_int_small) auto

lemma nat_str_no_CR: "c \<in> set (nat_str n) \<Longrightarrow> c \<noteq> CR"
  using nat_str_digits [of n] by (auto simp: is_digit_def)

lemma line_of_nat_str [simp]: "line_of (nat_str n @ CR # rest) = nat_str n"
  unfolding line_of_def by (subst takeWhile_append2) (auto dest: nat_str_no_CR)

lemma wait_size_number:
  assumes "pstate p = WaitSize" "n < 2 ^ 31"
  shows "parse_case p (nat_str n @ crlf @ rest) pos =
    Advance (length (nat_str n) + 2) (p\<lparr>expected_args := int n, pstate := WaitArgSize\<rparr>)"
  using assms by (simp add: parse_case_def wait_size_def crlf_def stoi_nat_str nth_append)

lemma wait_arg_size_number:
  assumes "pstate p = WaitArgSize" "n < 2 ^ 31"
  shows "parse_case p (''$'' @ nat_str n @ crlf @ rest) pos =
    Advance (length (nat_str n) + 3)
      (p\<lparr>current_arg_len := int n, current_arg := [], pstate := WaitArgData\<rparr>)"
  using assms by (simp add: parse_case_def wait_arg_size_def crlf_def stoi_nat_str nth_append)

lemma wait_arg_data_whole:
  assumes "pstate p = WaitArgData" "current_arg p = []" "current_arg_len p = int (length a)"
    "length a < 2 ^ 31"
  shows "parse_case p (a @ rest) pos =
    Advance (length a) (p\<lparr>current_arg := a, pstate := WaitCRLF\<rparr>)"
proof -
  have "length a < 2 ^ 64" using assms(4) by simp
  with assms show ?thesis by (simp add: parse_case_def wait_arg_data_def)
qed

text \<open>The parser once it has read the bulk string \<open>a\<close>.\<close>

definition take_arg :: "string \<Rightarrow> resp_parser \<Rightarrow> resp_parser" where
  "take_arg a p =
     p\<lparr>pstate := WaitCRLF, pargs := pargs p @ [a], current_arg_len := int (length a),
       current_arg := a\<rparr>"

lemma consume_arg:
  assumes "pstate p = WaitArgSize" "length a < 2 ^ 31" "Suc (length (pargs p)) < 2 ^ 64"
    "0 \<le> expected_args p" "expected_args p < 2 ^ 31"
  shows "consume_loop p (bulk a @ rest) pos c =
    (if int (Suc (length (pargs p))) = expected_args p
     then (Inr Complete, pos + length (bulk a), take_arg a p)
     else consume_loop (take_arg a p\<lparr>pstate := WaitArgSize\<rparr>) rest (pos + length (bulk a)) c)"
proof -
  let ?n = "length (nat_str (length a))"
  let ?p1 = "p\<lparr>current_arg_len := int (length a), current_arg := [], pstate := WaitArgData\<rparr>"
  let ?p2 = "?p1\<lparr>current_arg := a, pstate := WaitCRLF\<rparr>"
  have "consume_loop p (bulk a @ rest) pos c = consume_loop ?p1 (a @ crlf @ rest) (pos + (?n + 3)) c"
    using consume_loop_Advance [OF _ wait_arg_size_number [OF assms(1,2), of "a @ crlf @ rest" pos], of c]
    by (simp add: bulk_def crlf_def numeral_3_eq_3)
  also have "\<dots> = consume_loop ?p2 (crlf @ rest) (pos + (?n + 3) + length a) c"
    using consume_loop_Advance [OF _ wait_arg_data_whole [of ?p1 a "crlf @ rest" "pos + (?n + 3)"], of c]
      assms(2) by (simp add: crlf_def)
  also have "\<dots> = (if int (Suc (length (pargs p))) = expected_args p
     then (Inr Complete, pos + length (bulk a), take_arg a p)
     else consume_loop (take_arg a p\<lparr>pstate := WaitArgSize\<rparr>) rest (pos + length (bulk a)) c)"
  proof -
    have "size_of_int (int (Suc (length (pargs p)))) = size_of_int (expected_args p) \<longleftrightarrow>
        int (Suc (length (pargs p))) = expected_args p"
      using assms(3-5) by (auto simp: size_of_int_def)
    moreover have "length (bulk a) = length (nat_str (length a)) + 5 + length a"
      by (simp add: bulk_def crlf_def)
    ultimately show ?thesis
      by (cases p, subst consume_loop.simps)
        (simp add: parse_case_def wait_crlf_def crlf_def take_arg_def algebra_simps)
  qed
  finally show ?thesis .
qed

text \<open>The parser once it has read the arguments \<open>as\<close>.\<close>

definition take_args :: "string list \<Rightarrow> resp_parser \<Rightarrow> resp_parser" where
  "take_args as p =
     p\<lparr>pstate := WaitCRLF, pargs := pargs p @ as, current_arg_len := int (length (last as)),
       current_arg := last as\<rparr>"

lemma consume_args:
  assumes "pstate p = WaitArgSize" "as \<noteq> []" "expected_args p = int (length (pargs p) + length as)"
    "length (pargs p) + length as < 2 ^ 31" "\<forall>a \<in> set as. length a < 2 ^ 31"
  shows "consume_loop p (concat (map bulk as) @ rest) pos c =
      (Inr Complete, pos + length (concat (map bulk as)), take_args as p)"
  using assms
proof (induction as arbitrary: p pos)
  case (Cons a as)
  show ?case
  proof (cases "as = []")
    case True
    with Cons.prems show ?thesis by (simp add: consume_arg take_arg_def take_args_def)
  next
    case False
    let ?p = "take_arg a p\<lparr>pstate := WaitArgSize\<rparr>"
    have "consume_loop p (bulk a @ (concat (map bulk as) @ rest)) pos c =
        consume_loop ?p (concat (map bulk as) @ rest) (pos + length (bulk a)) c"
      using Cons.prems False by (subst consume_arg) auto
    also have "\<dots> = (Inr Complete, pos + length (bulk a) + length (concat (map bulk as)), take_args as ?p)"
      by (rule Cons.IH) (use Cons.prems False in \<open>auto simp: take_arg_def\<close>)
    also have "take_args as ?p = take_args (a # as) p"
      using False by (cases p) (simp add: take_arg_def take_args_def)
    finally show ?thesis by (simp add: add.assoc)
  qed
qed simp

text \<open>The parser after the complete command \<open>as\<close>.\<close>

definition parsed :: "string list \<Rightarrow> resp_parser" where
  "parsed as = take_args as (new_parser\<lparr>expected_args := int (length as)\<rparr>)"

lemma pargs_parsed [simp]: "pargs (parsed as) = as"
  by (simp add: parsed_def take_args_def new_parser_def)

lemma consume_command:
  assumes "as \<noteq> []" "length as < 2 ^ 31" "\<forall>a \<in> set as. length a < 2 ^ 31"
  shows "consume new_parser (resp_encode as @ rest) c =
      (Inr Complete, length (resp_encode as), parsed as)"
proof -
  let ?n = "length as"
  let ?p = "new_parser\<lparr>pstate := WaitSize, expected_args := int ?n, pstate := WaitArgSize\<rparr>"
  let ?body = "concat (map bulk as) @ rest"
  have enc: "resp_encode as @ rest = CHR ''*'' # nat_str ?n @ crlf @ ?body"
    by (simp add: resp_encode_def array_reply_def int_str_def)
  have "consume new_parser (resp_encode as @ rest) c =
      consume_loop (new_parser\<lparr>pstate := WaitSize\<rparr>) (nat_str ?n @ crlf @ ?body) 1 c"
    unfolding consume_def enc
    by (subst consume_loop.simps) (simp add: parse_case_def wait_type_def new_parser_def)
  also have "\<dots> = consume_loop ?p ?body (1 + (length (nat_str ?n) + 2)) c"
    using consume_loop_Advance [OF _ wait_size_number [of "new_parser\<lparr>pstate := WaitSize\<rparr>" ?n ?body 1], of c]
      assms(2) by (simp add: crlf_def)
  also have "\<dots> = (Inr Complete,
      1 + (length (nat_str ?n) + 2) + length (concat (map bulk as)), take_args as ?p)"
    by (rule consume_args) (use assms in \<open>auto simp: new_parser_def\<close>)
  also have "take_args as ?p = parsed as"
    by (simp add: parsed_def take_args_def new_parser_def)
  finally show ?thesis
    by (simp add: resp_encode_def array_reply_def int_str_def crlf_def)
qed

text \<open>
  C5: A command of at least one argument, encoded as an array of bulk strings, is parsed in one
  call: the parser reports it complete, has exactly its arguments, and consumes exactly the
  encoding, whatever bytes the arguments hold and whatever follows in the buffer.
\<close>

theorem resp_roundtrip:
  assumes "as \<noteq> []" "length as < 2 ^ 31" "\<forall>a \<in> set as. length a < 2 ^ 31"
  shows "\<exists>p. consume new_parser (resp_encode as @ rest) c =
      (Inr Complete, length (resp_encode as), p) \<and> pargs p = as"
  using consume_command [OF assms] pargs_parsed by blast

theorem resp_roundtrip_witness:
  "\<exists>p. consume new_parser (resp_encode [''GET'', ''k''] @ ''*1'') 0 =
      (Inr Complete, length (resp_encode [''GET'', ''k'']), p) \<and> pargs p = [''GET'', ''k'']"
  by (rule resp_roundtrip) simp_all

section \<open>The invariant of the parser\<close>

text \<open>
  What holds between two calls: an argument being read is no longer than announced, so that the
  \<open>size_t\<close> difference in \<open>WaitArgData\<close> does not wrap around, and the number of arguments is not
  negative once it has been read.
\<close>

definition parser_wf :: "resp_parser \<Rightarrow> bool" where
  "parser_wf p \<longleftrightarrow>
     (pstate p \<in> {WaitArgSize, WaitArgData, WaitCRLF} \<longrightarrow>
        0 \<le> expected_args p \<and> expected_args p < 2 ^ 31) \<and>
     (pstate p \<in> {WaitArgData, WaitCRLF} \<longrightarrow>
        int (length (current_arg p)) \<le> current_arg_len p \<and> current_arg_len p < 2 ^ 31) \<and>
     (pstate p = WaitCRLF \<longrightarrow> int (length (current_arg p)) = current_arg_len p)"

lemma parser_wf_new [simp]: "parser_wf new_parser"
  by (simp add: parser_wf_def new_parser_def)

lemma parser_wf_reset [simp]: "parser_wf (parser_reset p)"
  by (simp add: parser_wf_def parser_reset_def)

lemma stoi_bound: "stoi s = Inr v \<Longrightarrow> v < 2 ^ 31"
  by (auto simp: stoi_def in_i32_def split: option.splits if_splits)

lemma line_of_length: "length (line_of rest) \<le> length rest"
  by (simp add: line_of_def length_takeWhile_le)

text \<open>Within the invariant, \<open>WaitArgData\<close> copies what is missing of the argument.\<close>

lemma wait_arg_data_wf:
  assumes "parser_wf p" "pstate p = WaitArgData"
  shows "wait_arg_data p rest pos =
    (let needed = nat (current_arg_len p) - length (current_arg p)
     in if needed \<le> length rest
        then Advance needed
          (p\<lparr>current_arg := current_arg p @ take needed rest, pstate := WaitCRLF\<rparr>)
        else Return (Inr Partial) (Some (pos + length rest))
          (p\<lparr>current_arg := current_arg p @ rest\<rparr>))"
proof -
  let ?cur = "current_arg p" and ?len = "current_arg_len p"
  let ?needed = "nat ?len - length ?cur"
  have le: "int (length ?cur) \<le> ?len" "?len < 2 ^ 31" using assms by (simp_all add: parser_wf_def)
  then have needed: "size_of_int (?len - int (length ?cur)) = ?needed" by simp
  have len: "size_of_int ?len = nat ?len" using le by (subst size_of_int_small) auto
  show ?thesis
  proof (cases "?needed \<le> length rest")
    case True
    then have "length (?cur @ take ?needed rest) = nat ?len" using le by simp
    moreover have "size_of_int (int (nat ?len)) = nat ?len" using le by (subst size_of_int_small) auto
    moreover have "min ?needed (length rest) = ?needed" using True by simp
    ultimately show ?thesis using True needed len by (simp only: wait_arg_data_def Let_def simp_thms if_True)
  next
    case False
    then have "size_of_int (int (length (?cur @ rest))) = length (?cur @ rest)"
      using le by (subst size_of_int_small) auto
    then show ?thesis using False needed len by (auto simp: wait_arg_data_def Let_def min_def)
  qed
qed

lemma parse_case_Advance_wf:
  assumes "parser_wf p" "rest \<noteq> []" "parse_case p rest pos = Advance n p'"
  shows "parser_wf p' \<and> n \<le> length rest \<and> length (pargs p') \<le> length (pargs p) + n"
proof (cases "pstate p = WaitArgData")
  case True
  then have "wait_arg_data p rest pos = Advance n p'" using assms(3) by (simp add: parse_case_def)
  with True assms(1) show ?thesis
    by (auto simp: wait_arg_data_wf parser_wf_def Let_def split: if_splits)
next
  case False
  have "Suc 0 \<le> length rest" using assms(2) by (cases rest) auto
  with False assms show ?thesis
    by (cases "pstate p")
      (auto simp: parse_case_defs parser_wf_def Let_def simp del: length_greater_0_conv dest: stoi_bound
        split: if_splits sum.splits)
qed

lemma parse_case_Return_wf:
  assumes "parser_wf p" "rest \<noteq> []" "parse_case p rest pos = Return r m p'"
  shows "parser_wf p'" "m = Some v \<Longrightarrow> v \<le> pos + length rest"
    "r = Inr Complete \<Longrightarrow> length (pargs p) + length rest < 2 ^ 64 \<Longrightarrow>
       int (length (pargs p')) = expected_args p'"
proof -
  have "parser_wf p' \<and> (m = Some v \<longrightarrow> v \<le> pos + length rest) \<and>
    (r = Inr Complete \<longrightarrow> length (pargs p) + length rest < 2 ^ 64 \<longrightarrow>
       int (length (pargs p')) = expected_args p')"
  proof (cases "pstate p = WaitArgData")
    case True
    then have "wait_arg_data p rest pos = Return r m p'" using assms(3) by (simp add: parse_case_def)
    with True assms(1) show ?thesis
      by (auto simp: wait_arg_data_wf parser_wf_def Let_def split: if_splits)
  next
    case False
    with assms show ?thesis
      by (cases "pstate p")
        (auto simp: parse_case_defs parser_wf_def Let_def size_of_int_def split: if_splits sum.splits)
  qed
  then show "parser_wf p'" "m = Some v \<Longrightarrow> v \<le> pos + length rest"
    "r = Inr Complete \<Longrightarrow> length (pargs p) + length rest < 2 ^ 64 \<Longrightarrow>
       int (length (pargs p')) = expected_args p'" by simp_all
qed

lemma consume_loop_wf:
  assumes "consume_loop p rest pos c = (r, n, p')" "parser_wf p"
  shows "parser_wf p' \<and> n \<le> max c (pos + length rest) \<and>
    (r = Inr Complete \<longrightarrow> length (pargs p) + length rest < 2 ^ 64 \<longrightarrow>
       int (length (pargs p')) = expected_args p')"
  using assms
proof (induction p rest pos c rule: consume_loop.induct)
  case (1 p rest pos c)
  show ?case
  proof (cases "rest = []")
    case True
    with "1.prems" show ?thesis by auto
  next
    case False
    show ?thesis
    proof (cases "parse_case p rest pos")
      case (Return r' m q)
      with "1.prems"(1) False have "r' = r" "q = p'" "n = (case m of None \<Rightarrow> c | Some v \<Rightarrow> v)"
        by (simp_all add: consume_loop_Return)
      with parse_case_Return_wf [OF "1.prems"(2) False Return] show ?thesis
        by (auto split: option.splits simp: le_max_iff_disj)
    next
      case (Advance k q)
      note step = parse_case_Advance_wf [OF "1.prems"(2) False Advance]
      have "consume_loop q (drop k rest) (pos + k) c = (r, n, p')"
        using "1.prems"(1) consume_loop_Advance [OF False Advance] by simp
      from "1.IH" [OF False Advance this] step show ?thesis by auto
    qed
  qed
qed

text \<open>
  C26: The parser keeps its invariant on every input, whatever the bytes: it never claims to have
  consumed more than it was given (or than the caller's initial value), and a command it reports
  complete has as many arguments as its array announced.
\<close>

theorem parser_safe:
  assumes "parser_wf p" "consume p buf c = (r, n, p')"
  shows "parser_wf p' \<and> n \<le> max c (length buf) \<and>
    (r = Inr Complete \<longrightarrow> length (pargs p) + length buf < 2 ^ 64 \<longrightarrow>
       int (length (pargs p')) = expected_args p')"
  using consume_loop_wf [OF assms(2) [unfolded consume_def] assms(1)] by simp

theorem parser_safe_witness:
  "parser_wf (new_parser\<lparr>pstate := WaitSize\<rparr>)"
  using parser_safe [of new_parser "''*''" 0 "Inr Partial" 1 "new_parser\<lparr>pstate := WaitSize\<rparr>"]
  by (simp add: consume_def consume_loop.simps [of new_parser] parse_case_def wait_type_def
      new_parser_def parser_wf_def)

section \<open>Input in several chunks\<close>

text \<open>
  A call that consumed its whole buffer can be continued: the next call sees the stream as if the
  two buffers had arrived as one.
\<close>

lemma consume_loop_shift:
  "consume_loop p rest (pos + k) (c + k) =
    (case consume_loop p rest pos c of (r, n, p') \<Rightarrow> (r, n + k, p'))"
proof (induction p rest pos c rule: consume_loop.induct)
  case (1 p rest pos c)
  show ?case
  proof (cases "rest = []")
    case False
    show ?thesis
    proof (cases "parse_case p rest pos")
      case (Return r m q)
      then have "parse_case p rest (pos + k) = Return r (map_option (\<lambda>v. v + k) m) q"
        by (cases "pstate p")
          (auto simp: parse_case_defs Let_def split: if_splits sum.splits)
      with Return False show ?thesis by (simp add: consume_loop_Return split: option.splits)
    next
      case (Advance n q)
      then have "parse_case p rest (pos + k) = Advance n q"
        by (cases "pstate p")
          (auto simp: parse_case_defs Let_def split: if_splits sum.splits)
      with "1.IH" [OF False Advance] Advance False show ?thesis
        by (simp add: consume_loop_Advance add.assoc add.commute [of k])
    qed
  qed simp
qed

lemma line_of_append: "length (line_of a) \<noteq> length a \<Longrightarrow> line_of (a @ b) = line_of a"
  unfolding line_of_def
  by (metis takeWhile_append1 takeWhile_eq_all_conv)

lemma parse_case_Advance_append:
  assumes "parser_wf p" "a \<noteq> []" "parse_case p a pos = Advance n p'"
  shows "parse_case p (a @ b) pos = Advance n p' \<and> n \<le> length a"
proof (cases "pstate p")
  case WaitArgData
  with assms show ?thesis
    by (auto simp: parse_case_def wait_arg_data_wf Let_def split: if_splits)
next
  case WaitType
  with assms show ?thesis by (cases a) (auto simp: parse_case_def wait_type_def split: if_splits)
next
  case WaitSize
  with assms show ?thesis
    by (auto simp: parse_case_def wait_size_def Let_def line_of_append nth_append
        split: if_splits sum.splits)
next
  case WaitArgSize
  with assms show ?thesis
    by (cases a) (auto simp: parse_case_def wait_arg_size_def Let_def line_of_append nth_append
        split: if_splits sum.splits)
next
  case WaitCRLF
  with assms show ?thesis
    by (auto simp: parse_case_def wait_crlf_def Let_def nth_append split: if_splits)
qed

lemma parse_case_Partial_all:
  assumes "parser_wf p" "a \<noteq> []" "parse_case p a pos = Return (Inr Partial) (Some (pos + length a)) p'"
  shows "pstate p = WaitArgData"
  using assms by (cases "pstate p") (auto simp: parse_case_defs Let_def split: if_splits sum.splits)

lemma wait_arg_data_resume:
  assumes "parser_wf p" "pstate p = WaitArgData"
    "parse_case p a pos = Return (Inr Partial) m p'"
  shows "consume_loop p (a @ b) pos c = consume_loop p' b (pos + length a) c"
proof -
  have lt: "\<not> nat (current_arg_len p) - length (current_arg p) \<le> length a"
    and p': "p' = p\<lparr>current_arg := current_arg p @ a\<rparr>" and m: "m = Some (pos + length a)"
    using assms by (auto simp: parse_case_def wait_arg_data_wf Let_def split: if_splits)
  have wf: "parser_wf p'" "pstate p' = WaitArgData"
    using assms(1,2) lt unfolding p' by (auto simp: parser_wf_def)
  show ?thesis
  proof (cases "b = []")
    case True
    have "a = [] \<Longrightarrow> p' = p" using p' by (cases p) simp
    with assms(3) m True show ?thesis by (cases "a = []") (simp_all add: consume_loop_Return)
  next
    case False
    let ?k = "nat (current_arg_len p) - length (current_arg p)"
    let ?k' = "nat (current_arg_len p') - length (current_arg p')"
    have k: "?k = length a + ?k'" using lt p' by simp
    have l: "parse_case p (a @ b) pos = (let needed = ?k in if needed \<le> length (a @ b)
        then Advance needed (p\<lparr>current_arg := current_arg p @ take needed (a @ b), pstate := WaitCRLF\<rparr>)
        else Return (Inr Partial) (Some (pos + length (a @ b))) (p\<lparr>current_arg := current_arg p @ (a @ b)\<rparr>))"
      using assms(1,2) by (simp only: parse_case_def parse_state.case wait_arg_data_wf)
    have r: "parse_case p' b (pos + length a) = (let needed = ?k' in if needed \<le> length b
        then Advance needed (p'\<lparr>current_arg := current_arg p' @ take needed b, pstate := WaitCRLF\<rparr>)
        else Return (Inr Partial) (Some (pos + length a + length b)) (p'\<lparr>current_arg := current_arg p' @ b\<rparr>))"
      using wf by (simp only: parse_case_def parse_state.case wait_arg_data_wf)
    show ?thesis
      using False l r unfolding k
      by (subst (1 2) consume_loop.simps) (simp add: p' Let_def add.assoc)
  qed
qed

lemma consume_loop_append:
  assumes "consume_loop p a pos c0 = (Inr Partial, pos + length a, p')" "parser_wf p"
    "c0 < pos + length a \<or> a = []"
  shows "consume_loop p (a @ b) pos c = consume_loop p' b (pos + length a) c"
  using assms
proof (induction p a pos c0 rule: consume_loop.induct)
  case (1 p a pos c0)
  show ?case
  proof (cases "a = []")
    case True
    with "1.prems"(1) show ?thesis by simp
  next
    case False
    then have c0: "c0 < pos + length a" using "1.prems"(3) by simp
    show ?thesis
    proof (cases "parse_case p a pos")
      case (Return r m q)
      then have ret: "parse_case p a pos = Return (Inr Partial) (Some (pos + length a)) p'"
        using "1.prems"(1) c0 False by (auto simp: consume_loop_Return split: option.splits)
      show ?thesis
        by (rule wait_arg_data_resume [OF "1.prems"(2) parse_case_Partial_all [OF "1.prems"(2) False ret] ret])
    next
      case (Advance n q)
      note app = parse_case_Advance_append [OF "1.prems"(2) False Advance, of b]
      note wf = parse_case_Advance_wf [OF "1.prems"(2) False Advance]
      have "consume_loop q (drop n a) (pos + n) c0 = (Inr Partial, pos + n + length (drop n a), p')"
        using "1.prems"(1) consume_loop_Advance [OF False Advance] app by simp
      moreover have "c0 < pos + n + length (drop n a) \<or> drop n a = []" using c0 app by auto
      ultimately have "consume_loop q (drop n a @ b) (pos + n) c =
          consume_loop p' b (pos + n + length (drop n a)) c"
        using "1.IH" [OF False Advance] wf by simp
      moreover have "consume_loop p (a @ b) pos c = consume_loop q (drop n (a @ b)) (pos + n) c"
        by (rule consume_loop_Advance) (use False app in auto)
      ultimately show ?thesis using app by simp
    qed
  qed
qed

text \<open>
  C27: Input may be split wherever the parser consumes the whole first buffer (that is, anywhere
  but inside a size line or between a carriage return and its line feed): parsing the second
  buffer from the state the first one left gives the result, the consumed position and the parser
  that the joined buffer gives.
\<close>

theorem parser_chunks:
  assumes "parser_wf p" "consume p a 0 = (Inr Partial, length a, p')"
    "consume p' b c = (r, n, q)"
  shows "consume p (a @ b) (c + length a) = (r, n + length a, q)"
proof -
  have "consume_loop p (a @ b) 0 (c + length a) = consume_loop p' b (0 + length a) (c + length a)"
    using consume_loop_append [of p a 0 0 p' b "c + length a"] assms(1,2) by (simp add: consume_def)
  also have "\<dots> = (r, n + length a, q)"
    unfolding consume_loop_shift using assms(3) by (simp add: consume_def)
  finally show ?thesis by (simp add: consume_def)
qed

theorem parser_chunks_witness:
  "consume new_parser ((''*1'' @ crlf @ ''$4'' @ crlf @ ''PI'') @ ''NG'' @ crlf)
      (0 + length (''*1'' @ crlf @ ''$4'' @ crlf @ ''PI'')) =
    (Inr Complete, 4 + length (''*1'' @ crlf @ ''$4'' @ crlf @ ''PI''),
     \<lparr>pstate = WaitCRLF, pargs = [''PING''], expected_args = 1, current_arg_len = 4,
      current_arg = ''PING''\<rparr>)"
proof -
  let ?p = "\<lparr>pstate = WaitArgData, pargs = [], expected_args = 1, current_arg_len = 4,
      current_arg = ''PI''\<rparr>"
  have a: "consume new_parser (''*1'' @ crlf @ ''$4'' @ crlf @ ''PI'') 0 =
      (Inr Partial, length (''*1'' @ crlf @ ''$4'' @ crlf @ ''PI''), ?p)"
    by code_simp
  have b: "consume ?p (''NG'' @ crlf) 0 =
      (Inr Complete, 4, \<lparr>pstate = WaitCRLF, pargs = [''PING''], expected_args = 1,
        current_arg_len = 4, current_arg = ''PING''\<rparr>)"
    by code_simp
  show ?thesis by (rule parser_chunks [OF parser_wf_new a b])
qed

section \<open>Sizes the parser mishandles\<close>

text \<open>A chunk that ends inside the first size line is reported as one consumed byte.\<close>

lemma size_line_partial:
  assumes "CR \<notin> set ds"
  shows "consume new_parser (CHR ''*'' # ds) c = (Inr Partial, 1, new_parser\<lparr>pstate := WaitSize\<rparr>)"
proof (cases "ds = []")
  case True
  then show ?thesis
    unfolding consume_def by (subst consume_loop.simps) (simp add: parse_case_def wait_type_def new_parser_def)
next
  case False
  have "line_of ds = ds" using assms by (auto simp: line_of_def takeWhile_eq_all_conv)
  with False show ?thesis
    unfolding consume_def
    by (subst consume_loop.simps, subst consume_loop.simps)
      (simp add: parse_case_def wait_type_def wait_size_def new_parser_def)
qed

lemma stoi_negative:
  assumes "0 < n" "n \<le> 2 ^ 31"
  shows "stoi (CHR ''-'' # nat_str n) = Inr (- int n)"
proof -
  have "takeWhile is_digit (nat_str n) = nat_str n" using takeWhile_nat_str [of "[]" n] by simp
  then have "strtol (CHR ''-'' # nat_str n) = Some (- int n)"
    by (simp add: strtol_def split_sign_def is_space_def Let_def del: takeWhile_eq_all_conv)
  with assms show ?thesis by (simp add: stoi_def in_i32_def)
qed

lemma line_of_negative [simp]: "line_of (CHR ''-'' # nat_str n @ CR # rest) = CHR ''-'' # nat_str n"
  using line_of_nat_str [of n rest] by (simp add: line_of_def)

lemma negative_array_throws:
  assumes "0 < n" "n \<le> 2 ^ 31"
  shows "fst (consume new_parser (''*-'' @ nat_str n @ crlf @ rest) c) = Inl Length_error"
  using assms unfolding consume_def
  by (subst consume_loop.simps, subst consume_loop.simps)
    (simp add: parse_case_def wait_type_def wait_size_def new_parser_def crlf_def stoi_negative nth_append)

text \<open>
  An array or bulk string of negative size makes the parser throw \<open>std::length_error\<close>, which
  no caller below the worker thread's main function catches.
\<close>

theorem resp_negative_size:
  assumes "0 < n" "n \<le> 2 ^ 31"
  shows "fst (consume new_parser (''*-'' @ nat_str n @ crlf @ rest) c) = Inl Length_error \<and>
    (pstate p = WaitArgSize \<longrightarrow>
      fst (consume p (''$-'' @ nat_str n @ crlf @ rest) c) = Inl Length_error)"
proof (intro conjI impI)
  show "fst (consume new_parser (''*-'' @ nat_str n @ crlf @ rest) c) = Inl Length_error"
    using negative_array_throws [OF assms] .
  show "fst (consume p (''$-'' @ nat_str n @ crlf @ rest) c) = Inl Length_error"
    if "pstate p = WaitArgSize"
    using that assms unfolding consume_def
    by (subst consume_loop.simps)
      (simp add: parse_case_def wait_arg_size_def crlf_def stoi_negative nth_append)
qed

theorem resp_negative_size_witness:
  "fst (consume new_parser (''*-'' @ nat_str 1 @ crlf @ []) 0) = Inl Length_error \<and>
   fst (consume (new_parser\<lparr>pstate := WaitArgSize\<rparr>) (''$-'' @ nat_str 1 @ crlf @ []) 0) =
     Inl Length_error"
  using resp_negative_size [of 1 "[]" 0 "new_parser\<lparr>pstate := WaitArgSize\<rparr>"] by simp

text \<open>An array announced as empty can only end in an error.\<close>

lemma empty_array_incomplete:
  assumes "parser_wf p" "pstate p \<in> {WaitArgSize, WaitArgData, WaitCRLF}" "expected_args p = 0"
    "length (pargs p) + length rest < 2 ^ 64"
  shows "fst (consume_loop p rest pos c) \<noteq> Inr Complete"
  using assms
proof (induction p rest pos c rule: consume_loop.induct)
  case (1 p rest pos c)
  show ?case
  proof (cases "rest = []")
    case False
    show ?thesis
    proof (cases "parse_case p rest pos")
      case (Return r m q)
      have "r \<noteq> Inr Complete"
        using Return "1.prems"
        by (auto simp: parse_case_defs Let_def size_of_int_def split: if_splits sum.splits)
      with Return False show ?thesis by (simp add: consume_loop_Return)
    next
      case (Advance n q)
      note wf = parse_case_Advance_wf [OF "1.prems"(1) False Advance]
      have "pstate q \<in> {WaitArgSize, WaitArgData, WaitCRLF} \<and> expected_args q = 0"
        using Advance "1.prems"
        by (auto simp: parse_case_defs Let_def split: if_splits sum.splits)
      moreover have "length (pargs q) + length (drop n rest) < 2 ^ 64" using wf "1.prems"(4) by (simp, linarith)
      ultimately show ?thesis
        using "1.IH" [OF False Advance] wf consume_loop_Advance [OF False Advance] by simp
    qed
  qed simp
qed

text \<open>
  After an empty array \<open>*0\<close> the parser never completes a command: it takes the bytes that
  follow, the next commands included, for arguments or for an error.
\<close>

theorem resp_empty_array:
  assumes "length b < 2 ^ 64"
  shows "fst (consume new_parser (''*'' @ nat_str 0 @ crlf @ b) c) \<noteq> Inr Complete"
proof -
  let ?p = "new_parser\<lparr>pstate := WaitSize\<rparr>"
  let ?q = "?p\<lparr>expected_args := int 0, pstate := WaitArgSize\<rparr>"
  let ?n = "length (nat_str 0) + 2"
  have "consume new_parser (''*'' @ nat_str 0 @ crlf @ b) c = consume_loop ?p (nat_str 0 @ crlf @ b) 1 c"
    unfolding consume_def
    by (subst consume_loop.simps) (simp add: parse_case_def wait_type_def new_parser_def)
  also have "\<dots> = consume_loop ?q (drop ?n (nat_str 0 @ crlf @ b)) (1 + ?n) c"
    by (rule consume_loop_Advance, simp, rule wait_size_number) simp_all
  finally show ?thesis
    using empty_array_incomplete [of ?q b "1 + ?n" c] assms
    by (simp add: crlf_def parser_wf_def new_parser_def)
qed

theorem resp_empty_array_witness:
  "fst (consume new_parser (''*'' @ nat_str 0 @ crlf @ resp_encode [''PING'']) 0) \<noteq> Inr Complete"
  by (rule resp_empty_array) (simp add: resp_encode_def array_reply_def bulk_def crlf_def int_str_def
      nat_str.simps)

end
