(* ===== verification/Io_Uring.thy ===== *)
theory Io_Uring
  imports Quine_Prelude "HOL-Library.Multiset"
begin

text \<open>
  The submission ring the repository ships for systems without io_uring
  (\<open>include/stub/liburing.h\<close>) and the event loop context on top of it
  (\<open>core/io_context.cpp\<close>, \<open>core/operation.hpp\<close>).

  A pointer to an \<open>Operation\<close> is a value of \<open>operation\<close>; a null pointer is \<open>None\<close>. The buffer of
  an entry is what the address points to: the bytes to write, or the place a read fills. The
  operating system is a parameter: the outcome of each \<open>select\<close> call, and the result of the system
  call made for each ready entry.
\<close>

section \<open>The ring\<close>

datatype operation = Notification_op | Accept_op | Read_op nat | Write_op nat

datatype opcode = IORING_OP_ACCEPT | IORING_OP_READ | IORING_OP_WRITE

datatype buffer = Null_addr | Read_into | Bytes string

record sqe =
  user_data :: "operation option"
  opcode :: opcode
  sqe_fd :: int
  addr :: buffer
  sqe_len :: nat
  active :: bool

record cqe =
  cqe_data :: "operation option"
  res :: int

record uring =
  sqes :: "sqe list"
  pending_sqes :: "sqe list"
  cqes :: "cqe list"
  entries :: nat

definition empty_sqe :: sqe where
  "empty_sqe =
     \<lparr>user_data = None, opcode = IORING_OP_ACCEPT, sqe_fd = 0, addr = Null_addr, sqe_len = 0,
      active = False\<rparr>"

definition uring_queue_init :: "nat \<Rightarrow> uring" where
  "uring_queue_init n =
     \<lparr>sqes = replicate n empty_sqe, pending_sqes = [], cqes = [], entries = n\<rparr>"

text \<open>The linear search for a free slot.\<close>

fun free_slot :: "sqe list \<Rightarrow> nat option" where
  "free_slot [] = None"
| "free_slot (e # es) = (if \<not> active e then Some 0 else map_option Suc (free_slot es))"

definition on_sqe :: "nat \<Rightarrow> (sqe \<Rightarrow> sqe) \<Rightarrow> uring \<Rightarrow> uring" where
  "on_sqe i f r = r\<lparr>sqes := (sqes r)[i := f (sqes r ! i)]\<rparr>"

definition uring_get_sqe :: "uring \<Rightarrow> nat option \<times> uring" where
  "uring_get_sqe r =
     (case free_slot (sqes r) of
        None \<Rightarrow> (None, r)
      | Some i \<Rightarrow> (Some i, on_sqe i (\<lambda>e. e\<lparr>active := True\<rparr>) r))"

definition sqe_set_data :: "operation \<Rightarrow> sqe \<Rightarrow> sqe" where
  "sqe_set_data d e = e\<lparr>user_data := Some d\<rparr>"

definition prep_accept :: "int \<Rightarrow> sqe \<Rightarrow> sqe" where
  "prep_accept fd e = e\<lparr>opcode := IORING_OP_ACCEPT, sqe_fd := fd, addr := Null_addr\<rparr>"

definition prep_read :: "int \<Rightarrow> buffer \<Rightarrow> nat \<Rightarrow> sqe \<Rightarrow> sqe" where
  "prep_read fd b n e = e\<lparr>opcode := IORING_OP_READ, sqe_fd := fd, addr := b, sqe_len := n\<rparr>"

definition prep_write :: "int \<Rightarrow> buffer \<Rightarrow> nat \<Rightarrow> sqe \<Rightarrow> sqe" where
  "prep_write fd b n e = e\<lparr>opcode := IORING_OP_WRITE, sqe_fd := fd, addr := b, sqe_len := n\<rparr>"

definition uring_submit :: "uring \<Rightarrow> nat \<times> uring" where
  "uring_submit r =
     (length (filter active (sqes r)),
      r\<lparr>pending_sqes := pending_sqes r @ filter active (sqes r),
        sqes := map (\<lambda>e. e\<lparr>active := False\<rparr>) (sqes r)\<rparr>)"

text \<open>
  One \<open>select\<close>: interrupted, failed, or the descriptors it found ready, together with the result
  of the system call on the \<open>k\<close>-th pending entry.
\<close>

datatype sys_result = Sys_done nat | Sys_again | Sys_errno nat

datatype select_round =
    Select_eintr
  | Select_error
  | Select_ready "int \<Rightarrow> bool" "int \<Rightarrow> bool" "nat \<Rightarrow> sys_result"

definition sqe_ready :: "(int \<Rightarrow> bool) \<Rightarrow> (int \<Rightarrow> bool) \<Rightarrow> sqe \<Rightarrow> bool" where
  "sqe_ready readfds writefds e =
     (case opcode e of IORING_OP_WRITE \<Rightarrow> writefds (sqe_fd e) | _ \<Rightarrow> readfds (sqe_fd e))"

text \<open>
  The pass over the pending entries: an entry whose descriptor is ready and whose call does not
  ask to try again becomes a completion.
\<close>

fun reap :: "(int \<Rightarrow> bool) \<Rightarrow> (int \<Rightarrow> bool) \<Rightarrow> (nat \<Rightarrow> sys_result) \<Rightarrow> nat \<Rightarrow> sqe list \<Rightarrow> sqe list \<times> cqe list"
where
  "reap rd wr sys k [] = ([], [])"
| "reap rd wr sys k (e # es) =
     (let (ps, cs) = reap rd wr sys (Suc k) es
      in if sqe_ready rd wr e then
           (case sys k of
              Sys_done n \<Rightarrow> (ps, \<lparr>cqe_data = user_data e, res = int n\<rparr> # cs)
            | Sys_again \<Rightarrow> (e # ps, cs)
            | Sys_errno n \<Rightarrow> (ps, \<lparr>cqe_data = user_data e, res = - int n\<rparr> # cs))
         else (e # ps, cs))"

text \<open>
  The waiting loop on a list of \<open>select\<close> rounds; \<open>None\<close> when it is still waiting at the end of the
  list. With nothing pending it sleeps and tries again, so it waits for ever.
\<close>

fun wait_loop :: "nat \<Rightarrow> select_round list \<Rightarrow> uring \<Rightarrow> uring option" where
  "wait_loop wait_nr [] r = (if wait_nr \<le> length (cqes r) then Some r else None)"
| "wait_loop wait_nr (s # rounds) r =
     (if wait_nr \<le> length (cqes r) then Some r
      else if pending_sqes r = [] then wait_loop wait_nr rounds r
      else
        (case s of
           Select_eintr \<Rightarrow> wait_loop wait_nr rounds r
         | Select_error \<Rightarrow> Some r
         | Select_ready rd wr sys \<Rightarrow>
             let (ps, cs) = reap rd wr sys 0 (pending_sqes r)
             in wait_loop wait_nr rounds (r\<lparr>pending_sqes := ps, cqes := cqes r @ cs\<rparr>)))"

definition uring_submit_and_wait :: "nat \<Rightarrow> select_round list \<Rightarrow> uring \<Rightarrow> uring option" where
  "uring_submit_and_wait wait_nr rounds r = wait_loop wait_nr rounds (snd (uring_submit r))"

definition uring_cq_advance :: "nat \<Rightarrow> uring \<Rightarrow> uring" where
  "uring_cq_advance n r = r\<lparr>cqes := drop n (cqes r)\<rparr>"

section \<open>The event loop context\<close>

record io_context =
  ring :: uring
  event_fd :: int
  notify_fd :: int
  notification_handler_set :: bool

text \<open>
  What the operating system gives for the wake-up descriptors: the result of \<open>eventfd\<close> on Linux, and
  elsewhere the read and the write end of a pipe, unless \<open>pipe\<close> fails.
\<close>

datatype event_source = Eventfd int | Pipe "(nat \<times> nat) option"

fun setup_event_fd :: "event_source \<Rightarrow> fault + int \<times> int" where
  "setup_event_fd (Eventfd fd) = (if fd < 0 then Inl (Runtime_error ''eventfd failed'') else Inr (fd, fd))"
| "setup_event_fd (Pipe None) = Inl (Runtime_error ''pipe failed'')"
| "setup_event_fd (Pipe (Some (r, w))) = Inr (int r, int w)"

text \<open>The constructor; the initialisation of the emulated ring cannot fail.\<close>

definition new_io_context :: "nat \<Rightarrow> event_source \<Rightarrow> fault + io_context" where
  "new_io_context n src =
     (case setup_event_fd src of
        Inl f \<Rightarrow> Inl f
      | Inr (rd, wr) \<Rightarrow> Inr \<lparr>ring = uring_queue_init n, event_fd = rd, notify_fd = wr,
                             notification_handler_set = False\<rparr>)"

text \<open>
  The one handler the program sets is that of \<open>worker_main\<close>, so only whether it is set is recorded.
\<close>

definition set_notification_handler :: "(io_context, unit) st" where
  "set_notification_handler = modifyS (\<lambda>c. c\<lparr>notification_handler_set := True\<rparr>)"

text \<open>
  The destructor, on the trace of the descriptors passed to \<open>close\<close>; \<open>io_uring_queue_exit\<close> of the emulated
  ring is empty.
\<close>

definition io_context_destroy :: "io_context \<Rightarrow> int list \<Rightarrow> int list" where
  "io_context_destroy c closed =
     closed @ (if 0 \<le> event_fd c then [event_fd c] else []) @ (if 0 \<le> notify_fd c then [notify_fd c] else [])"

definition io_get_sqe :: "(io_context, nat) st" where
  "io_get_sqe = (\<lambda>c.
     case uring_get_sqe (ring c) of
       (Some i, r) \<Rightarrow> (Inr i, c\<lparr>ring := r\<rparr>)
     | (None, r) \<Rightarrow>
         (case uring_get_sqe (snd (uring_submit r)) of
            (Some i, r') \<Rightarrow> (Inr i, c\<lparr>ring := r'\<rparr>)
          | (None, r') \<Rightarrow> (Inl (Runtime_error ''IoContext: Submission Queue Full''), c\<lparr>ring := r'\<rparr>)))"

text \<open>
  \<open>get_sqe\<close>, one of the preparation functions, then \<open>io_uring_sqe_set_data\<close>: the sequence every
  operation of the program is submitted with.
\<close>

definition submit_sqe :: "(sqe \<Rightarrow> sqe) \<Rightarrow> operation \<Rightarrow> (io_context, unit) st" where
  "submit_sqe prep op =
     bindS io_get_sqe (\<lambda>i. modifyS (\<lambda>c. c\<lparr>ring := on_sqe i (\<lambda>e. sqe_set_data op (prep e)) (ring c)\<rparr>))"

definition submit_notification_read :: "(io_context, unit) st" where
  "submit_notification_read = (\<lambda>c.
     if event_fd c < 0 then (Inr (), c)
     else submit_sqe (prep_read (event_fd c) Read_into 8) Notification_op c)"

text \<open>\<open>IoContext::notify\<close>, on the trace of the writes that wake event loops up.\<close>

definition notify :: "io_context \<Rightarrow> int list \<Rightarrow> int list" where
  "notify c writes = writes @ [notify_fd c]"

definition io_submit_and_wait :: "nat \<Rightarrow> select_round list \<Rightarrow> io_context \<Rightarrow> io_context option" where
  "io_submit_and_wait wait_nr rounds c =
     map_option (\<lambda>r. c\<lparr>ring := r\<rparr>) (uring_submit_and_wait wait_nr rounds (ring c))"

section \<open>Operations are neither lost nor duplicated\<close>

text \<open>The operations handed to the ring that have not completed.\<close>

definition in_flight :: "uring \<Rightarrow> sqe multiset" where
  "in_flight r = mset (filter active (sqes r)) + mset (pending_sqes r)"

definition uring_ops :: "uring \<Rightarrow> operation option multiset" where
  "uring_ops r = image_mset user_data (in_flight r) + mset (map cqe_data (cqes r))"

lemma free_slot_None: "free_slot es = None \<longleftrightarrow> (\<forall>e \<in> set es. active e)"
  by (induction es) auto

lemma free_slot_Some: "free_slot es = Some i \<Longrightarrow> i < length es \<and> \<not> active (es ! i)"
  by (induction es arbitrary: i) (auto split: if_splits)

lemma in_flight_submit [simp]: "in_flight (snd (uring_submit r)) = in_flight r"
  by (simp add: in_flight_def uring_submit_def filter_map o_def)

lemma cqes_submit [simp]: "cqes (snd (uring_submit r)) = cqes r"
  by (simp add: uring_submit_def)

lemma length_sqes_submit [simp]: "length (sqes (snd (uring_submit r))) = length (sqes r)"
  by (simp add: uring_submit_def)

lemma length_sqes_on_sqe [simp]: "length (sqes (on_sqe i f r)) = length (sqes r)"
  by (simp add: on_sqe_def)

lemma cqes_on_sqe [simp]: "cqes (on_sqe i f r) = cqes r"
  by (simp add: on_sqe_def)

lemma in_flight_on_free:
  assumes "i < length (sqes r)" "\<not> active (sqes r ! i)" "active (f (sqes r ! i))"
  shows "in_flight (on_sqe i f r) = in_flight r + {# f (sqes r ! i) #}"
proof -
  have "mset (filter active ((sqes r)[i := f (sqes r ! i)])) =
      filter_mset active (add_mset (f (sqes r ! i)) (mset (sqes r) - {# sqes r ! i #}))"
    using assms(1) by (simp only: mset_filter mset_update)
  also have "\<dots> = filter_mset active (mset (sqes r)) + {# f (sqes r ! i) #}"
    using assms by simp
  finally show ?thesis by (simp add: in_flight_def on_sqe_def)
qed

lemma on_sqe_twice:
  "i < length (sqes r) \<Longrightarrow> on_sqe i g (on_sqe i f r) = on_sqe i (\<lambda>e. g (f e)) r"
  by (simp add: on_sqe_def)

text \<open>\<open>get_sqe\<close> followed by the preparation of the slot.\<close>

lemma submit_sqe_spec:
  assumes "sqes (ring c) \<noteq> []" "\<And>e. active (prep e) = active e"
  obtains e r where "\<not> active e"
    "submit_sqe prep op c = (Inr (), c\<lparr>ring := r\<rparr>)"
    "in_flight r = in_flight (ring c) + {# sqe_set_data op (prep (e\<lparr>active := True\<rparr>)) #}"
    "cqes r = cqes (ring c)" "length (sqes r) = length (sqes (ring c))"
proof -
  let ?f = "\<lambda>e. sqe_set_data op (prep (e\<lparr>active := True\<rparr>))"
  note found = that
  have act: "active (?f e)" for e by (simp add: assms(2) sqe_set_data_def)
  have main: thesis if i: "free_slot (sqes r) = Some i"
    and get: "io_get_sqe c = (Inr i, c\<lparr>ring := on_sqe i (\<lambda>e. e\<lparr>active := True\<rparr>) r\<rparr>)"
    and r: "in_flight r = in_flight (ring c)" "cqes r = cqes (ring c)"
      "length (sqes r) = length (sqes (ring c))" for i r
  proof (rule found)
    note slot = free_slot_Some [OF i]
    then show "\<not> active (sqes r ! i)" by simp
    show "submit_sqe prep op c = (Inr (), c\<lparr>ring := on_sqe i ?f r\<rparr>)"
      using slot get by (simp add: submit_sqe_def on_sqe_twice)
    show "in_flight (on_sqe i ?f r) = in_flight (ring c) + {# ?f (sqes r ! i) #}"
      using slot r(1) act by (subst in_flight_on_free) auto
  qed (use r in simp_all)
  show thesis
  proof (cases "free_slot (sqes (ring c))")
    case (Some i)
    show thesis by (rule main [OF Some]) (simp_all add: io_get_sqe_def uring_get_sqe_def Some)
  next
    case None
    let ?r = "snd (uring_submit (ring c))"
    have "free_slot (sqes ?r) \<noteq> None"
      using assms(1) by (auto simp: free_slot_None uring_submit_def)
    then obtain i where i: "free_slot (sqes ?r) = Some i" by auto
    show thesis by (rule main [OF i]) (simp_all add: io_get_sqe_def uring_get_sqe_def None i)
  qed
qed

lemma reap_conserves:
  "reap rd wr sys k es = (ps, cs) \<Longrightarrow>
     mset (map user_data es) = mset (map user_data ps) + mset (map cqe_data cs) \<and>
     mset ps \<subseteq># mset es \<and> length es = length ps + length cs"
proof (induction es arbitrary: k ps cs)
  case (Cons e es)
  obtain ps' cs' where rec: "reap rd wr sys (Suc k) es = (ps', cs')" by fastforce
  have "mset ps' \<subseteq># mset es" using Cons.IH [OF rec] by simp
  then have "mset ps' \<subseteq># add_mset e (mset es)" by (rule subset_mset.order_trans) simp
  with Cons.IH [OF rec] Cons.prems rec show ?case
    by (auto simp: Let_def split: if_splits sys_result.splits)
qed simp

definition conserves :: "uring \<Rightarrow> uring \<Rightarrow> bool" where
  "conserves r r' \<longleftrightarrow> uring_ops r' = uring_ops r \<and> in_flight r' \<subseteq># in_flight r \<and>
     (\<exists>cs. cqes r' = cqes r @ cs) \<and> sqes r' = sqes r"

lemma conserves_refl: "conserves r r"
  by (simp add: conserves_def)

lemma conserves_trans: "conserves r s \<Longrightarrow> conserves s t \<Longrightarrow> conserves r t"
  by (auto simp: conserves_def intro: subset_mset.order_trans)

lemma conserves_reap:
  assumes "reap rd wr sys k (pending_sqes r) = (ps, cs)"
  shows "conserves r (r\<lparr>pending_sqes := ps, cqes := cqes r @ cs\<rparr>)"
  using reap_conserves [OF assms]
  by (simp add: conserves_def uring_ops_def in_flight_def ac_simps)

lemma wait_loop_conserves: "wait_loop n rounds r = Some r' \<Longrightarrow> conserves r r'"
proof (induction rounds arbitrary: r)
  case Nil
  then show ?case by (simp add: conserves_refl split: if_splits)
next
  case (Cons s rounds)
  then show ?case
    by (auto simp: conserves_refl split: if_splits select_round.splits prod.splits
        intro: conserves_trans [OF conserves_reap])
qed

text \<open>
  C28: Waiting on the ring neither loses nor duplicates an operation: every operation submitted
  before is afterwards either still pending or has exactly one completion, whatever the readiness
  of the descriptors and the results of the system calls; completions already in the queue keep
  their place.
\<close>

theorem uring_conservation:
  assumes "uring_submit_and_wait n rounds r = Some r'"
  shows "uring_ops r' = uring_ops r \<and> in_flight r' \<subseteq># in_flight r \<and>
    (\<exists>cs. cqes r' = cqes r @ cs)"
proof -
  have "uring_ops (snd (uring_submit r)) = uring_ops r" by (simp add: uring_ops_def)
  with wait_loop_conserves [OF assms [unfolded uring_submit_and_wait_def]] show ?thesis
    by (simp add: conserves_def)
qed

theorem uring_conservation_witness:
  "uring_ops (the (uring_submit_and_wait 1 [Select_ready (\<lambda>_. True) (\<lambda>_. True) (\<lambda>_. Sys_done 5)]
      \<lparr>sqes = [empty_sqe\<lparr>user_data := Some Accept_op, active := True\<rparr>], pending_sqes = [], cqes = [],
       entries = 1\<rparr>)) = {# Some Accept_op #}"
proof -
  let ?r = "\<lparr>sqes = [empty_sqe\<lparr>user_data := Some Accept_op, active := True\<rparr>], pending_sqes = [],
    cqes = [], entries = 1\<rparr>"
  let ?r' = "\<lparr>sqes = [empty_sqe\<lparr>user_data := Some Accept_op\<rparr>], pending_sqes = [],
    cqes = [\<lparr>cqe_data = Some Accept_op, res = 5\<rparr>], entries = 1\<rparr>"
  have "uring_submit_and_wait 1 [Select_ready (\<lambda>_. True) (\<lambda>_. True) (\<lambda>_. Sys_done 5)] ?r = Some ?r'"
    by (simp add: uring_submit_and_wait_def uring_submit_def empty_sqe_def sqe_ready_def)
  from uring_conservation [OF this] this show ?thesis by (simp add: uring_ops_def in_flight_def)
qed

text \<open>
  Submitting an operation never fails on a ring that has slots: when every slot is taken,
  \<open>IoContext::get_sqe\<close> submits them and finds one, so its exception is unreachable; exactly one
  operation is added and none is lost.
\<close>

theorem submission_total:
  assumes "sqes (ring c) \<noteq> []"
  shows "\<exists>c'. submit_sqe (prep_write fd b n) op c = (Inr (), c') \<and>
    uring_ops (ring c') = uring_ops (ring c) + {# Some op #} \<and> cqes (ring c') = cqes (ring c) \<and>
    length (sqes (ring c')) = length (sqes (ring c))"
proof -
  obtain e r where "submit_sqe (prep_write fd b n) op c = (Inr (), c\<lparr>ring := r\<rparr>)"
    "in_flight r = in_flight (ring c) +
       {# sqe_set_data op (prep_write fd b n (e\<lparr>active := True\<rparr>)) #}"
    "cqes r = cqes (ring c)" "length (sqes r) = length (sqes (ring c))"
    by (rule submit_sqe_spec [OF assms, of "prep_write fd b n" op]) (auto simp: prep_write_def)
  then show ?thesis by (simp add: uring_ops_def sqe_set_data_def)
qed

theorem submission_total_witness:
  "\<exists>c'. submit_sqe (prep_write 7 (Bytes ''x'') 1) (Write_op 1)
      \<lparr>ring = (uring_queue_init 1)\<lparr>sqes := [empty_sqe\<lparr>active := True\<rparr>]\<rparr>, event_fd = 3, notify_fd = 3, notification_handler_set = True\<rparr> =
        (Inr (), c') \<and> cqes (ring c') = []"
  using submission_total [of "\<lparr>ring = (uring_queue_init 1)\<lparr>sqes := [empty_sqe\<lparr>active := True\<rparr>]\<rparr>,
      event_fd = 3, notify_fd = 3, notification_handler_set = True\<rparr>" 7 "Bytes ''x''" 1 "Write_op 1"]
  by (auto simp: uring_queue_init_def)

section \<open>Waiting ends\<close>

lemma reap_all:
  assumes "\<And>e. sqe_ready rd wr e" "\<And>k. sys k \<noteq> Sys_again"
  shows "fst (reap rd wr sys k es) = []"
proof (induction es arbitrary: k)
  case (Cons e es)
  then show ?case
    using assms(2) [of k] by (cases "sys k") (simp_all add: assms(1) split_beta)
qed simp

lemma wait_loop_returns:
  assumes "cqes r = []" "pending_sqes r \<noteq> []" "\<And>e. sqe_ready rd wr e" "\<And>k. sys k \<noteq> Sys_again"
    "Select_ready rd wr sys \<in> set rounds"
  shows "\<exists>r'. wait_loop 1 rounds r = Some r'"
  using assms(1,2,5)
proof (induction rounds arbitrary: r)
  case (Cons s rounds)
  have enough: "wait_loop 1 rounds q = Some q" if "cqes q \<noteq> []" for q
    using that by (cases rounds) (simp_all add: Suc_le_eq)
  show ?case
  proof (cases s)
    case Select_eintr
    with Cons.prems Cons.IH [of r] show ?thesis by auto
  next
    case Select_error
    with Cons.prems show ?thesis by simp
  next
    case (Select_ready rd' wr' sys')
    obtain ps cs where reap: "reap rd' wr' sys' 0 (pending_sqes r) = (ps, cs)" by fastforce
    let ?q = "r\<lparr>pending_sqes := ps, cqes := cqes r @ cs\<rparr>"
    have step: "wait_loop 1 (s # rounds) r = wait_loop 1 rounds ?q"
      using Cons.prems Select_ready reap by simp
    show ?thesis
    proof (cases "cs = []")
      case True
      have "length (pending_sqes r) = length ps" using reap_conserves [OF reap] True by simp
      then have ps: "ps \<noteq> []" using Cons.prems(2) by auto
      have "s \<noteq> Select_ready rd wr sys"
        using reap_all [where rd = rd and wr = wr and sys = sys and k = 0 and es = "pending_sqes r",
            OF assms(3,4)] reap ps Select_ready by auto
      with Cons.prems Cons.IH [of ?q] True ps step show ?thesis by auto
    next
      case False
      then show ?thesis using step enough [of ?q] by simp
    qed
  qed
qed simp



end
