(* ===== verification/Connection.thy ===== *)
theory Connection
  imports Registry Resp_Parser Io_Uring
begin

text \<open>
  A client connection (\<open>src/network/connection.hpp\<close>, \<open>src/network/connection.cpp\<close>) inside the
  event loop of its core.

  The state is a \<open>worker\<close>: the event loop context and the server of a core, the \<open>Connection\<close> objects on
  its heap by address, and the map from connection ids to addresses that \<open>worker_main\<close> keeps. The
  callbacks are those of \<open>worker_main\<close>, so that of a \<open>std::function\<close> only whether it is set is recorded. Using an
  object after \<open>delete this\<close> is undefined behaviour. The kernel fills the read buffer, so the bytes
  of a read are an argument of its completion handler. \<open>std::toupper\<close> is applied to a plain
  \<open>char\<close>; bytes above 127 are left alone, as the C library does.
\<close>

section \<open>Connections and workers\<close>

record connection =
  cfd :: int
  cid :: "32 word"
  buffer_size :: nat
  buffer_capacity :: nat
  write_queue :: "string list"
  is_writing :: bool
  parser :: resp_parser
  on_disconnect :: bool

definition new_connection :: "int \<Rightarrow> 32 word \<Rightarrow> connection" where
  "new_connection fd i =
     \<lparr>cfd = fd, cid = i, buffer_size = 0, buffer_capacity = 4096, write_queue = [], is_writing = False,
      parser = new_parser, on_disconnect = False\<rparr>"

definition set_on_disconnect :: "connection \<Rightarrow> connection" where
  "set_on_disconnect c = c\<lparr>on_disconnect := True\<rparr>"

text \<open>
  \<open>std::vector::resize\<close>: a vector that must grow beyond its capacity reallocates to at least double its size,
  as the GNU library does; it never gives memory back.
\<close>

definition resize_buffer :: "nat \<Rightarrow> connection \<Rightarrow> connection" where
  "resize_buffer n c =
     c\<lparr>buffer_size := n,
       buffer_capacity := (if n \<le> buffer_capacity c then buffer_capacity c else max (2 * buffer_size c) n)\<rparr>"

record tcp_server =
  server_fd :: int
  on_connect :: bool
  server_on_disconnect :: bool

record worker =
  ctx :: io_context
  server :: tcp_server
  objects :: "nat \<rightharpoonup> connection"
  next_addr :: nat
  local_connections :: "32 word \<rightharpoonup> nat"
  closed_fds :: "int list"

definition on_ctx :: "(io_context, 'a) st \<Rightarrow> (worker, 'a) st" where
  "on_ctx m = zoom ctx (\<lambda>c w. w\<lparr>ctx := c\<rparr>) m"

text \<open>A member function called through the pointer \<open>a\<close>.\<close>

definition with_object :: "nat \<Rightarrow> (connection \<Rightarrow> (worker, 'a) st) \<Rightarrow> (worker, 'a) st" where
  "with_object a f = (\<lambda>w. case objects w a of None \<Rightarrow> throw Undefined_behaviour w | Some c \<Rightarrow> f c w)"

definition put_object :: "nat \<Rightarrow> connection \<Rightarrow> (worker, unit) st" where
  "put_object a c = modifyS (\<lambda>w. w\<lparr>objects := (objects w)(a \<mapsto> c)\<rparr>)"

definition submit_read :: "nat \<Rightarrow> (worker, unit) st" where
  "submit_read a =
     with_object a (\<lambda>c. on_ctx (submit_sqe (prep_read (cfd c) Read_into (buffer_capacity c mod 2 ^ 32)) (Read_op a)))"

text \<open>The write of the front of the queue, at the end of \<open>submit_write\<close> and \<open>handle_write\<close>.\<close>

definition write_front :: "nat \<Rightarrow> connection \<Rightarrow> (worker, unit) st" where
  "write_front a c =
     on_ctx (submit_sqe
       (prep_write (cfd c) (Bytes (hd (write_queue c))) (length (hd (write_queue c)) mod 2 ^ 32))
       (Write_op a))"

definition submit_write :: "nat \<Rightarrow> string \<Rightarrow> (worker, unit) st" where
  "submit_write a data =
     with_object a (\<lambda>c.
       let c1 = c\<lparr>write_queue := write_queue c @ [data]\<rparr>
       in if \<not> is_writing c then
            let c2 = c1\<lparr>is_writing := True\<rparr> in bindS (put_object a c2) (\<lambda>_. write_front a c2)
          else put_object a c1)"

text \<open>The destructor, on the trace of the descriptors passed to \<open>close\<close>.\<close>

definition connection_destroy :: "connection \<Rightarrow> int list \<Rightarrow> int list" where
  "connection_destroy c closed = closed @ (if 0 \<le> cfd c then [cfd c] else [])"

text \<open>
  \<open>if (on_disconnect_) on_disconnect_(id_); delete this\<close>; the callback erases the connection from
  \<open>local_connections\<close>.
\<close>

definition drop_connection :: "nat \<Rightarrow> (worker, unit) st" where
  "drop_connection a =
     with_object a (\<lambda>c. modifyS (\<lambda>w.
       w\<lparr>local_connections :=
           (if on_disconnect c then (local_connections w)(cid c := None) else local_connections w),
         objects := (objects w)(a := None), closed_fds := connection_destroy c (closed_fds w)\<rparr>))"

definition handle_write :: "nat \<Rightarrow> int \<Rightarrow> (worker, unit) st" where
  "handle_write a n =
     (if n < 0 then drop_connection a
      else with_object a (\<lambda>c.
        let c1 = (if write_queue c \<noteq> [] then c\<lparr>write_queue := tl (write_queue c)\<rparr> else c)
        in if write_queue c1 \<noteq> [] then bindS (put_object a c1) (\<lambda>_. write_front a c1)
           else put_object a (c1\<lparr>is_writing := False\<rparr>)))"

definition connection_start :: "nat \<Rightarrow> (worker, unit) st" where
  "connection_start a = submit_read a"

section \<open>Executing the commands of a client\<close>

definition execute_command ::
    "(string \<Rightarrow> nat) \<Rightarrow> (string \<Rightarrow> bool) \<Rightarrow> (nat \<Rightarrow> int) \<Rightarrow> nat \<Rightarrow> 32 word \<Rightarrow> string list \<Rightarrow>
     (node, string) st"
where
  "execute_command hs wr clk core conn as =
     (if as = [] then ret (''-ERR empty command'' @ crlf)
      else
        let cmd_name = to_upper (hd as)
        in (case get_registered main_registry cmd_name of
              Some cmd \<Rightarrow> execute hs wr clk cmd core conn as
            | None \<Rightarrow>
                if cmd_name = ''PING'' then ret (''+PONG'' @ crlf)
                else ret (''-ERR unknown command '' @ [CHR 0x27] @ cmd_name @ [CHR 0x27] @ crlf)))"

definition protocol_error :: string where
  "protocol_error = ''-ERR Protocol Error'' @ crlf"

definition handle_data ::
    "(string \<Rightarrow> nat) \<Rightarrow> (string \<Rightarrow> bool) \<Rightarrow> (nat \<Rightarrow> int) \<Rightarrow> nat \<Rightarrow> string \<Rightarrow> (connection \<times> node, string) st"
where
  "handle_data hs wr clk core buf = (\<lambda>(c, nd).
     case consume (parser c) buf 0 of
       (Inl f, _, p) \<Rightarrow> (Inl f, c\<lparr>parser := p\<rparr>, nd)
     | (Inr Partial, _, p) \<Rightarrow> (Inr [], c\<lparr>parser := p\<rparr>, nd)
     | (Inr Perror, _, p) \<Rightarrow> (Inr protocol_error, c\<lparr>parser := parser_reset p\<rparr>, nd)
     | (Inr Complete, _, p) \<Rightarrow>
         (case execute_command hs wr clk core (cid c) (pargs p) nd of
            (Inl f, nd') \<Rightarrow> (Inl f, c\<lparr>parser := p\<rparr>, nd')
          | (Inr resp, nd') \<Rightarrow> (Inr resp, c\<lparr>parser := parser_reset p\<rparr>, nd')))"

lemma parser_reset_eq [simp]: "parser_reset p = new_parser"
  by (cases p) (simp add: parser_reset_def new_parser_def)

text \<open>A buffer that starts with a complete command, seen by a connection between two commands.\<close>

lemma handle_data_command:
  assumes "parser c = new_parser" "as \<noteq> []" "length as < 2 ^ 31" "\<forall>a \<in> set as. length a < 2 ^ 31"
  shows "handle_data hs wr clk core (resp_encode as @ rest) (c, nd) =
    (case execute_command hs wr clk core (cid c) as nd of
       (Inl f, nd') \<Rightarrow> (Inl f, c\<lparr>parser := parsed as\<rparr>, nd')
     | (Inr resp, nd') \<Rightarrow> (Inr resp, c, nd'))"
proof -
  have "c\<lparr>parser := new_parser\<rparr> = c" using assms(1) by (cases c) simp
  with assms show ?thesis
    by (simp add: handle_data_def consume_command split: prod.splits sum.splits)
qed

lemma execute_command_registered:
  assumes "to_upper nm = command_name cmd"
  shows "execute_command hs wr clk core conn (nm # as) = execute hs wr clk cmd core conn (nm # as)"
  using assms by (simp add: execute_command_def get_registered_def)

text \<open>
  C4: A client's command is executed as specified: when a buffer holding one encoded command,
  its name in any mixture of cases, reaches a connection that is between two commands, on the
  core that owns the key, the reply and the new content of the key are those of the command's
  specification, no other key changes, and the connection is ready for the next command. The only
  other outcome is a full hash map, for a command that creates the key.
\<close>

theorem client_command:
  assumes "parser c = new_parser" "to_upper nm = command_name cmd" "cmd \<noteq> SaveCommand"
    and "length (nm # as) < 2 ^ 31" "\<forall>a \<in> set (nm # as). length a < 2 ^ 31"
    and "command_error cmd (nm # as) = None" "topo_inv hs (topo nd)" "hd as = k"
    and "get_target_core (topo nd) k = core" "small_slot (topo_db (topo nd) k)" "as \<noteq> []"
    and spec: "command_spec clk cmd (nm # as) (topo_db (topo nd) k) = (Inr reply, s')"
  shows "\<exists>r c' nd'. handle_data hs wr clk core (resp_encode (nm # as)) (c, nd) = (r, c', nd') \<and>
    topo_inv hs (topo nd') \<and> files nd' = files nd \<and> channel_of (topo nd') = channel_of (topo nd) \<and>
    (\<forall>j. j \<noteq> k \<longrightarrow> topo_db (topo nd') j = topo_db (topo nd) j) \<and>
    (r = Inr reply \<and> c' = c \<and> topo_db (topo nd') k = s' \<or>
     may_fill clk cmd (topo_db (topo nd) k) \<and> r = Inl (Runtime_error ''HashMap is full''))"
proof -
  have k: "(nm # as) ! 1 = k" using assms(8,11) by (cases as) auto
  obtain r t' where ex: "execute hs wr clk cmd core (cid c) (nm # as) nd = (r, nd\<lparr>topo := t'\<rparr>)"
    and inv: "topo_inv hs t'" "num_cores t' = num_cores (topo nd)" and ch: "channel_of t' = channel_of (topo nd)"
    "fd_writes t' = fd_writes (topo nd)" "notify_fds t' = notify_fds (topo nd)"
    and other: "\<forall>j. j \<noteq> k \<longrightarrow> topo_db t' j = topo_db (topo nd) j"
    and res: "(r, topo_db t' k) = command_spec clk cmd (nm # as) (topo_db (topo nd) k) \<or>
       may_fill clk cmd (topo_db (topo nd) k) \<and> r = Inl (Runtime_error ''HashMap is full'') \<and> topo_db t' k = None"
    by (rule execute_owner [OF assms(3,6) k assms(7,9,10), where wr = wr and clk = clk and conn = "cid c"])
  have data: "handle_data hs wr clk core (resp_encode (nm # as)) (c, nd) =
      (case r of Inl f \<Rightarrow> (Inl f, c\<lparr>parser := parsed (nm # as)\<rparr>, nd\<lparr>topo := t'\<rparr>)
       | Inr resp \<Rightarrow> (Inr resp, c, nd\<lparr>topo := t'\<rparr>))"
    using handle_data_command [OF assms(1) _ assms(4,5), of hs wr clk core "[]" nd]
    by (simp add: execute_command_registered [OF assms(2)] ex split: sum.splits)
  show ?thesis
  proof (cases r)
    case (Inl f)
    with data inv ch other res spec show ?thesis
      by (intro exI [of _ "Inl f"] exI [of _ "c\<lparr>parser := parsed (nm # as)\<rparr>"] exI [of _ "nd\<lparr>topo := t'\<rparr>"]) auto
  next
    case (Inr resp)
    with data inv ch other res spec show ?thesis
      by (intro exI [of _ "Inr resp"] exI [of _ c] exI [of _ "nd\<lparr>topo := t'\<rparr>"]) auto
  qed
qed

theorem client_command_witness:
  "\<exists>r c' nd'. handle_data length (\<lambda>_. True) (\<lambda>_. 0) (get_target_core (new_topology 4) ''k'')
      (resp_encode [''lLen'', ''k'']) (new_connection 5 1, \<lparr>topo = new_topology 4, files = Map.empty\<rparr>) =
        (r, c', nd') \<and> r = Inr (int_reply 0) \<and> c' = new_connection 5 1"
proof -
  let ?nd = "\<lparr>topo = new_topology 4, files = Map.empty\<rparr>"
  have "\<exists>r c' nd'. handle_data length (\<lambda>_. True) (\<lambda>_. 0) (get_target_core (new_topology 4) ''k'')
      (resp_encode [''lLen'', ''k'']) (new_connection 5 1, ?nd) = (r, c', nd') \<and>
    topo_inv length (topo nd') \<and> files nd' = files ?nd \<and> channel_of (topo nd') = channel_of (topo ?nd) \<and>
    (\<forall>j. j \<noteq> ''k'' \<longrightarrow> topo_db (topo nd') j = topo_db (topo ?nd) j) \<and>
    (r = Inr (int_reply 0) \<and> c' = new_connection 5 1 \<and> topo_db (topo nd') ''k'' = None \<or>
     may_fill (\<lambda>_. 0) LLenCommand (topo_db (topo ?nd) ''k'') \<and> r = Inl (Runtime_error ''HashMap is full''))"
  proof (rule client_command)
    show "to_upper ''lLen'' = command_name LLenCommand" by code_simp
    show "command_spec (\<lambda>_. 0) LLenCommand [''lLen'', ''k''] (topo_db (topo ?nd) ''k'') = (Inr (int_reply 0), None)"
      using topo_db_new [of 4] by (simp add: llen_spec_def spec_existing_def)
  qed (use new_node_inv [of 4 length] topo_db_new [of 4] in
      \<open>simp_all add: new_connection_def arity_error_def\<close>)
  then show ?thesis by (auto simp: may_fill_def)
qed

text \<open>
  C40: What follows the first command of a buffer is lost: the connection behaves as if the
  remaining bytes, further pipelined commands for instance, had never been received.
\<close>

theorem pipelined_input_lost:
  assumes "parser c = new_parser" "as \<noteq> []" "length as < 2 ^ 31" "\<forall>a \<in> set as. length a < 2 ^ 31"
  shows "handle_data hs wr clk core (resp_encode as @ rest) (c, nd) =
    handle_data hs wr clk core (resp_encode as) (c, nd)"
  using handle_data_command [OF assms, of hs wr clk core rest nd]
    handle_data_command [OF assms, of hs wr clk core "[]" nd] by simp

theorem pipelined_input_lost_witness:
  "handle_data length (\<lambda>_. True) (\<lambda>_. 0) 0 (resp_encode [''PING''] @ resp_encode [''PING''])
      (new_connection 5 1, \<lparr>topo = new_topology 1, files = Map.empty\<rparr>) =
   handle_data length (\<lambda>_. True) (\<lambda>_. 0) 0 (resp_encode [''PING''])
      (new_connection 5 1, \<lparr>topo = new_topology 1, files = Map.empty\<rparr>)"
  by (rule pipelined_input_lost) (simp_all add: new_connection_def)

text \<open>
  Digits are lost when a read ends inside the size line of a command: the connection is left
  in the state it would have after the asterisk alone, so that the rest of the line, in the next
  read, is taken for the whole number.
\<close>

theorem split_size_line_lost:
  assumes "parser c = new_parser" "CR \<notin> set ds"
  shows "handle_data hs wr clk core (''*'' @ ds) (c, nd) = handle_data hs wr clk core ''*'' (c, nd)"
  using size_line_partial [OF assms(2), of 0] size_line_partial [of "[]" 0] assms(1)
  by (simp add: handle_data_def)

theorem split_size_line_lost_witness:
  "handle_data length (\<lambda>_. True) (\<lambda>_. 0) 0 (''*'' @ ''1'') (new_connection 5 1, \<lparr>topo = new_topology 1, files = Map.empty\<rparr>) =
   handle_data length (\<lambda>_. True) (\<lambda>_. 0) 0 ''*'' (new_connection 5 1, \<lparr>topo = new_topology 1, files = Map.empty\<rparr>)"
  by (rule split_size_line_lost) (simp_all add: new_connection_def)

section \<open>The write queue\<close>

text \<open>
  The operations of a worker that have not been handled: those in the ring, and the completions
  \<open>todo\<close> that the event loop has taken from it.
\<close>

definition pending_ops :: "worker \<Rightarrow> operation option multiset \<Rightarrow> operation option multiset" where
  "pending_ops w todo = image_mset user_data (in_flight (ring (ctx w))) + todo"

text \<open>
  The invariant of the connection object at \<open>a\<close>: it reports its end, it is reading exactly once, it is writing at most
  once, namely when its queue is not empty, and the bytes being written are the front of the
  queue.
\<close>

definition conn_inv :: "worker \<Rightarrow> operation option multiset \<Rightarrow> nat \<Rightarrow> connection \<Rightarrow> bool" where
  "conn_inv w todo a c \<longleftrightarrow>
     a < next_addr w \<and> on_disconnect c \<and> parser_wf (parser c) \<and> (is_writing c \<longleftrightarrow> write_queue c \<noteq> []) \<and>
     count (pending_ops w todo) (Some (Read_op a)) = 1 \<and>
     count (pending_ops w todo) (Some (Write_op a)) = (if is_writing c then 1 else 0) \<and>
     (\<forall>e \<in># in_flight (ring (ctx w)). user_data e = Some (Write_op a) \<longrightarrow>
        opcode e = IORING_OP_WRITE \<and> sqe_fd e = cfd c \<and> addr e = Bytes (hd (write_queue c)))"

text \<open>
  The invariant of a worker between two calls of its handlers: its callbacks are set, its event loop has one accept and one read of the notification
  descriptor outstanding, the invariant of its connections, no operation for an address that
  was never allocated, and \<open>local_connections\<close> points to live objects.
\<close>

definition worker_inv :: "worker \<Rightarrow> operation option multiset \<Rightarrow> bool" where
  "worker_inv w todo \<longleftrightarrow>
     sqes (ring (ctx w)) \<noteq> [] \<and> cqes (ring (ctx w)) = [] \<and> 0 \<le> event_fd (ctx w) \<and>
     notification_handler_set (ctx w) \<and> on_connect (server w) \<and> server_on_disconnect (server w) \<and>
     count (pending_ops w todo) (Some Notification_op) = 1 \<and>
     count (pending_ops w todo) (Some Accept_op) = 1 \<and>
     (\<forall>a c. objects w a = Some c \<longrightarrow> conn_inv w todo a c) \<and>
     (\<forall>a \<ge> next_addr w. count (pending_ops w todo) (Some (Read_op a)) = 0 \<and>
        count (pending_ops w todo) (Some (Write_op a)) = 0) \<and>
     (\<forall>i a. local_connections w i = Some a \<longrightarrow> (\<exists>c. objects w a = Some c \<and> cid c = i))"

text \<open>Submitting an operation from a worker.\<close>

lemma on_ctx_submit:
  assumes "sqes (ring (ctx w)) \<noteq> []" "\<And>e. active (prep e) = active e"
  obtains e r where "on_ctx (submit_sqe prep op) w = (Inr (), w\<lparr>ctx := (ctx w)\<lparr>ring := r\<rparr>\<rparr>)"
    "in_flight r = in_flight (ring (ctx w)) + {# sqe_set_data op (prep e) #}"
    "cqes r = cqes (ring (ctx w))" "sqes r \<noteq> []"
proof (rule submit_sqe_spec [OF assms, where op = op])
  fix e r
  assume "submit_sqe prep op (ctx w) = (Inr (), (ctx w)\<lparr>ring := r\<rparr>)"
    "in_flight r = in_flight (ring (ctx w)) + {# sqe_set_data op (prep (e\<lparr>active := True\<rparr>)) #}"
    "cqes r = cqes (ring (ctx w))" "length (sqes r) = length (sqes (ring (ctx w)))"
  with assms(1) show thesis by (intro that [of r "e\<lparr>active := True\<rparr>"]) (auto simp: on_ctx_def)
qed

lemma prep_simps [simp]:
  "active (prep_read fd b n e) = active e" "active (prep_write fd b n e) = active e"
  "active (prep_accept fd e) = active e" "user_data (sqe_set_data op e) = Some op"
  "opcode (sqe_set_data op e) = opcode e" "sqe_fd (sqe_set_data op e) = sqe_fd e"
  "addr (sqe_set_data op e) = addr e"
  "opcode (prep_write fd b n e) = IORING_OP_WRITE" "sqe_fd (prep_write fd b n e) = fd"
  "addr (prep_write fd b n e) = b"
  by (simp_all add: prep_read_def prep_write_def prep_accept_def sqe_set_data_def)

lemma submit_read_inv:
  assumes "worker_inv w (add_mset (Some (Read_op a)) todo)" "objects w a = Some c"
  obtains r where "submit_read a w = (Inr (), w\<lparr>ctx := (ctx w)\<lparr>ring := r\<rparr>\<rparr>)"
    "worker_inv (w\<lparr>ctx := (ctx w)\<lparr>ring := r\<rparr>\<rparr>) todo" "cqes r = cqes (ring (ctx w))"
proof -
  have "sqes (ring (ctx w)) \<noteq> []" using assms(1) by (simp add: worker_inv_def)
  then obtain e r where r: "on_ctx (submit_sqe (prep_read (cfd c) Read_into (buffer_capacity c mod 2 ^ 32)) (Read_op a)) w =
        (Inr (), w\<lparr>ctx := (ctx w)\<lparr>ring := r\<rparr>\<rparr>)"
    "in_flight r = in_flight (ring (ctx w)) +
       {# sqe_set_data (Read_op a) (prep_read (cfd c) Read_into (buffer_capacity c mod 2 ^ 32) e) #}"
    "cqes r = cqes (ring (ctx w))" "sqes r \<noteq> []"
    by (rule on_ctx_submit [where prep = "prep_read (cfd c) Read_into (buffer_capacity c mod 2 ^ 32)" and op = "Read_op a"]) auto
  have "worker_inv (w\<lparr>ctx := (ctx w)\<lparr>ring := r\<rparr>\<rparr>) todo"
    using assms(1) r by (auto simp: worker_inv_def conn_inv_def pending_ops_def)
  with r assms(2) show ?thesis by (intro that [of r]) (auto simp: submit_read_def with_object_def)
qed

lemma pending_idle:
  "count (pending_ops w todo) (Some op) = 0 \<Longrightarrow> x \<in># in_flight (ring (ctx w)) \<Longrightarrow> user_data x \<noteq> Some op"
  by (metis add_is_0 count_greater_zero_iff count_union image_eqI less_irrefl pending_ops_def set_image_mset)

text \<open>
  Writing the front of the queue, from a state in which \<open>c\<close> with its flag set is stored at \<open>a\<close> and
  no write of \<open>a\<close> is outstanding.
\<close>

lemma write_front_inv:
  assumes inv: "worker_inv w todo" and a: "objects w a = Some c0"
    and none: "count (pending_ops w todo') (Some (Write_op a)) = 0"
    and todo: "\<And>op. op \<noteq> Some (Write_op a) \<Longrightarrow> count todo' op = count todo op"
    and c: "is_writing c" "write_queue c \<noteq> []" "parser_wf (parser c)" "cid c = cid c0" "on_disconnect c"
  obtains w' where "bindS (put_object a c) (\<lambda>_. write_front a c) w = (Inr (), w')"
    "worker_inv w' todo'" "objects w' = (objects w)(a \<mapsto> c)"
    "cqes (ring (ctx w')) = cqes (ring (ctx w))" "next_addr w' = next_addr w"
    "local_connections w' = local_connections w" "server w' = server w"
proof -
  let ?w = "w\<lparr>objects := (objects w)(a \<mapsto> c)\<rparr>"
  let ?prep = "prep_write (cfd c) (Bytes (hd (write_queue c))) (length (hd (write_queue c)) mod 2 ^ 32)"
  have "sqes (ring (ctx ?w)) \<noteq> []" using inv by (simp add: worker_inv_def)
  then obtain e r where r: "on_ctx (submit_sqe ?prep (Write_op a)) ?w = (Inr (), ?w\<lparr>ctx := (ctx w)\<lparr>ring := r\<rparr>\<rparr>)"
    "in_flight r = in_flight (ring (ctx w)) + {# sqe_set_data (Write_op a) (?prep e) #}"
    "cqes r = cqes (ring (ctx w))" "sqes r \<noteq> []"
    by (rule on_ctx_submit [where prep = ?prep and op = "Write_op a"]) auto
  let ?w' = "?w\<lparr>ctx := (ctx w)\<lparr>ring := r\<rparr>\<rparr>"
  have idle: "user_data x \<noteq> Some (Write_op a)" if "x \<in># in_flight (ring (ctx w))" for x
    using pending_idle [OF none that] .
  have cnt: "count (pending_ops ?w' todo') op =
      count (pending_ops w todo') op + (if op = Some (Write_op a) then 1 else 0)" for op
    using r(2) by (simp add: pending_ops_def)
  have other: "count (pending_ops w todo') op = count (pending_ops w todo) op"
    if "op \<noteq> Some (Write_op a)" for op
    using todo [OF that] by (simp add: pending_ops_def)
  have "conn_inv ?w' todo' b d" if "objects ?w' b = Some d" for b d
  proof (cases "b = a")
    case True
    then show ?thesis
      using that inv a none other cnt r(2) c idle by (auto simp: worker_inv_def conn_inv_def)
  next
    case False
    then have "conn_inv w todo b d" using that inv by (simp add: worker_inv_def)
    with False show ?thesis using cnt other r(2) by (auto simp: conn_inv_def)
  qed
  moreover have "\<forall>b \<ge> next_addr w. count (pending_ops ?w' todo') (Some (Read_op b)) = 0 \<and>
      count (pending_ops ?w' todo') (Some (Write_op b)) = 0"
    using inv a cnt other by (auto simp: worker_inv_def conn_inv_def)
  moreover have "\<exists>d. objects ?w' b = Some d \<and> cid d = i" if "local_connections w i = Some b" for i b
    using inv that a c(4) by (fastforce simp: worker_inv_def)
  moreover have "count (pending_ops ?w' todo') (Some Notification_op) = 1" "count (pending_ops ?w' todo') (Some Accept_op) = 1"
    using inv cnt other by (simp_all add: worker_inv_def)
  ultimately have "worker_inv ?w' todo'" using r(3,4) inv by (auto simp: worker_inv_def)
  with r show ?thesis by (intro that [of ?w']) (simp_all add: put_object_def write_front_def)
qed

text \<open>Changing an object without starting an operation.\<close>

lemma put_object_inv:
  assumes inv: "worker_inv w todo" and a: "objects w a = Some c0"
    and todo: "\<And>op. op \<noteq> Some (Write_op a) \<Longrightarrow> count todo' op = count todo op"
    and wr: "count (pending_ops w todo') (Some (Write_op a)) = (if is_writing c then 1 else 0)"
    and c: "is_writing c \<longleftrightarrow> write_queue c \<noteq> []" "parser_wf (parser c)" "cid c = cid c0" "cfd c = cfd c0" "on_disconnect c"
      "is_writing c \<Longrightarrow> is_writing c0 \<and> hd (write_queue c) = hd (write_queue c0)"
  shows "worker_inv (w\<lparr>objects := (objects w)(a \<mapsto> c)\<rparr>) todo'"
proof -
  let ?w = "w\<lparr>objects := (objects w)(a \<mapsto> c)\<rparr>"
  have cnt: "count (pending_ops ?w todo') op = count (pending_ops w todo) op"
    if "op \<noteq> Some (Write_op a)" for op
    using todo [OF that] by (simp add: pending_ops_def)
  have old: "conn_inv w todo a c0" using inv a by (simp add: worker_inv_def)
  have idle: "user_data x \<noteq> Some (Write_op a)" if "x \<in># in_flight (ring (ctx w))" "\<not> is_writing c" for x
    using pending_idle [OF _ that(1)] wr that(2) by simp
  have "conn_inv ?w todo' b d" if "objects ?w b = Some d" for b d
  proof (cases "b = a")
    case True
    with that have "d = c" by simp
    with True show ?thesis
      using old wr c cnt idle by (cases "is_writing c") (auto simp: conn_inv_def pending_ops_def)
  next
    case False
    then have "conn_inv w todo b d" using that inv by (simp add: worker_inv_def)
    with False show ?thesis using cnt by (auto simp: conn_inv_def)
  qed
  moreover have "\<forall>b \<ge> next_addr w. count (pending_ops ?w todo') (Some (Read_op b)) = 0 \<and>
      count (pending_ops ?w todo') (Some (Write_op b)) = 0"
    using inv old cnt by (auto simp: worker_inv_def conn_inv_def)
  moreover have "\<exists>d. objects ?w b = Some d \<and> cid d = i" if "local_connections w i = Some b" for i b
    using inv that a c(3) by (fastforce simp: worker_inv_def)
  moreover have "count (pending_ops ?w todo') (Some Notification_op) = 1" "count (pending_ops ?w todo') (Some Accept_op) = 1"
    using inv cnt by (simp_all add: worker_inv_def)
  ultimately show ?thesis using inv by (auto simp: worker_inv_def)
qed

lemma submit_write_inv:
  assumes inv: "worker_inv w todo" and a: "objects w a = Some c"
  obtains w' where "submit_write a data w = (Inr (), w')" "worker_inv w' todo"
    "objects w' = (objects w)(a \<mapsto> c\<lparr>write_queue := write_queue c @ [data], is_writing := True\<rparr>)"
    "cqes (ring (ctx w')) = cqes (ring (ctx w))" "next_addr w' = next_addr w"
    "local_connections w' = local_connections w" "server w' = server w"
proof -
  let ?c = "c\<lparr>write_queue := write_queue c @ [data], is_writing := True\<rparr>"
  have old: "conn_inv w todo a c" using inv a by (simp add: worker_inv_def)
  show ?thesis
  proof (cases "is_writing c")
    case True
    then have eq: "?c = c\<lparr>write_queue := write_queue c @ [data]\<rparr>" by (cases c) simp
    from True have "submit_write a data w = (Inr (), w\<lparr>objects := (objects w)(a \<mapsto> ?c)\<rparr>)"
      unfolding eq using a by (simp add: submit_write_def with_object_def put_object_def)
    moreover have "worker_inv (w\<lparr>objects := (objects w)(a \<mapsto> ?c)\<rparr>) todo"
      by (rule put_object_inv [OF inv a]) (use old True in \<open>auto simp: conn_inv_def\<close>)
    ultimately show ?thesis by (intro that [of "w\<lparr>objects := (objects w)(a \<mapsto> ?c)\<rparr>"]) simp_all
  next
    case False
    obtain w' where w': "bindS (put_object a ?c) (\<lambda>_. write_front a ?c) w = (Inr (), w')"
      "worker_inv w' todo" "objects w' = (objects w)(a \<mapsto> ?c)"
      "cqes (ring (ctx w')) = cqes (ring (ctx w))" "next_addr w' = next_addr w"
      "local_connections w' = local_connections w" "server w' = server w"
      by (rule write_front_inv [OF inv a, where c = ?c and todo' = todo])
        (use old False in \<open>auto simp: conn_inv_def\<close>)
    then show ?thesis
      using False a by (intro that [of w']) (simp_all add: submit_write_def with_object_def Let_def)
  qed
qed

lemma drop_connection_inv:
  assumes inv: "worker_inv w todo" and a: "objects w a = Some c"
    and todo: "\<And>op. op \<noteq> Some (Write_op a) \<Longrightarrow> op \<noteq> Some (Read_op a) \<Longrightarrow> count todo' op = count todo op"
  obtains w' where "drop_connection a w = (Inr (), w')" "worker_inv w' todo'" "objects w' = (objects w)(a := None)"
    "ctx w' = ctx w" "server w' = server w" "next_addr w' = next_addr w"
proof -
  let ?w = "w\<lparr>local_connections := (local_connections w)(cid c := None), objects := (objects w)(a := None),
      closed_fds := connection_destroy c (closed_fds w)\<rparr>"
  have lt: "a < next_addr w" "on_disconnect c" using inv a by (simp_all add: worker_inv_def conn_inv_def)
  have cnt: "count (pending_ops ?w todo') (Some (Read_op b)) = count (pending_ops w todo) (Some (Read_op b))"
    "count (pending_ops ?w todo') (Some (Write_op b)) = count (pending_ops w todo) (Some (Write_op b))"
    if "b \<noteq> a" for b
    using that todo by (simp_all add: pending_ops_def)
  have "conn_inv ?w todo' b d" if "objects ?w b = Some d" for b d
  proof -
    have b: "b \<noteq> a" "objects w b = Some d" using that by (auto split: if_splits)
    then have "conn_inv w todo b d" using inv by (simp add: worker_inv_def)
    with b show ?thesis using cnt [of b] by (simp add: conn_inv_def)
  qed
  moreover have "\<forall>b \<ge> next_addr w. count (pending_ops ?w todo') (Some (Read_op b)) = 0 \<and>
      count (pending_ops ?w todo') (Some (Write_op b)) = 0"
    using inv lt cnt by (auto simp: worker_inv_def)
  moreover have "\<exists>d. objects ?w b = Some d \<and> cid d = i" if "local_connections ?w i = Some b" for i b
    using inv that a by (fastforce simp: worker_inv_def split: if_splits)
  moreover have "count (pending_ops ?w todo') (Some Notification_op) = 1" "count (pending_ops ?w todo') (Some Accept_op) = 1"
    using inv todo by (simp_all add: worker_inv_def pending_ops_def)
  ultimately have "worker_inv ?w todo'" using inv by (auto simp: worker_inv_def)
  then show ?thesis
    using a lt(2) by (intro that [of ?w]) (simp_all add: drop_connection_def with_object_def)
qed

lemma handle_write_inv:
  assumes inv: "worker_inv w (add_mset (Some (Write_op a)) todo)" and a: "objects w a = Some c"
  obtains w' where "handle_write a n w = (Inr (), w')" "worker_inv w' todo"
    "objects w' = (objects w)(a := if n < 0 then None
       else Some (c\<lparr>write_queue := tl (write_queue c), is_writing := tl (write_queue c) \<noteq> []\<rparr>))"
    "cqes (ring (ctx w')) = cqes (ring (ctx w))" "server w' = server w"
    "next_addr w' = next_addr w"
proof (cases "n < 0")
  case True
  obtain w' where "drop_connection a w = (Inr (), w')" "worker_inv w' todo" "objects w' = (objects w)(a := None)"
    "ctx w' = ctx w" "server w' = server w" "next_addr w' = next_addr w"
    by (rule drop_connection_inv [OF inv a, where todo' = todo]) auto
  with True show ?thesis by (intro that [of w']) (simp_all add: handle_write_def)
next
  case False
  let ?c = "c\<lparr>write_queue := tl (write_queue c), is_writing := tl (write_queue c) \<noteq> []\<rparr>"
  have old: "conn_inv w (add_mset (Some (Write_op a)) todo) a c" using inv a by (simp add: worker_inv_def)
  then have w: "is_writing c" "write_queue c \<noteq> []" "count (pending_ops w todo) (Some (Write_op a)) = 0"
    by (auto simp: conn_inv_def pending_ops_def split: if_splits)
  show ?thesis
  proof (cases "tl (write_queue c) = []")
    case True
    have "handle_write a n w = (Inr (), w\<lparr>objects := (objects w)(a \<mapsto> ?c)\<rparr>)"
      using True False w a by (simp add: handle_write_def with_object_def put_object_def)
    moreover have "worker_inv (w\<lparr>objects := (objects w)(a \<mapsto> ?c)\<rparr>) todo"
      by (rule put_object_inv [OF inv a]) (use old True w in \<open>auto simp: conn_inv_def\<close>)
    ultimately show ?thesis
      using False by (intro that [of "w\<lparr>objects := (objects w)(a \<mapsto> ?c)\<rparr>"]) simp_all
  next
    case more: False
    then have eq: "?c = c\<lparr>write_queue := tl (write_queue c)\<rparr>" using w(1) by (cases c) simp
    obtain w' where w': "bindS (put_object a ?c) (\<lambda>_. write_front a ?c) w = (Inr (), w')"
      "worker_inv w' todo" "objects w' = (objects w)(a \<mapsto> ?c)"
      "cqes (ring (ctx w')) = cqes (ring (ctx w))" "next_addr w' = next_addr w"
      "local_connections w' = local_connections w" "server w' = server w"
      by (rule write_front_inv [OF inv a w(3), where c = ?c]) (use old more in \<open>auto simp: conn_inv_def\<close>)
    moreover have "handle_write a n w = bindS (put_object a ?c) (\<lambda>_. write_front a ?c) w"
      unfolding eq using False more w(2) a by (simp add: handle_write_def with_object_def Let_def)
    ultimately show ?thesis using False by (intro that [of w']) simp_all
  qed
qed


text \<open>A worker with one connection, which reads and has written one of its two responses.\<close>

definition busy_worker :: worker where
  "busy_worker =
     \<lparr>ctx = \<lparr>ring = \<lparr>sqes = [empty_sqe], pending_sqes = map (\<lambda>op. empty_sqe\<lparr>user_data := Some op\<rparr>) [Notification_op, Accept_op, Read_op 0],
                    cqes = [], entries = 1\<rparr>,
             event_fd = 3, notify_fd = 3, notification_handler_set = True\<rparr>,
      server = \<lparr>server_fd = 4, on_connect = True, server_on_disconnect = True\<rparr>,
      objects = [0 \<mapsto> (set_on_disconnect (new_connection 5 1))\<lparr>write_queue := [''+PONG'', ''+OK''], is_writing := True\<rparr>],
      next_addr = 1, local_connections = [1 \<mapsto> 0], closed_fds = []\<rparr>"

lemma busy_worker_inv: "worker_inv busy_worker {# Some (Write_op 0) #}"
  by (auto simp: worker_inv_def conn_inv_def busy_worker_def pending_ops_def in_flight_def empty_sqe_def
      new_connection_def set_on_disconnect_def split: if_splits)


end
