(* ===== verification/Worker.thy ===== *)
theory Worker
  imports Connection
begin

text \<open>
  The cores of a node at work: the acceptor (\<open>src/network/tcp_server.cpp\<close>), the read handler of
  \<open>src/network/connection.cpp\<close>, the event loop of \<open>src/core/io_context.cpp\<close>, and \<open>worker_main\<close> with
  the handler of messages between cores (\<open>src/main.cpp\<close>).

  A \<open>machine\<close> is the shared node and one worker per core. Executed commands are numbered, and the
  readings of the clock by the \<open>k\<close>-th command are \<open>clk k\<close>. One handler of one completion is one
  step: a handler touches only its own worker and shard, the channels, each of which is
  protected by its mutex, and the notification descriptors.
\<close>

section \<open>The machine\<close>

record machine =
  mnode :: node
  workers :: "worker list"
  next_conn_id :: "32 word"
  ticks :: nat

definition on_node :: "(node, 'a) st \<Rightarrow> (machine, 'a) st" where
  "on_node m = zoom mnode (\<lambda>nd M. M\<lparr>mnode := nd\<rparr>) m"

definition on_worker :: "nat \<Rightarrow> (worker, 'a) st \<Rightarrow> (machine, 'a) st" where
  "on_worker i m = zoom (\<lambda>M. workers M ! i) (\<lambda>w M. M\<lparr>workers := (workers M)[i := w]\<rparr>) m"

definition with_clock :: "(nat \<Rightarrow> nat \<Rightarrow> int) \<Rightarrow> ((nat \<Rightarrow> int) \<Rightarrow> (machine, 'a) st) \<Rightarrow> (machine, 'a) st" where
  "with_clock clk f = (\<lambda>M. f (clk (ticks M)) (M\<lparr>ticks := ticks M + 1\<rparr>))"

section \<open>Reading from a client\<close>

text \<open>\<open>handle_data\<close> on the connection at \<open>a\<close>.\<close>

definition receive_data ::
    "(string \<Rightarrow> nat) \<Rightarrow> (string \<Rightarrow> bool) \<Rightarrow> (nat \<Rightarrow> int) \<Rightarrow> nat \<Rightarrow> nat \<Rightarrow> string \<Rightarrow> (machine, string) st"
where
  "receive_data hs wr clk i a buf = (\<lambda>M.
     case objects (workers M ! i) a of
       None \<Rightarrow> throw Undefined_behaviour M
     | Some c \<Rightarrow>
         (case handle_data hs wr clk i buf (c, mnode M) of
            (r, c', nd') \<Rightarrow>
              (r, M\<lparr>mnode := nd',
                    workers := (workers M)[i := (workers M ! i)\<lparr>objects := (objects (workers M ! i))(a \<mapsto> c')\<rparr>]\<rparr>)))"

definition handle_read ::
    "(string \<Rightarrow> nat) \<Rightarrow> (string \<Rightarrow> bool) \<Rightarrow> (nat \<Rightarrow> nat \<Rightarrow> int) \<Rightarrow> nat \<Rightarrow> nat \<Rightarrow> int \<Rightarrow> string \<Rightarrow>
     (machine, unit) st"
where
  "handle_read hs wr clk i a n buf =
     (if n \<le> 0 then on_worker i (drop_connection a)
      else
        bindS (with_clock clk (\<lambda>t. receive_data hs wr t i a (take (nat n) buf))) (\<lambda>response.
        bindS (if response \<noteq> [] then on_worker i (submit_write a response) else ret ()) (\<lambda>_.
        on_worker i (submit_read a))))"

section \<open>Accepting clients\<close>

text \<open>
  The system calls of \<open>setup_listener\<close>; \<open>sys\<close> gives their results. A descriptor that was opened
  stays open when a later call fails.
\<close>

definition setup_listener :: "(string \<Rightarrow> int) \<Rightarrow> fault + int" where
  "setup_listener sys =
     (if sys ''socket'' < 0 then Inl (Runtime_error ''socket failed'')
      else if sys ''fcntl(F_GETFL)'' < 0 then Inl (Runtime_error ''fcntl get failed'')
      else if sys ''fcntl(F_SETFL)'' < 0 then Inl (Runtime_error ''fcntl set nonblock failed'')
      else if sys ''setsockopt(SO_REUSEADDR)'' < 0
        then Inl (Runtime_error ''setsockopt(SO_REUSEADDR) failed'')
      else if sys ''setsockopt(SO_REUSEPORT)'' < 0
        then Inl (Runtime_error ''setsockopt(SO_REUSEPORT) failed'')
      else if sys ''bind'' < 0 then Inl (Runtime_error ''bind failed'')
      else if sys ''listen'' < 0 then Inl (Runtime_error ''listen failed'')
      else Inr (sys ''socket''))"

definition submit_accept :: "(worker, unit) st" where
  "submit_accept = (\<lambda>w. on_ctx (submit_sqe (prep_accept (server_fd (server w))) Accept_op) w)"

text \<open>\<open>TcpServer::start\<close> and the setters of its callbacks.\<close>

definition server_start :: "(worker, unit) st" where
  "server_start = submit_accept"

definition server_set_on_connect :: "tcp_server \<Rightarrow> tcp_server" where
  "server_set_on_connect s = s\<lparr>on_connect := True\<rparr>"

definition server_set_on_disconnect :: "tcp_server \<Rightarrow> tcp_server" where
  "server_set_on_disconnect s = s\<lparr>server_on_disconnect := True\<rparr>"

text \<open>
  The constructor: one that throws leaves no server, and its destructor does not run.
\<close>

definition new_tcp_server :: "(string \<Rightarrow> int) \<Rightarrow> fault + tcp_server" where
  "new_tcp_server sys =
     bindE (setup_listener sys) (\<lambda>fd. Inr \<lparr>server_fd = fd, on_connect = False, server_on_disconnect = False\<rparr>)"

definition tcp_server_destroy :: "tcp_server \<Rightarrow> int list \<Rightarrow> int list" where
  "tcp_server_destroy s closed = closed @ (if 0 \<le> server_fd s then [server_fd s] else [])"

text \<open>
  The construction of the \<open>Connection\<close> with its callback, and the \<open>on_connect\<close> callback, which enters it into
  \<open>local_connections\<close>; the result is its address.
\<close>

definition new_client :: "int \<Rightarrow> 32 word \<Rightarrow> (worker, nat) st" where
  "new_client fd i = (\<lambda>w.
     let a = next_addr w;
         conn = (if server_on_disconnect (server w) then set_on_disconnect (new_connection fd i)
                 else new_connection fd i)
     in (Inr a, w\<lparr>objects := (objects w)(a \<mapsto> conn), next_addr := a + 1,
                  local_connections :=
                    (if on_connect (server w) then (local_connections w)(i \<mapsto> a) else local_connections w)\<rparr>))"

definition handle_accept :: "nat \<Rightarrow> int \<Rightarrow> (machine, unit) st" where
  "handle_accept i fd =
     (if fd < 0 then on_worker i submit_accept
      else
        bindS (getS next_conn_id) (\<lambda>conn.
        bindS (modifyS (\<lambda>M. M\<lparr>next_conn_id := conn + 1\<rparr>)) (\<lambda>_.
        on_worker i
          (bindS (new_client fd conn) (\<lambda>a.
           bindS (connection_start a) (\<lambda>_. submit_accept))))))"

section \<open>Messages between cores\<close>

definition response_message :: "nat \<Rightarrow> 32 word \<Rightarrow> string \<Rightarrow> message" where
  "response_message core conn resp =
     \<lparr>mtype = RESPONSE, origin_core_id = core, conn_id = conn, mkey = [], margs = [], payload = resp,
      success = Some True\<rparr>"

text \<open>Executing a request of another core; the name is looked up as it was received.\<close>

definition execute_request ::
    "(string \<Rightarrow> nat) \<Rightarrow> (string \<Rightarrow> bool) \<Rightarrow> (nat \<Rightarrow> int) \<Rightarrow> nat \<Rightarrow> message \<Rightarrow> (node, string) st"
where
  "execute_request hs wr clk i msg =
     (case margs msg of
        [] \<Rightarrow> throw Undefined_behaviour
      | cmd_name # _ \<Rightarrow>
          (case get_registered main_registry cmd_name of
             Some cmd \<Rightarrow> execute hs wr clk cmd i (conn_id msg) (margs msg)
           | None \<Rightarrow> ret (''-ERR unknown command '' @ [CHR 0x27] @ cmd_name @ [CHR 0x27] @ crlf)))"

definition send_response :: "nat \<Rightarrow> message \<Rightarrow> string \<Rightarrow> (machine, unit) st" where
  "send_response i msg resp =
     on_node (on_topo
       (bindS (push_channel (origin_core_id msg) (response_message i (conn_id msg) resp)) (\<lambda>_.
        notify_core (origin_core_id msg))))"

definition deliver_response :: "message \<Rightarrow> (worker, unit) st" where
  "deliver_response msg = (\<lambda>w.
     case local_connections w (conn_id msg) of
       None \<Rightarrow> ret () w
     | Some a \<Rightarrow> submit_write a (payload msg) w)"

definition handle_message ::
    "(string \<Rightarrow> nat) \<Rightarrow> (string \<Rightarrow> bool) \<Rightarrow> (nat \<Rightarrow> nat \<Rightarrow> int) \<Rightarrow> nat \<Rightarrow> message \<Rightarrow> (machine, unit) st"
where
  "handle_message hs wr clk i msg =
     (case mtype msg of
        REQUEST \<Rightarrow>
          bindS (with_clock clk (\<lambda>t. on_node (execute_request hs wr t i msg))) (\<lambda>response_str.
          if response_str \<noteq> [] then send_response i msg response_str else ret ())
      | RESPONSE \<Rightarrow> on_worker i (deliver_response msg))"

definition my_channel :: "nat \<Rightarrow> machine \<Rightarrow> message itc_channel" where
  "my_channel i M = channels (topo (mnode M)) ! i"

definition set_my_channel :: "nat \<Rightarrow> message itc_channel \<Rightarrow> machine \<Rightarrow> machine" where
  "set_my_channel i ch M =
     M\<lparr>mnode := (mnode M)\<lparr>topo := (topo (mnode M))\<lparr>channels := (channels (topo (mnode M)))[i := ch]\<rparr>\<rparr>\<rparr>"

definition notification_handler ::
    "(string \<Rightarrow> nat) \<Rightarrow> (string \<Rightarrow> bool) \<Rightarrow> (nat \<Rightarrow> nat \<Rightarrow> int) \<Rightarrow> nat \<Rightarrow> (machine, unit) st"
where
  "notification_handler hs wr clk i =
     consume_all (my_channel i) (set_my_channel i) (handle_message hs wr clk i)"

section \<open>The event loop\<close>

text \<open>\<open>NotificationOp::complete\<close>: call the handler if one is set, and listen again.\<close>

definition complete_notification ::
    "(string \<Rightarrow> nat) \<Rightarrow> (string \<Rightarrow> bool) \<Rightarrow> (nat \<Rightarrow> nat \<Rightarrow> int) \<Rightarrow> nat \<Rightarrow> (machine, unit) st"
where
  "complete_notification hs wr clk i =
     bindS (\<lambda>M. if notification_handler_set (ctx (workers M ! i)) then notification_handler hs wr clk i M
                else ret () M) (\<lambda>_.
     on_worker i (on_ctx submit_notification_read))"

text \<open>\<open>Operation::complete\<close>; \<open>buf\<close> is the content of the read buffer.\<close>

fun complete ::
    "(string \<Rightarrow> nat) \<Rightarrow> (string \<Rightarrow> bool) \<Rightarrow> (nat \<Rightarrow> nat \<Rightarrow> int) \<Rightarrow> nat \<Rightarrow> operation \<Rightarrow> int \<Rightarrow> string \<Rightarrow>
     (machine, unit) st"
where
  "complete hs wr clk i Notification_op n buf = complete_notification hs wr clk i"
| "complete hs wr clk i Accept_op n buf = handle_accept i n"
| "complete hs wr clk i (Read_op a) n buf = handle_read hs wr clk i a n buf"
| "complete hs wr clk i (Write_op a) n buf = on_worker i (handle_write a n)"

text \<open>
  One iteration of \<open>IoContext::run\<close>: wait, then complete the operations in the order of their
  completions. The completions leave the queue at once here; the code removes them after the
  loop, and no handler looks at the queue.
\<close>

definition run_wait :: "select_round list \<Rightarrow> worker \<Rightarrow> (cqe list \<times> worker) option" where
  "run_wait rounds w =
     map_option (\<lambda>c. (cqes (ring c),
         w\<lparr>ctx := c\<lparr>ring := uring_cq_advance (length (cqes (ring c))) (ring c)\<rparr>\<rparr>))
       (io_submit_and_wait 1 rounds (ctx w))"

definition dispatch ::
    "(string \<Rightarrow> nat) \<Rightarrow> (string \<Rightarrow> bool) \<Rightarrow> (nat \<Rightarrow> nat \<Rightarrow> int) \<Rightarrow> nat \<Rightarrow> cqe \<Rightarrow> string \<Rightarrow> (machine, unit) st"
where
  "dispatch hs wr clk i q buf =
     (case cqe_data q of None \<Rightarrow> ret () | Some op \<Rightarrow> complete hs wr clk i op (res q) buf)"

section \<open>Starting the workers\<close>

text \<open>
  \<open>worker_main\<close> up to the barrier: the event loop context with its 4096 slots, and the
  registration of its descriptor.
\<close>

definition worker_register :: "nat \<Rightarrow> event_source \<Rightarrow> (node, io_context) st" where
  "worker_register i src =
     (case new_io_context 4096 src of
        Inl f \<Rightarrow> throw f
      | Inr c \<Rightarrow> bindS (on_topo (register_notify_fd i (notify_fd c))) (\<lambda>_. ret c))"

text \<open>
  \<open>worker_main\<close> after the barrier: the server and its callbacks, the first accept, the notification
  handler, and the first read of \<open>run\<close>. The server descriptor is \<open>-1\<close> until the server is constructed.
\<close>

definition new_worker :: "io_context \<Rightarrow> worker" where
  "new_worker c =
     \<lparr>ctx = c, server = \<lparr>server_fd = - 1, on_connect = False, server_on_disconnect = False\<rparr>,
      objects = Map.empty, next_addr = 0, local_connections = Map.empty, closed_fds = []\<rparr>"

definition worker_serve :: "(string \<Rightarrow> int) \<Rightarrow> (worker, unit) st" where
  "worker_serve sys =
     (case new_tcp_server sys of
        Inl f \<Rightarrow> throw f
      | Inr s \<Rightarrow>
          bindS (modifyS (\<lambda>w. w\<lparr>server := server_set_on_disconnect (server_set_on_connect s)\<rparr>)) (\<lambda>_.
          bindS server_start (\<lambda>_.
          bindS (on_ctx set_notification_handler) (\<lambda>_.
          on_ctx submit_notification_read))))"

text \<open>
  The end of \<open>worker_main\<close> by an exception: its locals are destroyed in reverse order, the server, the
  map of connections, then the event loop context. The \<open>Connection\<close> objects were released to the heap
  and stay there, with their sockets.
\<close>

definition worker_unwind :: "worker \<Rightarrow> worker" where
  "worker_unwind w =
     w\<lparr>local_connections := Map.empty,
       closed_fds := io_context_destroy (ctx w) (tcp_server_destroy (server w) (closed_fds w))\<rparr>"

definition end_thread :: "nat \<Rightarrow> machine \<Rightarrow> machine" where
  "end_thread i M = M\<lparr>workers := (workers M)[i := worker_unwind (workers M ! i)]\<rparr>"

end
