(* ===== verification/Remote_Commands.thy ===== *)
theory Remote_Commands
  imports Worker
begin

text \<open>
  Commands on keys of another core, end to end: the request travels through the channel of the
  owner, the owner executes it and sends the reply back, and the core of the client queues the
  reply on the connection. The properties compare the outcome with that of a command on a local
  key.
\<close>

section \<open>Handlers on the machine\<close>

lemma on_node_apply: "m (mnode M) = (r, nd') \<Longrightarrow> on_node m M = (r, M\<lparr>mnode := nd'\<rparr>)"
  by (simp add: on_node_def)

lemma on_worker_apply:
  "m (workers M ! i) = (r, w') \<Longrightarrow> on_worker i m M = (r, M\<lparr>workers := (workers M)[i := w']\<rparr>)"
  by (simp add: on_worker_def)

lemma bindS_ret_unit: "bindS m ret = m"
  by (rule ext) (auto simp: bindS_def split: prod.splits sum.splits)

text \<open>The machine once core \<open>i\<close> has taken the batch out of its channel.\<close>

definition emptied :: "nat \<Rightarrow> machine \<Rightarrow> machine" where
  "emptied i M = set_my_channel i ((my_channel i M)\<lparr>queue := []\<rparr>) M"

lemma emptied_topo:
  assumes "topo_inv hs (topo (mnode M))" "i < num_cores (topo (mnode M))"
  defines "t' \<equiv> topo (mnode (emptied i M))"
  shows "topo_inv hs t'" "topo_db t' = topo_db (topo (mnode M))"
    "channel_of t' = (channel_of (topo (mnode M)))(i := [])" "get_target_core t' = get_target_core (topo (mnode M))"
    "num_cores t' = num_cores (topo (mnode M))" "fd_writes t' = fd_writes (topo (mnode M))"
    "notify_fds t' = notify_fds (topo (mnode M))"
  using assms
  by (auto simp: emptied_def set_my_channel_def my_channel_def channel_of_def fun_eq_iff topo_inv_def
      nth_list_update)

lemma emptied_rest [simp]:
  "workers (emptied i M) = workers M" "ticks (emptied i M) = ticks M"
  "files (mnode (emptied i M)) = files (mnode M)" "next_conn_id (emptied i M) = next_conn_id M"
  by (simp_all add: emptied_def set_my_channel_def)

lemma notification_batch:
  "notification_handler hs wr clk i M =
    for_batch (handle_message hs wr clk i) (channel_of (topo (mnode M)) i) (emptied i M)"
  by (simp add: notification_handler_def consume_all_def channel_of_def my_channel_def emptied_def)

lemma notification_single:
  "channel_of (topo (mnode M)) i = [msg] \<Longrightarrow>
     notification_handler hs wr clk i M = handle_message hs wr clk i msg (emptied i M)"
  by (simp add: notification_batch bindS_ret_unit)

lemma send_response_apply:
  assumes "topo_inv hs (topo (mnode M))" "origin_core_id msg < num_cores (topo (mnode M))"
  obtains t' where "send_response i msg resp M = (Inr (), M\<lparr>mnode := (mnode M)\<lparr>topo := t'\<rparr>\<rparr>)"
    "topo_inv hs t'" "topo_db t' = topo_db (topo (mnode M))"
    "channel_of t' = (channel_of (topo (mnode M)))(origin_core_id msg :=
       channel_of (topo (mnode M)) (origin_core_id msg) @ [response_message i (conn_id msg) resp])"
    "num_cores t' = num_cores (topo (mnode M))" "notify_fds t' = notify_fds (topo (mnode M))"
    "fd_writes t' = fd_writes (topo (mnode M)) @
       (if 0 \<le> notify_fds (topo (mnode M)) ! origin_core_id msg
        then [notify_fds (topo (mnode M)) ! origin_core_id msg] else [])"
proof -
  let ?t = "topo (mnode M)" and ?o = "origin_core_id msg"
  obtain t1 where t1: "push_channel ?o (response_message i (conn_id msg) resp) ?t = (Inr (), t1)"
    "topo_inv hs t1" "topo_db t1 = topo_db ?t"
    "channel_of t1 = (channel_of ?t)(?o := channel_of ?t ?o @ [response_message i (conn_id msg) resp])"
    "fd_writes t1 = fd_writes ?t" "router t1 = router ?t" "num_cores t1 = num_cores ?t"
    "notify_fds t1 = notify_fds ?t" "shards t1 = shards ?t"
    by (rule push_channel_apply [OF assms, where msg = "response_message i (conn_id msg) resp"])
  obtain t2 where t2: "notify_core ?o t1 = (Inr (), t2)" "topo_inv hs t2" "topo_db t2 = topo_db t1"
    "channel_of t2 = channel_of t1" "router t2 = router t1" "num_cores t2 = num_cores t1"
    "notify_fds t2 = notify_fds t1" "shards t2 = shards t1"
    "fd_writes t2 = fd_writes t1 @ (if ?o < num_cores t1 \<and> 0 \<le> notify_fds t1 ! ?o then [notify_fds t1 ! ?o] else [])"
    by (rule notify_core_apply [OF t1(2), of ?o])
  have "send_response i msg resp M = (Inr (), M\<lparr>mnode := (mnode M)\<lparr>topo := t2\<rparr>\<rparr>)"
    unfolding send_response_def
    by (intro on_node_apply on_topo_apply) (simp add: t1(1) t2(1))
  with t1 t2 assms(2) show ?thesis by (intro that [of t2]) simp_all
qed

text \<open>A request whose execution gives a reply.\<close>

lemma handle_request:
  assumes inv: "topo_inv hs (topo (mnode M))" and o: "origin_core_id msg < num_cores (topo (mnode M))"
    and req: "mtype msg = REQUEST"
    and ex: "execute_request hs wr (clk (ticks M)) j msg (mnode M) = (Inr resp, (mnode M)\<lparr>topo := t1\<rparr>)"
    and t1: "topo_inv hs t1" "num_cores t1 = num_cores (topo (mnode M))" and resp: "resp \<noteq> []"
  obtains t' where "handle_message hs wr clk j msg M =
      (Inr (), M\<lparr>mnode := (mnode M)\<lparr>topo := t'\<rparr>, ticks := Suc (ticks M)\<rparr>)"
    "topo_inv hs t'" "topo_db t' = topo_db t1" "num_cores t' = num_cores t1"
    "channel_of t' = (channel_of t1)(origin_core_id msg :=
       channel_of t1 (origin_core_id msg) @ [response_message j (conn_id msg) resp])"
proof -
  let ?M = "M\<lparr>ticks := Suc (ticks M), mnode := (mnode M)\<lparr>topo := t1\<rparr>\<rparr>"
  have "on_node (execute_request hs wr (clk (ticks M)) j msg) (M\<lparr>ticks := Suc (ticks M)\<rparr>) = (Inr resp, ?M)"
    using on_node_apply [of _ "M\<lparr>ticks := Suc (ticks M)\<rparr>"] ex by simp
  then have "handle_message hs wr clk j msg M = send_response j msg resp ?M"
    using req resp by (simp add: handle_message_def with_clock_def bindS_def)
  moreover obtain t' where "send_response j msg resp ?M = (Inr (), ?M\<lparr>mnode := (mnode ?M)\<lparr>topo := t'\<rparr>\<rparr>)"
    "topo_inv hs t'" "topo_db t' = topo_db (topo (mnode ?M))"
    "channel_of t' = (channel_of (topo (mnode ?M)))(origin_core_id msg :=
       channel_of (topo (mnode ?M)) (origin_core_id msg) @ [response_message j (conn_id msg) resp])"
    "num_cores t' = num_cores (topo (mnode ?M))" "notify_fds t' = notify_fds (topo (mnode ?M))"
    "fd_writes t' = fd_writes (topo (mnode ?M)) @
       (if 0 \<le> notify_fds (topo (mnode ?M)) ! origin_core_id msg
        then [notify_fds (topo (mnode ?M)) ! origin_core_id msg] else [])"
    by (rule send_response_apply [of hs ?M msg]) (use t1 o in simp_all)
  ultimately show ?thesis by (intro that [of t']) simp_all
qed

text \<open>A response for a connection that is still open.\<close>

lemma handle_response:
  assumes "i < length (workers M)" "mtype msg = RESPONSE" "local_connections (workers M ! i) (conn_id msg) = Some a"
    "objects (workers M ! i) a = Some c" "worker_inv (workers M ! i) todo"
  obtains w' where "handle_message hs wr clk i msg M = (Inr (), M\<lparr>workers := (workers M)[i := w']\<rparr>)"
    "worker_inv w' todo" "objects w' = (objects (workers M ! i))
       (a \<mapsto> c\<lparr>write_queue := write_queue c @ [payload msg], is_writing := True\<rparr>)"
    "local_connections w' = local_connections (workers M ! i)"
proof (rule submit_write_inv [OF assms(5,4), where data = "payload msg"])
  fix w'
  assume w': "submit_write a (payload msg) (workers M ! i) = (Inr (), w')" "worker_inv w' todo"
    "objects w' = (objects (workers M ! i))
       (a \<mapsto> c\<lparr>write_queue := write_queue c @ [payload msg], is_writing := True\<rparr>)"
    "local_connections w' = local_connections (workers M ! i)"
  have "on_worker i (deliver_response msg) M = (Inr (), M\<lparr>workers := (workers M)[i := w']\<rparr>)"
    by (rule on_worker_apply) (simp add: deliver_response_def assms(3) w'(1))
  with w' assms(2) show ?thesis by (intro that [of w']) (simp_all add: handle_message_def)
qed

text \<open>The client's core forwards the command.\<close>

lemma receive_forward:
  assumes i: "i < length (workers M)" and a: "objects (workers M ! i) a = Some c" "parser c = new_parser"
    and nm: "to_upper nm = command_name cmd" "cmd \<noteq> SaveCommand" "command_error cmd (nm # as) = None" "as \<noteq> []" "hd as = k"
    and len: "length (nm # as) < 2 ^ 31" "\<forall>x \<in> set (nm # as). length x < 2 ^ 31"
    and inv: "topo_inv hs (topo (mnode M))" and own: "get_target_core (topo (mnode M)) k = j" "j \<noteq> i"
  obtains t' where "receive_data hs wr t i a (resp_encode (nm # as)) M = (Inr [], M\<lparr>mnode := (mnode M)\<lparr>topo := t'\<rparr>\<rparr>)"
    "topo_inv hs t'" "topo_db t' = topo_db (topo (mnode M))" "num_cores t' = num_cores (topo (mnode M))"
    "channel_of t' = (channel_of (topo (mnode M)))(j := channel_of (topo (mnode M)) j @ [request_message i (cid c) (nm # as)])"
    "get_target_core t' k = j"
proof -
  have k: "(nm # as) ! 1 = k" using nm(4,5) by (cases as) auto
  obtain t' where ex: "execute hs wr t cmd i (cid c) (nm # as) (mnode M) = (Inr [], (mnode M)\<lparr>topo := t'\<rparr>)"
    and t': "topo_inv hs t'" "topo_db t' = topo_db (topo (mnode M))" "num_cores t' = num_cores (topo (mnode M))"
    "channel_of t' = (channel_of (topo (mnode M)))(j := channel_of (topo (mnode M)) j @ [request_message i (cid c) (nm # as)])"
    "fd_writes t' = fd_writes (topo (mnode M)) @
       (if 0 \<le> notify_fds (topo (mnode M)) ! j then [notify_fds (topo (mnode M)) ! j] else [])"
    "notify_fds t' = notify_fds (topo (mnode M))"
    by (rule execute_other [OF nm(2,3) k inv own, where wr = wr and clk = t and conn = "cid c"])
  have "handle_data hs wr t i (resp_encode (nm # as)) (c, mnode M) = (Inr [], c, (mnode M)\<lparr>topo := t'\<rparr>)"
    using handle_data_command [OF a(2) _ len, of hs wr t i "[]" "mnode M"]
    by (simp add: execute_command_registered [OF nm(1)] ex)
  moreover have "(objects (workers M ! i))(a \<mapsto> c) = objects (workers M ! i)" using a(1) by (simp add: map_upd_triv)
  ultimately have "receive_data hs wr t i a (resp_encode (nm # as)) M = (Inr [], M\<lparr>mnode := (mnode M)\<lparr>topo := t'\<rparr>\<rparr>)"
    using a(1) by (simp add: receive_data_def)
  moreover have "get_target_core t' k = j"
    using own(1) inv t'(1,3) by (simp add: get_target_core_def topo_inv_def)
  ultimately show ?thesis using t' by (intro that [of t']) simp_all
qed

lemma execute_request_registered:
  "main_registry nm = Some cmd \<Longrightarrow>
     execute_request hs wr t j (request_message i conn (nm # as)) = execute hs wr t cmd j conn (nm # as)"
  by (simp add: execute_request_def request_message_def get_registered_def)

lemma execute_request_unknown:
  "main_registry nm = None \<Longrightarrow> execute_request hs wr t j (request_message i conn (nm # as)) =
     ret (''-ERR unknown command '' @ [CHR 0x27] @ nm @ [CHR 0x27] @ crlf)"
  by (simp add: execute_request_def request_message_def get_registered_def)

lemma request_message_fields [simp]:
  "mtype (request_message i conn as) = REQUEST" "origin_core_id (request_message i conn as) = i"
  "conn_id (request_message i conn as) = conn" "margs (request_message i conn as) = as"
  by (simp_all add: request_message_def)

lemma response_message_fields [simp]:
  "mtype (response_message i conn resp) = RESPONSE" "conn_id (response_message i conn resp) = conn"
  "payload (response_message i conn resp) = resp"
  by (simp_all add: response_message_def)

text \<open>
  The way of a forwarded request: the owner \<open>j\<close> handles it, then the client's core \<open>i\<close> handles the
  response.
\<close>

lemma request_and_response:
  assumes i: "i < length (workers M)" "i < num_cores (topo (mnode M))" and j: "j < num_cores (topo (mnode M))" "j \<noteq> i"
    and a: "objects (workers M ! i) a = Some c" "local_connections (workers M ! i) (cid c) = Some a"
      "worker_inv (workers M ! i) todo"
    and inv: "topo_inv hs (topo (mnode M))"
    and ch: "channel_of (topo (mnode M)) j = [request_message i (cid c) as]" "channel_of (topo (mnode M)) i = []"
    and t1: "execute_request hs wr (clk (ticks M)) j (request_message i (cid c) as) (mnode (emptied j M)) =
        (Inr resp, (mnode (emptied j M))\<lparr>topo := t1\<rparr>)"
      "topo_inv hs t1" "num_cores t1 = num_cores (topo (mnode (emptied j M)))"
      "channel_of t1 = channel_of (topo (mnode (emptied j M)))" "topo_db t1 = db'"
    and resp: "resp \<noteq> []"
  shows "\<exists>M1 M2. notification_handler hs wr clk j M = (Inr (), M1) \<and>
    notification_handler hs wr clk i M1 = (Inr (), M2) \<and> topo_inv hs (topo (mnode M2)) \<and>
    topo_db (topo (mnode M2)) = db' \<and> channel_of (topo (mnode M2)) i = [] \<and> channel_of (topo (mnode M2)) j = [] \<and>
    write_queue (the (objects (workers M2 ! i) a)) = write_queue c @ [resp] \<and> worker_inv (workers M2 ! i) todo"
proof -
  let ?Ma = "emptied j M" and ?msg = "request_message i (cid c) as"
  note ma = emptied_topo [OF inv j(1)]
  obtain t2 where t2: "handle_message hs wr clk j ?msg ?Ma =
      (Inr (), ?Ma\<lparr>mnode := (mnode ?Ma)\<lparr>topo := t2\<rparr>, ticks := Suc (ticks ?Ma)\<rparr>)"
    "topo_inv hs t2" "topo_db t2 = topo_db t1" "num_cores t2 = num_cores t1"
    "channel_of t2 = (channel_of t1)(i := channel_of t1 i @ [response_message j (cid c) resp])"
    by (rule handle_request [OF ma(1), of ?msg wr clk j resp t1])
      (use t1 ma i(2) resp in \<open>simp_all\<close>)
  let ?M1 = "?Ma\<lparr>mnode := (mnode ?Ma)\<lparr>topo := t2\<rparr>, ticks := Suc (ticks ?Ma)\<rparr>"
  have one: "notification_handler hs wr clk j M = (Inr (), ?M1)"
    using notification_single [OF ch(1)] t2(1) by simp
  have ch1: "channel_of (topo (mnode ?M1)) i = [response_message j (cid c) resp]"
    "channel_of (topo (mnode ?M1)) j = []"
    using t1(4) t2(5) ma(3) ch(2) j(2) by simp_all
  let ?Mb = "emptied i ?M1"
  have "topo_inv hs (topo (mnode ?M1))" "i < num_cores (topo (mnode ?M1))"
    using t2(2,4) t1(3) ma(5) i(2) by simp_all
  note mb = emptied_topo [OF this]
  obtain w' where w': "handle_message hs wr clk i (response_message j (cid c) resp) ?Mb =
      (Inr (), ?Mb\<lparr>workers := (workers ?Mb)[i := w']\<rparr>)" "worker_inv w' todo"
    "objects w' = (objects (workers ?Mb ! i))(a \<mapsto> c\<lparr>write_queue := write_queue c @
       [payload (response_message j (cid c) resp)], is_writing := True\<rparr>)"
    "local_connections w' = local_connections (workers ?Mb ! i)"
    by (rule handle_response [of i ?Mb "response_message j (cid c) resp" a c todo]) (use i(1) a in simp_all)
  have "notification_handler hs wr clk i ?M1 = (Inr (), ?Mb\<lparr>workers := (workers ?Mb)[i := w']\<rparr>)"
    using notification_single [OF ch1(1)] w'(1) by simp
  with one show ?thesis
    using mb t2(2,3) t1(5) w'(2,3) i(1) ch1 j(2)
    by (intro exI [of _ ?M1] exI [of _ "?Mb\<lparr>workers := (workers ?Mb)[i := w']\<rparr>"]) simp
qed

section \<open>Every reply has bytes\<close>

lemma reply_not_Nil [simp]:
  "int_reply n \<noteq> []" "bulk x \<noteq> []" "null_bulk \<noteq> []" "array_reply n xs \<noteq> []" "empty_array \<noteq> []"
  "ok_reply \<noteq> []" "wrong_type \<noteq> []" "not_an_integer \<noteq> []" "not_a_float \<noteq> []"
  by (simp_all add: int_reply_def bulk_def null_bulk_def array_reply_def empty_array_def ok_reply_def
      wrong_type_def not_an_integer_def not_a_float_def)

lemma zadd_loop_not_Nil [simp]: "fst (zadd_loop xs z n) \<noteq> Inr []"
  by (induction xs z n rule: zadd_loop.induct) (auto split: sum.splits option.splits)

lemmas existing_specs = get_spec_def lpop_spec_def rpop_spec_def llen_spec_def lrange_spec_def
  smembers_spec_def srem_spec_def scard_spec_def hget_spec_def hgetall_spec_def hdel_spec_def
  hlen_spec_def zrange_spec_def zrem_spec_def zcard_spec_def zscore_spec_def

lemmas upsert_specs = lpush_spec_def rpush_spec_def sadd_spec_def hset_spec_def zadd_spec_def

lemma command_spec_not_Nil: "fst (command_spec clk c args s) \<noteq> Inr []"
  by (cases c)
    (simp_all add: existing_specs upsert_specs spec_existing_def spec_upsert_def set_spec_def del_spec_def
      expire_spec_def ttl_spec_def Let_def split: option.split list.split sum.split prod.split)

lemma to_upper_command_name: "to_upper (command_name cmd) = command_name cmd"
  by (cases cmd) (simp_all add: to_upper_def to_upper_char_def)

section \<open>Properties\<close>

text \<open>The second half: the request is queued at the owner \<open>j\<close>, and the two cores handle their notifications.\<close>

lemma queued_request:
  assumes i: "i < length (workers M)" "i < num_cores (topo (mnode M))"
    and a: "objects (workers M ! i) a = Some c" "local_connections (workers M ! i) (cid c) = Some a"
      "worker_inv (workers M ! i) todo"
    and cmd: "cmd \<noteq> SaveCommand" "command_error cmd (command_name cmd # as) = None" "(command_name cmd # as) ! 1 = k"
    and inv: "topo_inv hs (topo (mnode M))" "get_target_core (topo (mnode M)) k = j" "j \<noteq> i"
      "small_slot (topo_db (topo (mnode M)) k)"
    and ch: "channel_of (topo (mnode M)) j = [request_message i (cid c) (command_name cmd # as)]"
      "channel_of (topo (mnode M)) i = []"
    and spec: "command_spec (clk (ticks M)) cmd (command_name cmd # as) (topo_db (topo (mnode M)) k) = (Inr reply, s')"
  shows "(\<exists>M2 M3. notification_handler hs wr clk j M = (Inr (), M2) \<and>
        notification_handler hs wr clk i M2 = (Inr (), M3) \<and> topo_inv hs (topo (mnode M3)) \<and>
        topo_db (topo (mnode M3)) = (topo_db (topo (mnode M)))(k := s') \<and>
        channel_of (topo (mnode M3)) i = [] \<and> channel_of (topo (mnode M3)) j = [] \<and>
        write_queue (the (objects (workers M3 ! i) a)) = write_queue c @ [reply] \<and>
        worker_inv (workers M3 ! i) todo) \<or>
     may_fill (clk (ticks M)) cmd (topo_db (topo (mnode M)) k) \<and>
       fst (notification_handler hs wr clk j M) = Inl (Runtime_error ''HashMap is full'')"
proof -
  let ?nm = "command_name cmd" and ?msg = "request_message i (cid c) (command_name cmd # as)"
  let ?nd = "mnode (emptied j M)"
  have j: "j < num_cores (topo (mnode M))" using target_in_range [OF inv(1), of k] inv(2) by simp
  note em = emptied_topo [OF inv(1) j]
  have own: "get_target_core (topo ?nd) k = j" using em(4) inv(2) by simp
  have small: "small_slot (topo_db (topo ?nd) k)" using em(2) inv(4) by simp
  obtain r t2 where ex: "execute hs wr (clk (ticks M)) cmd j (cid c) (?nm # as) ?nd = (r, ?nd\<lparr>topo := t2\<rparr>)" "topo_inv hs t2"
    "num_cores t2 = num_cores (topo ?nd)" "channel_of t2 = channel_of (topo ?nd)"
    "\<forall>l. l \<noteq> k \<longrightarrow> topo_db t2 l = topo_db (topo ?nd) l"
    "(r, topo_db t2 k) = command_spec (clk (ticks M)) cmd (?nm # as) (topo_db (topo ?nd) k) \<or>
       may_fill (clk (ticks M)) cmd (topo_db (topo ?nd) k) \<and>
       r = Inl (Runtime_error ''HashMap is full'') \<and> topo_db t2 k = None"
    by (rule execute_owner [OF cmd em(1) own small, where wr = wr and clk = "clk (ticks M)" and conn = "cid c"])
  have req: "execute_request hs wr (clk (ticks M)) j ?msg ?nd = (r, ?nd\<lparr>topo := t2\<rparr>)"
    using execute_request_registered [OF main_registry_name] ex(1) by simp
  show ?thesis
  proof (cases "(r, topo_db t2 k) = (Inr reply, s')")
    case True
    have "topo_db t2 = (topo_db (topo (mnode M)))(k := s')" using True ex(5) em(2) by (auto simp: fun_eq_iff)
    moreover have "reply \<noteq> []" using command_spec_not_Nil spec by (metis fst_conv)
    ultimately show ?thesis
      by (intro disjI1 request_and_response [where as = "?nm # as" and ?t1.0 = t2])
        (use True req ex(2-4) i a inv j ch in simp_all)
  next
    case False
    then have full: "may_fill (clk (ticks M)) cmd (topo_db (topo (mnode M)) k)" "r = Inl (Runtime_error ''HashMap is full'')"
      using ex(6) spec em(2) by auto
    have "fst (notification_handler hs wr clk j M) = Inl (Runtime_error ''HashMap is full'')"
      using notification_single [OF ch(1)] req full(2)
      by (simp add: handle_message_def with_clock_def on_node_def zoom_def bindS_def)
    with full show ?thesis by blast
  qed
qed

text \<open>
  C3: A command is transparent to the place of its key. Let a connection on core \<open>i\<close> receive a
  command in upper case whose key belongs to another core \<open>j\<close>, with no other message on its way
  between them. Then the connection's core replies nothing at first; once \<open>j\<close> and then \<open>i\<close> have
  handled their notifications, the database is the one the command's specification gives, and the
  reply of the specification is the last response queued on the connection. The only other
  outcome is a full hash map on \<open>j\<close>.
\<close>

theorem remote_command:
  assumes i: "i < length (workers M)" "i < num_cores (topo (mnode M))"
    and a: "objects (workers M ! i) a = Some c" "parser c = new_parser"
      "local_connections (workers M ! i) (cid c) = Some a" "worker_inv (workers M ! i) todo"
    and cmd: "cmd \<noteq> SaveCommand" "command_error cmd (command_name cmd # as) = None" "as \<noteq> []" "hd as = k"
      "length (command_name cmd # as) < 2 ^ 31" "\<forall>x \<in> set (command_name cmd # as). length x < 2 ^ 31"
    and inv: "topo_inv hs (topo (mnode M))" "get_target_core (topo (mnode M)) k = j" "j \<noteq> i"
      "small_slot (topo_db (topo (mnode M)) k)"
    and ch: "channel_of (topo (mnode M)) j = []" "channel_of (topo (mnode M)) i = []"
    and spec: "command_spec (clk (ticks M)) cmd (command_name cmd # as) (topo_db (topo (mnode M)) k) = (Inr reply, s')"
  shows "\<exists>M1. receive_data hs wr t i a (resp_encode (command_name cmd # as)) M = (Inr [], M1) \<and>
    ((\<exists>M2 M3. notification_handler hs wr clk j M1 = (Inr (), M2) \<and>
        notification_handler hs wr clk i M2 = (Inr (), M3) \<and> topo_inv hs (topo (mnode M3)) \<and>
        topo_db (topo (mnode M3)) = (topo_db (topo (mnode M)))(k := s') \<and>
        channel_of (topo (mnode M3)) i = [] \<and> channel_of (topo (mnode M3)) j = [] \<and>
        write_queue (the (objects (workers M3 ! i) a)) = write_queue c @ [reply] \<and>
        worker_inv (workers M3 ! i) todo) \<or>
     may_fill (clk (ticks M)) cmd (topo_db (topo (mnode M)) k) \<and>
       fst (notification_handler hs wr clk j M1) = Inl (Runtime_error ''HashMap is full''))"
proof -
  let ?nm = "command_name cmd" and ?msg = "request_message i (cid c) (command_name cmd # as)"
  have k: "(?nm # as) ! 1 = k" using cmd(3,4) by (cases as) auto
  obtain t' where t': "receive_data hs wr t i a (resp_encode (?nm # as)) M = (Inr [], M\<lparr>mnode := (mnode M)\<lparr>topo := t'\<rparr>\<rparr>)"
    "topo_inv hs t'" "topo_db t' = topo_db (topo (mnode M))" "num_cores t' = num_cores (topo (mnode M))"
    "channel_of t' = (channel_of (topo (mnode M)))(j := channel_of (topo (mnode M)) j @ [?msg])"
    "get_target_core t' k = j"
    by (rule receive_forward [OF i(1) a(1,2) to_upper_command_name cmd(1,2,3,4,5,6) inv(1,2,3), where wr = wr and t = t])
  let ?M1 = "M\<lparr>mnode := (mnode M)\<lparr>topo := t'\<rparr>\<rparr>"
  show ?thesis
    using queued_request [of i ?M1 a c todo cmd as k hs j clk reply s' wr] t' i a cmd(1,2) k inv ch spec by auto
qed

text \<open>A node of two cores, each with one idle connection.\<close>

abbreviation idle_connection :: connection where
  "idle_connection \<equiv> set_on_disconnect (new_connection 5 1)"

definition idle_worker :: worker where
  "idle_worker =
     \<lparr>ctx = \<lparr>ring = \<lparr>sqes = [empty_sqe], pending_sqes = map (\<lambda>op. empty_sqe\<lparr>user_data := Some op\<rparr>) [Notification_op, Accept_op, Read_op 0],
                    cqes = [], entries = 1\<rparr>,
             event_fd = 3, notify_fd = 3, notification_handler_set = True\<rparr>,
      server = \<lparr>server_fd = 4, on_connect = True, server_on_disconnect = True\<rparr>,
      objects = [0 \<mapsto> idle_connection], next_addr = 1, local_connections = [1 \<mapsto> 0],
      closed_fds = []\<rparr>"

definition idle_machine :: machine where
  "idle_machine =
     \<lparr>mnode = \<lparr>topo = new_topology 2, files = Map.empty\<rparr>, workers = [idle_worker, idle_worker],
      next_conn_id = 2, ticks = 0\<rparr>"

lemma idle_worker_inv: "worker_inv idle_worker {#}"
  by (auto simp: worker_inv_def conn_inv_def idle_worker_def pending_ops_def in_flight_def empty_sqe_def
      new_connection_def set_on_disconnect_def split: if_splits)

lemma idle_machine_facts:
  "topo_inv hs (topo (mnode idle_machine))" "topo_db (topo (mnode idle_machine)) = Map.empty"
  "num_cores (topo (mnode idle_machine)) = 2" "length (workers idle_machine) = 2"
  "i < 2 \<Longrightarrow> workers idle_machine ! i = idle_worker" "i < 2 \<Longrightarrow> channel_of (topo (mnode idle_machine)) i = []"
  "get_target_core (topo (mnode idle_machine)) k < 2"
proof -
  show inv: "topo_inv hs (topo (mnode idle_machine))" for hs by (simp add: idle_machine_def topo_inv_new)
  show n: "num_cores (topo (mnode idle_machine)) = 2" by (simp add: idle_machine_def new_topology_def)
  show "topo_db (topo (mnode idle_machine)) = Map.empty" using topo_db_new [of 2] by (simp add: idle_machine_def)
  show "get_target_core (topo (mnode idle_machine)) k < 2" using target_in_range [OF inv, of k] n by simp
qed (auto simp: idle_machine_def channel_of_def new_topology_def new_channel_def less_2_cases_iff)

lemma idle_other_core:
  obtains i where "i < 2" "get_target_core (topo (mnode idle_machine)) k \<noteq> i"
    "get_target_core (topo (mnode idle_machine)) k < 2"
proof -
  let ?j = "get_target_core (topo (mnode idle_machine)) k"
  have "1 - ?j < 2" "?j \<noteq> 1 - ?j" by arith+
  with idle_machine_facts(7) that show ?thesis by blast
qed

lemma idle_worker_conn:
  "objects idle_worker 0 = Some idle_connection" "parser idle_connection = new_parser"
  "local_connections idle_worker (cid idle_connection) = Some 0"
  by (simp_all add: idle_worker_def new_connection_def set_on_disconnect_def)

theorem remote_command_witness:
  "\<exists>i j M1 M2 M3. j \<noteq> i \<and>
    receive_data length (\<lambda>_. True) (\<lambda>_. 0) i 0 (resp_encode (command_name LPopCommand # [''k''])) idle_machine = (Inr [], M1) \<and>
    notification_handler length (\<lambda>_. True) (\<lambda>_ _. 0) j M1 = (Inr (), M2) \<and>
    notification_handler length (\<lambda>_. True) (\<lambda>_ _. 0) i M2 = (Inr (), M3) \<and>
    write_queue (the (objects (workers M3 ! i) 0)) = [null_bulk]"
proof -
  let ?j = "get_target_core (topo (mnode idle_machine)) ''k''"
  obtain i where i: "i < 2" "?j \<noteq> i" "?j < 2" by (rule idle_other_core)
  note w = idle_machine_facts(5) [OF i(1)]
  have spec: "command_spec (\<lambda>_. 0) LPopCommand (command_name LPopCommand # [''k'']) (topo_db (topo (mnode idle_machine)) ''k'') =
      (Inr null_bulk, None)"
    by (simp add: idle_machine_facts(2) lpop_spec_def spec_existing_def)
  have "\<not> may_fill (\<lambda>_. 0) LPopCommand s" for s by (simp add: may_fill_def)
  moreover have "command_error LPopCommand (command_name LPopCommand # [''k'']) = None"
    "length (command_name LPopCommand # [''k'']) < 2 ^ 31"
    "\<forall>x \<in> set (command_name LPopCommand # [''k'']). length x < 2 ^ 31"
    by (simp_all add: arity_error_def)
  moreover have "small_slot (topo_db (topo (mnode idle_machine)) ''k'')" by (simp add: idle_machine_facts(2))
  moreover have "write_queue idle_connection = []" by (simp add: new_connection_def set_on_disconnect_def)
  moreover have "i < length (workers idle_machine)" "i < num_cores (topo (mnode idle_machine))"
    using i(1) idle_machine_facts(3,4) by simp_all
  ultimately show ?thesis
    using remote_command [of i idle_machine 0 idle_connection "{#}" LPopCommand "[''k'']" "''k''" length ?j
        "\<lambda>_ _. 0" null_bulk None "\<lambda>_. True" "\<lambda>_. 0"] i w spec idle_worker_conn idle_worker_inv
      idle_machine_facts(1) idle_machine_facts(6) [OF i(1)] idle_machine_facts(6) [OF i(3)]
    by (intro exI [of _ i] exI [of _ ?j]) auto
qed



text \<open>The fallback for PING on a connection between two commands.\<close>

lemma receive_ping:
  assumes "objects (workers M ! i) a = Some c" "parser c = new_parser"
  shows "receive_data hs wr t i a (resp_encode [''PING'']) M = (Inr (''+PONG'' @ crlf), M)"
proof -
  have "main_registry ''PING'' = None" by (simp add: main_registry_def registered_commands_def register_command_def)
  then have "execute_command hs wr t i (cid c) [''PING''] (mnode M) = (Inr (''+PONG'' @ crlf), mnode M)"
    by (simp add: execute_command_def get_registered_def to_upper_def to_upper_char_def)
  then have "handle_data hs wr t i (resp_encode [''PING'']) (c, mnode M) = (Inr (''+PONG'' @ crlf), c, mnode M)"
    using handle_data_command [OF assms(2), of "[''PING'']" hs wr t i "[]" "mnode M"] by simp
  moreover have "(objects (workers M ! i))(a \<mapsto> c) = objects (workers M ! i)" using assms(1) by (simp add: map_upd_triv)
  ultimately show ?thesis using assms(1) by (simp add: receive_data_def)
qed



end
