(* ===== verification/Cluster.thy ===== *)
theory Cluster
  imports Remote_Commands
begin

text \<open>
  All cores of a node running concurrently, as a step relation: a core waits on its ring, or
  handles its next completion, in any interleaving with the others. The invariant of the node is
  proved by rule induction: it holds in every reachable state.
\<close>

section \<open>What handlers do to the shared state\<close>

text \<open>The number of times the event loop of core \<open>i\<close> has been woken up.\<close>

definition wakeups :: "topology \<Rightarrow> nat \<Rightarrow> nat" where
  "wakeups t i = count_list (fd_writes t) (notify_fds t ! i)"

definition message_ok :: "nat \<Rightarrow> message \<Rightarrow> bool" where
  "message_ok n m \<longleftrightarrow> origin_core_id m < n \<and> (mtype m = REQUEST \<longrightarrow> margs m \<noteq> [])"

definition all_registered :: "topology \<Rightarrow> bool" where
  "all_registered t \<longleftrightarrow> (\<forall>i < num_cores t. 0 \<le> notify_fds t ! i)"

text \<open>
  A handler may change shards and append well-formed messages to channels; it wakes up every core
  it sends a message to.
\<close>

definition extends :: "(string \<Rightarrow> nat) \<Rightarrow> topology \<Rightarrow> topology \<Rightarrow> bool" where
  "extends hs t t' \<longleftrightarrow>
     topo_inv hs t' \<and> num_cores t' = num_cores t \<and> notify_fds t' = notify_fds t \<and>
     (\<forall>i. \<exists>ms. channel_of t' i = channel_of t i @ ms \<and> (\<forall>m \<in> set ms. message_ok (num_cores t) m) \<and>
        wakeups t i + (if ms = [] then 0 else 1) \<le> wakeups t' i)"

lemma extends_same:
  assumes "topo_inv hs t'" "num_cores t' = num_cores t" "notify_fds t' = notify_fds t"
    "channel_of t' = channel_of t" "fd_writes t' = fd_writes t"
  shows "extends hs t t'"
  using assms by (auto simp: extends_def wakeups_def)

lemma extends_refl: "topo_inv hs t \<Longrightarrow> extends hs t t"
  by (simp add: extends_same)

lemma extends_trans:
  assumes "extends hs t u" "extends hs u v"
  shows "extends hs t v"
proof -
  have "\<exists>ms. channel_of v i = channel_of t i @ ms \<and> (\<forall>m \<in> set ms. message_ok (num_cores t) m) \<and>
      wakeups t i + (if ms = [] then 0 else 1) \<le> wakeups v i" for i
  proof -
    obtain ms where "channel_of u i = channel_of t i @ ms" "\<forall>m \<in> set ms. message_ok (num_cores t) m"
      "wakeups t i + (if ms = [] then 0 else 1) \<le> wakeups u i"
      using assms(1) by (auto simp: extends_def)
    moreover obtain ms' where "channel_of v i = channel_of u i @ ms'" "\<forall>m \<in> set ms'. message_ok (num_cores t) m"
      "wakeups u i + (if ms' = [] then 0 else 1) \<le> wakeups v i"
      using assms by (fastforce simp: extends_def)
    ultimately show ?thesis by (intro exI [of _ "ms @ ms'"]) (auto split: if_splits)
  qed
  then show ?thesis using assms by (auto simp: extends_def)
qed

lemma extends_send:
  assumes "topo_inv hs t'" "num_cores t' = num_cores t" "notify_fds t' = notify_fds t" "all_registered t"
    "j < num_cores t" "message_ok (num_cores t) m"
    "channel_of t' = (channel_of t)(j := channel_of t j @ [m])"
    "fd_writes t' = fd_writes t @ (if 0 \<le> notify_fds t ! j then [notify_fds t ! j] else [])"
  shows "extends hs t t'"
proof -
  have "\<exists>ms. channel_of t' i = channel_of t i @ ms \<and> (\<forall>m \<in> set ms. message_ok (num_cores t) m) \<and>
      wakeups t i + (if ms = [] then 0 else 1) \<le> wakeups t' i" for i
    using assms(3-8) by (cases "i = j") (auto simp: wakeups_def all_registered_def)
  then show ?thesis using assms(1-3) by (simp add: extends_def)
qed

lemma all_registered_extends: "extends hs t t' \<Longrightarrow> all_registered t \<Longrightarrow> all_registered t'"
  by (simp add: extends_def all_registered_def)

text \<open>Every command, whatever the size of the containers.\<close>

lemma lrange_any:
  "key_command hs core conn args (lrange_command hs clk core conn args) (arity_error (length args \<noteq> 4) ''lrange'')
     (slot_holds as_list (\<lambda>_. True)) (\<lambda>_. False)
     (spec_existing (clk 0) as_list VList empty_array (\<lambda>list. (lrange_reply args list, None)))"
  by (rule alt_list.existing_command [OF lrange_command_def]) simp_all

lemma zrange_any:
  "key_command hs core conn args (zrange_command hs clk core conn args) (arity_error (length args < 4) ''zrange'')
     (slot_holds as_zset (\<lambda>_. True)) (\<lambda>_. False)
     (spec_existing (clk 0) as_zset VZSet empty_array (\<lambda>z. (zrange_reply args (tree z), None)))"
  by (rule alt_zset.existing_command [OF zrange_command_def]) simp_all

lemma key_command_any:
  "c \<noteq> SaveCommand \<Longrightarrow> \<exists>m spec. execute hs wr clk c core conn args = on_topo m \<and>
     key_command hs core conn args m (command_error c args) (\<lambda>_. True) (may_fill clk c) spec"
  by (cases c; hypsubst;
      ((intro exI conjI, rule execute.simps, unfold command_error.simps,
        rule key_command_weaken, (rule lrange_any | rule zrange_any | rule key_commands)) | simp))
    (auto simp: may_fill_def slot_holds_def)

text \<open>
  A command leaves the channels alone, or it sends one request to the owner of its key, which is another core.
\<close>

lemma execute_effect:
  assumes inv: "topo_inv hs (topo nd)" and args: "args \<noteq> []"
  obtains (quiet) r nd' where "execute hs wr clk c core conn args nd = (r, nd')" "topo_inv hs (topo nd')"
      "num_cores (topo nd') = num_cores (topo nd)" "notify_fds (topo nd') = notify_fds (topo nd)"
      "channel_of (topo nd') = channel_of (topo nd)" "fd_writes (topo nd') = fd_writes (topo nd)"
  | (sent) nd' j where "execute hs wr clk c core conn args nd = (Inr [], nd')" "topo_inv hs (topo nd')"
      "num_cores (topo nd') = num_cores (topo nd)" "notify_fds (topo nd') = notify_fds (topo nd)"
      "get_target_core (topo nd) (args ! 1) = j" "j \<noteq> core"
      "channel_of (topo nd') = (channel_of (topo nd))(j := channel_of (topo nd) j @ [request_message core conn args])"
      "fd_writes (topo nd') = fd_writes (topo nd) @ (if 0 \<le> notify_fds (topo nd) ! j then [notify_fds (topo nd) ! j] else [])"
proof (cases "c = SaveCommand")
  case True
  then obtain r nd' where "execute hs wr clk c core conn args nd = (r, nd')" "topo nd' = topo nd"
    by (cases "wr dump_path"; cases "rdb_save (topo nd)") (simp_all add: save_command_def)
  with inv quiet show ?thesis by metis
next
  case False
  then obtain m spec where m: "execute hs wr clk c core conn args = on_topo m"
    "key_command hs core conn args m (command_error c args) (\<lambda>_. True) (may_fill clk c) spec"
    using key_command_any by blast
  have run: "execute hs wr clk c core conn args nd = (r, nd\<lparr>topo := t'\<rparr>)" if "m (topo nd) = (r, t')" for r t'
    using on_topo_apply [where m = m and nd = nd, OF that] m(1) by simp
  show ?thesis
  proof (cases "command_error c args")
    case (Some e)
    with m(2) have "m (topo nd) = (Inr e, topo nd)" by (simp add: key_command_def)
    from run [OF this] quiet inv show ?thesis by simp
  next
    case None
    note kc = m(2) [unfolded None]
    show ?thesis
    proof (cases "get_target_core (topo nd) (args ! 1) = core")
      case True
      show ?thesis
        by (rule key_command_local [OF kc refl inv True TrueI], rule quiet, erule run) simp_all
    next
      case False
      show ?thesis
        by (rule key_command_remote [OF kc refl inv refl False], rule sent, erule run) (use False in auto)
    qed
  qed
qed

lemma execute_extends:
  assumes inv: "topo_inv hs (topo nd)" and reg: "all_registered (topo nd)" and core: "core < num_cores (topo nd)"
    and args: "args \<noteq> []"
  obtains r nd' where "execute hs wr clk c core conn args nd = (r, nd')" "extends hs (topo nd) (topo nd')"
proof (cases rule: execute_effect [OF inv args, of wr clk c core conn])
  case (1 r nd')
  then show ?thesis using that extends_same by blast
next
  case (2 nd' j)
  have "message_ok (num_cores (topo nd)) (request_message core conn args)"
    using core args by (simp add: message_ok_def)
  moreover have "j < num_cores (topo nd)" using target_in_range [OF inv] 2(5) by blast
  ultimately show ?thesis using that extends_send [OF 2(2,3,4) reg _ _ 2(7,8)] 2(1) by blast
qed

section \<open>Handlers keep the invariant of their worker\<close>

text \<open>
  \<open>keeps m todo todo'\<close>: from a worker with the completions \<open>todo\<close> to handle, a normal return of \<open>m\<close>
  leads to one with \<open>todo'\<close>.
\<close>

definition keeps ::
    "(worker, 'a) st \<Rightarrow> operation option multiset \<Rightarrow> operation option multiset \<Rightarrow> bool" where
  "keeps m todo todo' \<longleftrightarrow> (\<forall>w x w'. worker_inv w todo \<longrightarrow> m w = (Inr x, w') \<longrightarrow> worker_inv w' todo')"

lemma keepsD: "keeps m todo todo' \<Longrightarrow> worker_inv w todo \<Longrightarrow> m w = (Inr x, w') \<Longrightarrow> worker_inv w' todo'"
  by (simp add: keeps_def)

lemma keeps_ret: "keeps (ret x) todo todo"
  by (simp add: keeps_def)

lemma keeps_bind:
  assumes "keeps m todo todo1" "\<And>x. keeps (f x) todo1 todo2"
  shows "keeps (bindS m f) todo todo2"
  unfolding keeps_def
proof (intro allI impI)
  fix w x w'
  assume w: "worker_inv w todo" and run: "bindS m f w = (Inr x, w')"
  from run show "worker_inv w' todo2"
  proof (cases rule: bindS_cases)
    case (val y v)
    then show ?thesis using assms w by (blast dest: keepsD)
  qed simp
qed

lemma keeps_submit_write: "keeps (submit_write a d) todo todo"
  unfolding keeps_def
proof (intro allI impI)
  fix w x w'
  assume w: "worker_inv w todo" "submit_write a d w = (Inr x, w')"
  then obtain c where c: "objects w a = Some c"
    by (cases "objects w a") (simp_all add: submit_write_def with_object_def)
  show "worker_inv w' todo" by (rule submit_write_inv [OF w(1) c, of d]) (use w(2) in simp)
qed

lemma keeps_submit_read: "keeps (submit_read a) (add_mset (Some (Read_op a)) todo) todo"
  unfolding keeps_def
proof (intro allI impI)
  fix w x w'
  assume w: "worker_inv w (add_mset (Some (Read_op a)) todo)" "submit_read a w = (Inr x, w')"
  then obtain c where c: "objects w a = Some c"
    by (cases "objects w a") (simp_all add: submit_read_def with_object_def)
  show "worker_inv w' todo" by (rule submit_read_inv [OF w(1) c]) (use w(2) in simp)
qed

lemma keeps_handle_write: "keeps (handle_write a n) (add_mset (Some (Write_op a)) todo) todo"
  unfolding keeps_def
proof (intro allI impI)
  fix w x w'
  assume w: "worker_inv w (add_mset (Some (Write_op a)) todo)" "handle_write a n w = (Inr x, w')"
  then obtain c where c: "objects w a = Some c"
    by (cases "objects w a") (simp_all add: handle_write_def drop_connection_def with_object_def split: if_splits)
  show "worker_inv w' todo" by (rule handle_write_inv [OF w(1) c, of n]) (use w(2) in simp)
qed

lemma keeps_drop: "keeps (drop_connection a) (add_mset (Some (Read_op a)) todo) todo"
  unfolding keeps_def
proof (intro allI impI)
  fix w x w'
  assume w: "worker_inv w (add_mset (Some (Read_op a)) todo)" "drop_connection a w = (Inr x, w')"
  then obtain c where c: "objects w a = Some c"
    by (cases "objects w a") (simp_all add: drop_connection_def with_object_def)
  show "worker_inv w' todo"
    by (rule drop_connection_inv [OF w(1) c, where todo' = todo]) (use w(2) in auto)
qed

text \<open>Resubmitting an operation of the event loop itself.\<close>

lemma keeps_resubmit:
  assumes op: "op = Accept_op \<or> op = Notification_op" and prep: "\<And>w e. active (prep w e) = active e"
  shows "keeps (\<lambda>w. on_ctx (submit_sqe (prep w) op) w) (add_mset (Some op) todo) todo"
  unfolding keeps_def
proof (intro allI impI)
  fix w x w'
  assume w: "worker_inv w (add_mset (Some op) todo)" "on_ctx (submit_sqe (prep w) op) w = (Inr x, w')"
  have "sqes (ring (ctx w)) \<noteq> []" using w(1) by (simp add: worker_inv_def)
  then show "worker_inv w' todo"
  proof (rule on_ctx_submit [where prep = "prep w" and op = op])
    fix e r
    assume r: "on_ctx (submit_sqe (prep w) op) w = (Inr (), w\<lparr>ctx := (ctx w)\<lparr>ring := r\<rparr>\<rparr>)"
      "in_flight r = in_flight (ring (ctx w)) + {# sqe_set_data op (prep w e) #}"
      "cqes r = cqes (ring (ctx w))" "sqes r \<noteq> []"
    have "w' = w\<lparr>ctx := (ctx w)\<lparr>ring := r\<rparr>\<rparr>" using r(1) w(2) by simp
    moreover have "pending_ops (w\<lparr>ctx := (ctx w)\<lparr>ring := r\<rparr>\<rparr>) todo = pending_ops w (add_mset (Some op) todo)"
      using r(2) by (simp add: pending_ops_def)
    ultimately show ?thesis
      using w(1) r(2-4) op by (auto simp: worker_inv_def conn_inv_def)
  qed (simp add: prep)
qed

lemma keeps_submit_accept: "keeps submit_accept (add_mset (Some Accept_op) todo) todo"
  unfolding submit_accept_def by (rule keeps_resubmit) simp_all

lemma keeps_submit_notification:
  "keeps (on_ctx submit_notification_read) (add_mset (Some Notification_op) todo) todo"
proof -
  have "on_ctx submit_notification_read w =
      on_ctx (submit_sqe (prep_read (event_fd (ctx w)) Read_into 8) Notification_op) w"
    if "worker_inv w (add_mset (Some Notification_op) todo)" for w
    using that by (simp add: on_ctx_def zoom_def submit_notification_read_def worker_inv_def)
  with keeps_resubmit [of Notification_op "\<lambda>w. prep_read (event_fd (ctx w)) Read_into 8" todo] show ?thesis
    unfolding keeps_def by (metis prep_simps(1))
qed

text \<open>A new connection starts idle and about to read.\<close>

lemma new_client_inv:
  assumes "worker_inv w todo" "new_client fd i w = (Inr a, w')"
  shows "worker_inv w' (add_mset (Some (Read_op a)) todo)"
proof -
  have w': "a = next_addr w" "w' = w\<lparr>objects := (objects w)(a \<mapsto> set_on_disconnect (new_connection fd i)), next_addr := a + 1,
      local_connections := (local_connections w)(i \<mapsto> a)\<rparr>"
    using assms by (auto simp: new_client_def Let_def worker_inv_def)
  have cnt: "count (pending_ops w' (add_mset (Some (Read_op a)) todo)) op =
      count (pending_ops w todo) op + (if op = Some (Read_op a) then 1 else 0)" for op
    by (simp add: w'(2) pending_ops_def)
  have new: "count (pending_ops w todo) (Some (Read_op b)) = 0" "count (pending_ops w todo) (Some (Write_op b)) = 0"
    "objects w b = None" if "a \<le> b" for b
  proof -
    show "count (pending_ops w todo) (Some (Read_op b)) = 0" "count (pending_ops w todo) (Some (Write_op b)) = 0"
      using assms(1) that w'(1) by (simp_all add: worker_inv_def)
    show "objects w b = None"
      using assms(1) that w'(1) by (cases "objects w b") (auto simp: worker_inv_def conn_inv_def)
  qed
  have ring: "ring (ctx w') = ring (ctx w)" by (simp add: w'(2))
  have "conn_inv w' (add_mset (Some (Read_op a)) todo) b c" if "objects w' b = Some c" for b c
  proof (cases "b = a")
    case True
    then have "c = set_on_disconnect (new_connection fd i)" using that w'(2) by simp
    with True show ?thesis
      using cnt new [of a] pending_idle [OF new(2) [of a]] ring
      by (auto simp: conn_inv_def new_connection_def set_on_disconnect_def w'(2))
  next
    case False
    then have "conn_inv w todo b c" using that w'(2) assms(1) by (simp add: worker_inv_def)
    with False show ?thesis using cnt ring w' by (simp add: conn_inv_def)
  qed
  moreover have "\<exists>c. objects w' b = Some c \<and> cid c = l" if "local_connections w' l = Some b" for l b
  proof (cases "l = i")
    case True
    then show ?thesis using that w'(2) by (simp add: new_connection_def set_on_disconnect_def)
  next
    case False
    then have "local_connections w l = Some b" using that w'(2) by simp
    then obtain c where "objects w b = Some c" "cid c = l" using assms(1) unfolding worker_inv_def by blast
    moreover have "b \<noteq> a" using new(3) [of a] calculation(1) by auto
    ultimately show ?thesis using w'(2) by simp
  qed
  moreover have "\<forall>b \<ge> next_addr w'. count (pending_ops w' (add_mset (Some (Read_op a)) todo)) (Some (Read_op b)) = 0 \<and>
      count (pending_ops w' (add_mset (Some (Read_op a)) todo)) (Some (Write_op b)) = 0"
    using cnt new w'(2) by auto
  ultimately show ?thesis using assms(1) cnt ring w'(2) by (auto simp: worker_inv_def)
qed

lemma keeps_new_client:
  "keeps (bindS (new_client fd i) (\<lambda>a. bindS (connection_start a) (\<lambda>_. submit_accept)))
     (add_mset (Some Accept_op) todo) todo"
  unfolding keeps_def
proof (intro allI impI)
  fix w x w'
  assume w: "worker_inv w (add_mset (Some Accept_op) todo)"
    and run: "bindS (new_client fd i) (\<lambda>a. bindS (connection_start a) (\<lambda>_. submit_accept)) w = (Inr x, w')"
  from run show "worker_inv w' todo"
  proof (cases rule: bindS_cases)
    case (val a v)
    have "keeps (bindS (connection_start a) (\<lambda>_. submit_accept))
        (add_mset (Some (Read_op a)) (add_mset (Some Accept_op) todo)) todo"
      unfolding connection_start_def by (rule keeps_bind [OF keeps_submit_read keeps_submit_accept])
    then show ?thesis using new_client_inv [OF w val(1)] val(2) by (rule keepsD)
  qed simp
qed

lemma keeps_deliver: "keeps (deliver_response msg) todo todo"
  using keeps_submit_write [of _ "payload msg" todo] keeps_ret [of "()" todo]
  unfolding deliver_response_def keeps_def by (auto split: option.splits)

section \<open>Handlers keep the descriptors of their worker\<close>

definition same_fds :: "worker \<Rightarrow> worker \<Rightarrow> bool" where
  "same_fds w w' \<longleftrightarrow>
     event_fd (ctx w') = event_fd (ctx w) \<and> notify_fd (ctx w') = notify_fd (ctx w) \<and> server w' = server w"

lemma same_fds_refl [simp]: "same_fds w w"
  by (simp add: same_fds_def)

lemma same_fds_trans: "same_fds u v \<Longrightarrow> same_fds v w \<Longrightarrow> same_fds u w"
  by (simp add: same_fds_def)

lemma same_fds_update [simp]:
  "same_fds v (w\<lparr>objects := os\<rparr>) = same_fds v w" "same_fds v (w\<lparr>next_addr := n\<rparr>) = same_fds v w"
  "same_fds v (w\<lparr>local_connections := lc\<rparr>) = same_fds v w" "same_fds v (w\<lparr>closed_fds := fds\<rparr>) = same_fds v w"
  by (simp_all add: same_fds_def)

text \<open>Whatever its result, \<open>m\<close> leaves the descriptors and callbacks of the server and the context alone.\<close>

definition fixes_fds :: "(worker, 'a) st \<Rightarrow> bool" where
  "fixes_fds m \<longleftrightarrow> (\<forall>w r w'. m w = (r, w') \<longrightarrow> same_fds w w')"

lemma fixes_fdsD: "fixes_fds m \<Longrightarrow> m w = (r, w') \<Longrightarrow> same_fds w w'"
  by (simp add: fixes_fds_def)

lemma fixes_ret [simp]: "fixes_fds (ret x)"
  by (simp add: fixes_fds_def)

lemma fixes_bind: "fixes_fds m \<Longrightarrow> (\<And>x. fixes_fds (f x)) \<Longrightarrow> fixes_fds (bindS m f)"
  unfolding fixes_fds_def by (meson bindS_cases same_fds_trans)

lemma fixes_with_object: "(\<And>c. fixes_fds (f c)) \<Longrightarrow> fixes_fds (with_object a f)"
  by (auto simp: fixes_fds_def with_object_def throw_def split: option.splits)

lemma fixes_put_object [simp]: "fixes_fds (put_object a c)"
  by (simp add: fixes_fds_def put_object_def)

lemma fixes_submit: "fixes_fds (on_ctx (submit_sqe prep op))"
  by (auto simp: fixes_fds_def on_ctx_def zoom_def submit_sqe_def bindS_def io_get_sqe_def same_fds_def
      split: prod.splits option.splits sum.splits)

lemma fixes_notification [simp]: "fixes_fds (on_ctx submit_notification_read)"
  using fixes_submit
  by (auto simp: fixes_fds_def on_ctx_def zoom_def submit_notification_read_def same_fds_def split: prod.splits)

lemma fixes_accept [simp]: "fixes_fds submit_accept"
  using fixes_submit unfolding fixes_fds_def submit_accept_def by blast

lemma fixes_submit_read [simp]: "fixes_fds (submit_read a)"
  unfolding submit_read_def by (intro fixes_with_object fixes_submit)

lemma fixes_start [simp]: "fixes_fds (connection_start a)"
  by (simp add: connection_start_def)

lemma fixes_submit_write [simp]: "fixes_fds (submit_write a d)"
  unfolding submit_write_def write_front_def Let_def
  by (rule fixes_with_object) (simp add: fixes_bind fixes_submit)

lemma fixes_drop [simp]: "fixes_fds (drop_connection a)"
  unfolding drop_connection_def by (rule fixes_with_object) (simp add: fixes_fds_def)

lemma fixes_handle_write [simp]: "fixes_fds (handle_write a n)"
  unfolding handle_write_def write_front_def Let_def
  by (simp, intro impI fixes_with_object) (simp add: fixes_bind fixes_submit)

lemma fixes_new_client [simp]: "fixes_fds (new_client fd i)"
  by (auto simp: fixes_fds_def new_client_def Let_def)

lemma fixes_deliver [simp]: "fixes_fds (deliver_response msg)"
  using fixes_submit_write fixes_ret [of "()"] unfolding fixes_fds_def deliver_response_def by (auto split: option.splits)

section \<open>Handlers on the machine keep the invariant\<close>

definition machine_ok :: "(string \<Rightarrow> nat) \<Rightarrow> nat \<Rightarrow> machine \<Rightarrow> bool" where
  "machine_ok hs i M \<longleftrightarrow>
     topo_inv hs (topo (mnode M)) \<and> all_registered (topo (mnode M)) \<and>
     length (workers M) = num_cores (topo (mnode M)) \<and> i < length (workers M)"

text \<open>Core \<open>i\<close> changes no other worker and no descriptor of its own, and the shared state as allowed.\<close>

definition frame :: "(string \<Rightarrow> nat) \<Rightarrow> nat \<Rightarrow> machine \<Rightarrow> machine \<Rightarrow> bool" where
  "frame hs i M M' \<longleftrightarrow>
     extends hs (topo (mnode M)) (topo (mnode M')) \<and> length (workers M') = length (workers M) \<and>
     (\<forall>l. l \<noteq> i \<longrightarrow> workers M' ! l = workers M ! l) \<and> same_fds (workers M ! i) (workers M' ! i)"

lemma frame_refl: "machine_ok hs i M \<Longrightarrow> frame hs i M M"
  by (simp add: frame_def machine_ok_def extends_refl)

lemma frame_trans: "frame hs i M N \<Longrightarrow> frame hs i N K \<Longrightarrow> frame hs i M K"
  by (auto simp: frame_def intro: extends_trans same_fds_trans)

lemma frame_ok: "frame hs i M M' \<Longrightarrow> machine_ok hs i M \<Longrightarrow> machine_ok hs i M'"
  using all_registered_extends by (auto simp: frame_def machine_ok_def extends_def all_registered_def)

definition handler_ok ::
    "(string \<Rightarrow> nat) \<Rightarrow> nat \<Rightarrow> (machine, 'a) st \<Rightarrow> operation option multiset \<Rightarrow> operation option multiset \<Rightarrow> bool"
where
  "handler_ok hs i m todo todo' \<longleftrightarrow>
     (\<forall>M r M'. machine_ok hs i M \<longrightarrow> worker_inv (workers M ! i) todo \<longrightarrow> m M = (r, M') \<longrightarrow>
        frame hs i M M' \<and> (\<forall>x. r = Inr x \<longrightarrow> worker_inv (workers M' ! i) todo'))"

lemma handler_okD:
  assumes "handler_ok hs i m todo todo'" "machine_ok hs i M" "worker_inv (workers M ! i) todo" "m M = (r, M')"
  shows "frame hs i M M'" "r = Inr x \<Longrightarrow> worker_inv (workers M' ! i) todo'"
  using assms by (auto simp: handler_ok_def)

lemma handler_ok_ret: "handler_ok hs i (ret x) todo todo"
  by (auto simp: handler_ok_def frame_refl)

lemma handler_ok_bind:
  assumes "handler_ok hs i m todo todo1" "\<And>x. handler_ok hs i (f x) todo1 todo2"
  shows "handler_ok hs i (bindS m f) todo todo2"
  unfolding handler_ok_def
proof (intro allI impI)
  fix M r M'
  assume M: "machine_ok hs i M" "worker_inv (workers M ! i) todo" and run: "bindS m f M = (r, M')"
  from run show "frame hs i M M' \<and> (\<forall>x. r = Inr x \<longrightarrow> worker_inv (workers M' ! i) todo2)"
  proof (cases rule: bindS_cases)
    case (fault e)
    then show ?thesis using handler_okD(1) [OF assms(1) M fault(1)] by simp
  next
    case (val y N)
    note first = handler_okD [OF assms(1) M val(1)]
    note second = handler_okD [OF assms(2) frame_ok [OF first(1) M(1)] first(2) [OF refl] val(2)]
    show ?thesis using frame_trans [OF first(1) second(1)] second(2) by blast
  qed
qed

lemma handler_ok_on_worker:
  assumes "keeps m todo todo'" "fixes_fds m"
  shows "handler_ok hs i (on_worker i m) todo todo'"
  unfolding handler_ok_def
proof (intro allI impI)
  fix M r M'
  assume M: "machine_ok hs i M" "worker_inv (workers M ! i) todo" and run: "on_worker i m M = (r, M')"
  obtain w' where w': "m (workers M ! i) = (r, w')" "M' = M\<lparr>workers := (workers M)[i := w']\<rparr>"
    using run by (auto simp: on_worker_def zoom_def split: prod.splits)
  have "i < length (workers M)" using M(1) by (simp add: machine_ok_def)
  then show "frame hs i M M' \<and> (\<forall>x. r = Inr x \<longrightarrow> worker_inv (workers M' ! i) todo')"
    using w' M keepsD [OF assms(1) M(2)] fixes_fdsD [OF assms(2) w'(1)] by (auto simp: frame_def machine_ok_def extends_refl)
qed

lemma handler_ok_clock:
  assumes "\<And>t. handler_ok hs i (f t) todo todo'"
  shows "handler_ok hs i (with_clock clk f) todo todo'"
  unfolding handler_ok_def
proof (intro allI impI)
  fix M r M'
  assume M: "machine_ok hs i M" "worker_inv (workers M ! i) todo" and run: "with_clock clk f M = (r, M')"
  let ?N = "M\<lparr>ticks := ticks M + 1\<rparr>"
  have "machine_ok hs i ?N" "worker_inv (workers ?N ! i) todo" "f (clk (ticks M)) ?N = (r, M')"
    using M run by (simp_all add: machine_ok_def with_clock_def)
  from handler_okD [OF assms this]
  show "frame hs i M M' \<and> (\<forall>x. r = Inr x \<longrightarrow> worker_inv (workers M' ! i) todo')"
    by (auto simp: frame_def)
qed

lemma execute_command_extends:
  assumes "topo_inv hs (topo nd)" "all_registered (topo nd)" "core < num_cores (topo nd)"
    "execute_command hs wr clk core conn as nd = (r, nd')"
  shows "extends hs (topo nd) (topo nd')"
proof (cases "as \<noteq> [] \<and> (\<exists>cmd. main_registry (to_upper (hd as)) = Some cmd)")
  case True
  then obtain cmd where cmd: "as \<noteq> []" "main_registry (to_upper (hd as)) = Some cmd" by auto
  show ?thesis
    by (rule execute_extends [OF assms(1-3) cmd(1), of wr clk cmd conn])
      (use assms(4) cmd in \<open>simp add: execute_command_def get_registered_def\<close>)
next
  case False
  then have "nd' = nd"
    using assms(4) by (auto simp: execute_command_def get_registered_def Let_def split: if_splits option.splits)
  with assms(1) show ?thesis by (simp add: extends_refl)
qed

lemma handle_data_frame:
  assumes "topo_inv hs (topo nd)" "all_registered (topo nd)" "core < num_cores (topo nd)"
    and wf: "parser_wf (parser c)" and run: "handle_data hs wr clk core buf (c, nd) = (r, c', nd')"
  shows "extends hs (topo nd) (topo nd') \<and> (\<exists>p. c' = c\<lparr>parser := p\<rparr> \<and> parser_wf p)"
proof -
  obtain q n p where p: "consume (parser c) buf 0 = (q, n, p)" using prod_cases3 by blast
  have "parser_wf p" using consume_loop_wf [OF p [unfolded consume_def] wf] by simp
  moreover have "extends hs (topo nd) (topo nd') \<and> (c' = c\<lparr>parser := p\<rparr> \<or> c' = c\<lparr>parser := new_parser\<rparr>)"
    using run p assms(1) execute_command_extends [OF assms(1-3), of wr clk "cid c" "pargs p"]
    by (auto simp: handle_data_def extends_refl split: sum.splits parse_result.splits prod.splits)
  ultimately show ?thesis using parser_wf_new by blast
qed

lemma handler_ok_receive: "handler_ok hs i (receive_data hs wr clk i a buf) todo todo"
  unfolding handler_ok_def
proof (intro allI impI)
  fix M r M'
  assume M: "machine_ok hs i M" "worker_inv (workers M ! i) todo"
    and run: "receive_data hs wr clk i a buf M = (r, M')"
  let ?w = "workers M ! i"
  show "frame hs i M M' \<and> (\<forall>x. r = Inr x \<longrightarrow> worker_inv (workers M' ! i) todo)"
  proof (cases "objects ?w a")
    case None
    then show ?thesis using run M(1) by (auto simp: receive_data_def frame_refl)
  next
    case (Some c)
    obtain q c' nd' where h: "handle_data hs wr clk i buf (c, mnode M) = (q, c', nd')" using prod_cases3 by blast
    have old: "conn_inv ?w todo a c" using M(2) Some by (simp add: worker_inv_def)
    then have "parser_wf (parser c)" by (simp add: conn_inv_def)
    then have ext: "extends hs (topo (mnode M)) (topo nd')" and p: "\<exists>p. c' = c\<lparr>parser := p\<rparr> \<and> parser_wf p"
      using handle_data_frame [OF _ _ _ _ h] M(1) by (auto simp: machine_ok_def)
    obtain p where p: "c' = c\<lparr>parser := p\<rparr>" "parser_wf p" using p by blast
    have "worker_inv (?w\<lparr>objects := (objects ?w)(a \<mapsto> c')\<rparr>) todo"
      by (rule put_object_inv [OF M(2) Some]) (use old p in \<open>auto simp: conn_inv_def\<close>)
    with run Some h ext M(1) show ?thesis by (auto simp: receive_data_def frame_def machine_ok_def)
  qed
qed

lemma handler_ok_read: "handler_ok hs i (handle_read hs wr clk i a n buf) (add_mset (Some (Read_op a)) todo) todo"
proof (cases "n \<le> 0")
  case True
  then show ?thesis by (simp add: handle_read_def handler_ok_on_worker keeps_drop)
next
  case False
  have "handler_ok hs i (if resp \<noteq> [] then on_worker i (submit_write a resp) else ret ()) T T" for resp T
    by (simp add: handler_ok_on_worker keeps_submit_write handler_ok_ret)
  with False show ?thesis
    unfolding handle_read_def
    by (auto intro!: handler_ok_bind [OF handler_ok_clock [OF handler_ok_receive]] handler_ok_bind
        handler_ok_on_worker [OF keeps_submit_read fixes_submit_read])
qed

lemma handler_ok_accept: "handler_ok hs i (handle_accept i fd) (add_mset (Some Accept_op) todo) todo"
proof (cases "fd < 0")
  case True
  then show ?thesis by (simp add: handle_accept_def handler_ok_on_worker keeps_submit_accept)
next
  case False
  have "handler_ok hs i (getS next_conn_id) T T" for T
    by (auto simp: handler_ok_def frame_refl)
  moreover have "handler_ok hs i (modifyS (\<lambda>M. M\<lparr>next_conn_id := c + 1\<rparr>)) T T" for c T
    by (auto simp: handler_ok_def frame_def machine_ok_def extends_refl)
  ultimately show ?thesis
    using False unfolding handle_accept_def
    by (auto intro!: handler_ok_bind handler_ok_on_worker keeps_new_client
        fixes_bind)
qed

text \<open>A message is well-formed for as long as it is in a channel.\<close>

lemma execute_request_extends:
  assumes "topo_inv hs (topo nd)" "all_registered (topo nd)" "i < num_cores (topo nd)" "margs msg \<noteq> []"
    and ex: "execute_request hs wr t i msg nd = (q, nd')"
  shows "extends hs (topo nd) (topo nd')"
proof -
  obtain nm as where args: "margs msg = nm # as" using assms(4) by (cases "margs msg") auto
  show ?thesis
  proof (cases "main_registry nm")
    case None
    then show ?thesis using ex args assms(1) by (simp add: execute_request_def get_registered_def extends_refl)
  next
    case (Some cmd)
    show ?thesis
      by (rule execute_extends [OF assms(1-3), where args = "nm # as" and wr = wr and clk = t and c = cmd and conn = "conn_id msg"])
        (use ex args Some in \<open>simp_all add: execute_request_def get_registered_def\<close>)
  qed
qed

lemma send_response_frame:
  assumes K: "topo_inv hs (topo (mnode K))" "all_registered (topo (mnode K))" "i < num_cores (topo (mnode K))"
    "origin_core_id msg < num_cores (topo (mnode K))"
    and run: "send_response i msg resp K = (r, M')"
  shows "frame hs i K M' \<and> workers M' = workers K"
proof (rule send_response_apply [OF K(1,4), where i = i and resp = resp])
  fix t'
  assume t': "send_response i msg resp K = (Inr (), K\<lparr>mnode := (mnode K)\<lparr>topo := t'\<rparr>\<rparr>)" "topo_inv hs t'"
    "channel_of t' = (channel_of (topo (mnode K)))(origin_core_id msg :=
       channel_of (topo (mnode K)) (origin_core_id msg) @ [response_message i (conn_id msg) resp])"
    "num_cores t' = num_cores (topo (mnode K))" "notify_fds t' = notify_fds (topo (mnode K))"
    "fd_writes t' = fd_writes (topo (mnode K)) @
       (if 0 \<le> notify_fds (topo (mnode K)) ! origin_core_id msg
        then [notify_fds (topo (mnode K)) ! origin_core_id msg] else [])"
  have "message_ok (num_cores (topo (mnode K))) (response_message i (conn_id msg) resp)"
    using K(3) by (simp add: message_ok_def response_message_def)
  from extends_send [OF t'(2,4,5) K(2,4) this t'(3,6)] show ?thesis using run t'(1) by (auto simp: frame_def)
qed

lemma handler_ok_message:
  assumes ok: "message_ok n msg"
    and M: "machine_ok hs i M" "num_cores (topo (mnode M)) = n" "worker_inv (workers M ! i) todo"
    and run: "handle_message hs wr clk i msg M = (r, M')"
  shows "frame hs i M M' \<and> (\<forall>x. r = Inr x \<longrightarrow> worker_inv (workers M' ! i) todo)"
proof (cases "mtype msg")
  case RESPONSE
  then have "on_worker i (deliver_response msg) M = (r, M')" using run by (simp add: handle_message_def)
  then show ?thesis
    using handler_okD [OF handler_ok_on_worker [OF keeps_deliver fixes_deliver] M(1,3)] by blast
next
  case REQUEST
  obtain q nd' where ex: "execute_request hs wr (clk (ticks M)) i msg (mnode M) = (q, nd')" by fastforce
  have inv: "topo_inv hs (topo (mnode M))" "all_registered (topo (mnode M))" "i < num_cores (topo (mnode M))"
    using M(1) by (simp_all add: machine_ok_def)
  have ext: "extends hs (topo (mnode M)) (topo nd')"
    by (rule execute_request_extends [OF inv _ ex]) (use ok REQUEST in \<open>simp add: message_ok_def\<close>)
  let ?K = "M\<lparr>ticks := ticks M + 1, mnode := nd'\<rparr>"
  have K: "frame hs i M ?K" using ext by (simp add: frame_def)
  have first: "with_clock clk (\<lambda>t. on_node (execute_request hs wr t i msg)) M = (q, ?K)"
    using ex by (simp add: with_clock_def on_node_def zoom_def)
  show ?thesis
  proof (cases "\<exists>resp. q = Inr resp \<and> resp \<noteq> []")
    case False
    then have "M' = ?K" using run first REQUEST by (cases q) (auto simp: handle_message_def bindS_def)
    then show ?thesis using K M(3) by simp
  next
    case True
    then obtain resp where resp: "q = Inr resp" "resp \<noteq> []" by blast
    have sent: "send_response i msg resp ?K = (r, M')"
      using run first REQUEST resp by (simp add: handle_message_def bindS_def)
    have "frame hs i ?K M' \<and> workers M' = workers ?K"
      by (rule send_response_frame [OF _ _ _ _ sent])
        (use ok M(2) inv(3) ext all_registered_extends [OF ext inv(2)] in \<open>simp_all add: message_ok_def extends_def\<close>)
    then show ?thesis using frame_trans [OF K] M(3) by auto
  qed
qed

lemma handler_ok_batch:
  assumes "\<forall>msg \<in> set msgs. message_ok n msg"
    and "machine_ok hs i M" "num_cores (topo (mnode M)) = n" "worker_inv (workers M ! i) todo"
    and "for_batch (handle_message hs wr clk i) msgs M = (r, M')"
  shows "frame hs i M M' \<and> (\<forall>x. r = Inr x \<longrightarrow> worker_inv (workers M' ! i) todo)"
  using assms
proof (induction msgs arbitrary: M)
  case Nil
  then show ?case by (auto simp: frame_refl)
next
  case (Cons msg msgs)
  from Cons.prems(5) have "bindS (handle_message hs wr clk i msg) (\<lambda>_. for_batch (handle_message hs wr clk i) msgs) M = (r, M')"
    by simp
  then show ?case
  proof (cases rule: bindS_cases)
    case (fault e)
    then show ?thesis using handler_ok_message [OF _ Cons.prems(2-4) fault(1)] Cons.prems(1) by simp
  next
    case (val y N)
    have first: "frame hs i M N" "worker_inv (workers N ! i) todo"
      using handler_ok_message [OF _ Cons.prems(2-4) val(1)] Cons.prems(1) by auto
    have "num_cores (topo (mnode N)) = n" using first(1) Cons.prems(3) by (simp add: frame_def extends_def)
    from Cons.IH [OF _ frame_ok [OF first(1) Cons.prems(2)] this first(2) val(2)] Cons.prems(1) show ?thesis
      using frame_trans [OF first(1)] by auto
  qed
qed

text \<open>
  What handling one completion does: the shared state is extended, after the channel has been
  emptied in the case of a notification, and the worker keeps its invariant.
\<close>

lemma complete_ok:
  assumes M: "machine_ok hs i M" "\<forall>msg \<in> set (channel_of (topo (mnode M)) i). message_ok (num_cores (topo (mnode M))) msg"
    "worker_inv (workers M ! i) (add_mset (Some op) todo)"
    and run: "complete hs wr clk i op n buf M = (r, M')"
  shows "frame hs i (if op = Notification_op then emptied i M else M) M' \<and>
    (\<forall>x. r = Inr x \<longrightarrow> worker_inv (workers M' ! i) todo)"
proof (cases op)
  case Notification_op
  let ?E = "emptied i M"
  have E: "machine_ok hs i ?E" "num_cores (topo (mnode ?E)) = num_cores (topo (mnode M))"
    using M(1) emptied_topo [of hs M i] by (auto simp: machine_ok_def all_registered_def)
  have "notification_handler_set (ctx (workers M ! i))" using M(3) by (simp add: worker_inv_def)
  with run Notification_op have
    "bindS (notification_handler hs wr clk i) (\<lambda>_. on_worker i (on_ctx submit_notification_read)) M = (r, M')"
    by (simp add: complete_notification_def bindS_def)
  then show ?thesis
  proof (cases rule: bindS_cases)
    case (fault e)
    then show ?thesis
      using handler_ok_batch [OF M(2) E, of _ wr clk] M(3) Notification_op by (simp add: notification_batch)
  next
    case (val y N)
    have first: "frame hs i ?E N" "worker_inv (workers N ! i) (add_mset (Some op) todo)"
      using handler_ok_batch [OF M(2) E, of "add_mset (Some op) todo" wr clk "Inr y" N] M(3) val(1)
      by (auto simp: notification_batch)
    note second = handler_okD [OF handler_ok_on_worker [OF keeps_submit_notification fixes_notification]
        frame_ok [OF first(1) E(1)] first(2) [unfolded Notification_op] val(2)]
    show ?thesis using frame_trans [OF first(1) second(1)] second(2) Notification_op by simp
  qed
next
  case Accept_op
  then show ?thesis using handler_okD [OF handler_ok_accept M(1) M(3) [unfolded Accept_op]] run by auto
next
  case (Read_op a)
  then show ?thesis using handler_okD [OF handler_ok_read M(1) M(3) [unfolded Read_op]] run by auto
next
  case (Write_op a)
  then show ?thesis
    using handler_okD [OF handler_ok_on_worker [OF keeps_handle_write fixes_handle_write] M(1) M(3) [unfolded Write_op]] run by auto
qed

section \<open>The cluster as a transition system\<close>

text \<open>
  \<open>todo i\<close> are the completions core \<open>i\<close> has taken from its ring and not yet handled, or None when
  its thread has ended with an exception; \<open>seen i\<close> is the number of wake-ups the finished reads of its
  notification descriptor account for: a read of an eventfd takes all of them, one of a pipe takes
  one, so a wait that completes the read may move it anywhere up to the wake-ups so far.
\<close>

record config =
  mach :: machine
  todo :: "nat \<Rightarrow> cqe list option"
  seen :: "nat \<Rightarrow> nat"

inductive cluster_step ::
    "(string \<Rightarrow> nat) \<Rightarrow> (string \<Rightarrow> bool) \<Rightarrow> (nat \<Rightarrow> nat \<Rightarrow> int) \<Rightarrow> config \<Rightarrow> config \<Rightarrow> bool"
  for hs wr clk where
  Wait: "cluster_step hs wr clk C
      (C\<lparr>mach := (mach C)\<lparr>workers := (workers (mach C))[i := w']\<rparr>, todo := (todo C)(i := Some cs),
         seen := (if Some Notification_op \<in> set (map cqe_data cs) then (seen C)(i := s) else seen C)\<rparr>)"
    if "i < length (workers (mach C))" "todo C i = Some []"
      "run_wait rounds (workers (mach C) ! i) = Some (cs, w')"
      "seen C i \<le> s" "s \<le> wakeups (topo (mnode (mach C))) i"
| Handle: "cluster_step hs wr clk C (C\<lparr>mach := M', todo := (todo C)(i := Some qs)\<rparr>)"
    if "i < length (workers (mach C))" "todo C i = Some (q # qs)" "dispatch hs wr clk i q buf (mach C) = (Inr (), M')"
| Stop: "cluster_step hs wr clk C (C\<lparr>mach := end_thread i M', todo := (todo C)(i := None)\<rparr>)"
    if "i < length (workers (mach C))" "todo C i = Some (q # qs)" "dispatch hs wr clk i q buf (mach C) = (Inl f, M')"
      "f \<noteq> Undefined_behaviour"

definition core_inv :: "config \<Rightarrow> nat \<Rightarrow> bool" where
  "core_inv C i \<longleftrightarrow>
     (\<forall>cs. todo C i = Some cs \<longrightarrow>
        worker_inv (workers (mach C) ! i) (mset (map cqe_data cs)) \<and>
        (channel_of (topo (mnode (mach C))) i \<noteq> [] \<longrightarrow>
           seen C i < wakeups (topo (mnode (mach C))) i \<or> Some Notification_op \<in> set (map cqe_data cs)))"

definition cluster_inv :: "(string \<Rightarrow> nat) \<Rightarrow> config \<Rightarrow> bool" where
  "cluster_inv hs C \<longleftrightarrow>
     topo_inv hs (topo (mnode (mach C))) \<and> all_registered (topo (mnode (mach C))) \<and>
     length (workers (mach C)) = num_cores (topo (mnode (mach C))) \<and>
     (\<forall>i < num_cores (topo (mnode (mach C))).
        seen C i \<le> wakeups (topo (mnode (mach C))) i \<and> core_inv C i \<and>
        (\<forall>msg \<in> set (channel_of (topo (mnode (mach C))) i). message_ok (num_cores (topo (mnode (mach C)))) msg))"

section \<open>Every step keeps the invariant\<close>

lemma run_wait_inv:
  assumes "worker_inv w {#}" "run_wait rounds w = Some (cs, w')"
  shows "worker_inv w' (mset (map cqe_data cs))"
proof -
  let ?r = "ring (ctx w)"
  obtain r where r: "wait_loop 1 rounds (snd (uring_submit ?r)) = Some r" and cs: "cs = cqes r"
    and w': "w' = w\<lparr>ctx := (ctx w)\<lparr>ring := uring_cq_advance (length (cqes r)) r\<rparr>\<rparr>"
    using assms(2) by (auto simp: run_wait_def io_submit_and_wait_def uring_submit_and_wait_def)
  have con: "conserves (snd (uring_submit ?r)) r" by (rule wait_loop_conserves [OF r])
  have idle: "cqes ?r = []" "sqes ?r \<noteq> []" using assms(1) by (simp_all add: worker_inv_def)
  have adv: "in_flight (ring (ctx w')) = in_flight r" "cqes (ring (ctx w')) = []" "sqes (ring (ctx w')) = sqes r"
    by (simp_all add: w' uring_cq_advance_def in_flight_def)
  have "pending_ops w' (mset (map cqe_data cs)) = pending_ops w {#}"
    using con idle adv by (simp add: pending_ops_def conserves_def uring_ops_def cs)
  moreover have "set_mset (in_flight (ring (ctx w'))) \<subseteq> set_mset (in_flight ?r)"
    using con adv by (auto simp: conserves_def dest: mset_subset_eqD)
  moreover have "sqes (ring (ctx w')) \<noteq> []"
  proof -
    have "sqes r = sqes (snd (uring_submit ?r))" using con by (simp add: conserves_def)
    with idle(2) adv(3) show ?thesis by (simp add: uring_submit_def)
  qed
  ultimately show ?thesis
    using assms(1) adv(2) w' unfolding worker_inv_def conn_inv_def by (auto 0 3)
qed

lemma dispatch_ok:
  assumes "machine_ok hs i M" "\<forall>msg \<in> set (channel_of (topo (mnode M)) i). message_ok (num_cores (topo (mnode M))) msg"
    "worker_inv (workers M ! i) (add_mset (cqe_data q) T)" "dispatch hs wr clk i q buf M = (r, M')"
  shows "frame hs i (if cqe_data q = Some Notification_op then emptied i M else M) M' \<and>
    (\<forall>x. r = Inr x \<longrightarrow> worker_inv (workers M' ! i) T)"
proof (cases "cqe_data q")
  case None
  then have "worker_inv (workers M ! i) T"
    using assms(3) by (simp add: worker_inv_def conn_inv_def pending_ops_def)
  with None assms(1,4) show ?thesis by (auto simp: dispatch_def frame_refl)
next
  case (Some op)
  then show ?thesis using complete_ok [OF assms(1,2), of op T] assms(3,4) by (auto simp: dispatch_def)
qed

text \<open>The messages and the wake-ups of a core after another handler has run.\<close>

lemma frame_channel:
  assumes "frame hs i (if nt then emptied i M else M) M'" "topo_inv hs (topo (mnode M))" "i < num_cores (topo (mnode M))"
  obtains ms where "channel_of (topo (mnode M')) l = (if nt \<and> l = i then [] else channel_of (topo (mnode M)) l) @ ms"
    "\<forall>m \<in> set ms. message_ok (num_cores (topo (mnode M))) m"
    "wakeups (topo (mnode M)) l + (if ms = [] then 0 else 1) \<le> wakeups (topo (mnode M')) l"
proof -
  let ?E = "if nt then emptied i M else M"
  note em = emptied_topo [OF assms(2,3)]
  have E: "channel_of (topo (mnode ?E)) l = (if nt \<and> l = i then [] else channel_of (topo (mnode M)) l)"
    "num_cores (topo (mnode ?E)) = num_cores (topo (mnode M))" "wakeups (topo (mnode ?E)) l = wakeups (topo (mnode M)) l"
    using em by (simp_all add: wakeups_def)
  have "extends hs (topo (mnode ?E)) (topo (mnode M'))" using assms(1) by (simp only: frame_def)
  then obtain ms where "channel_of (topo (mnode M')) l = channel_of (topo (mnode ?E)) l @ ms"
    "\<forall>m \<in> set ms. message_ok (num_cores (topo (mnode ?E))) m"
    "wakeups (topo (mnode ?E)) l + (if ms = [] then 0 else 1) \<le> wakeups (topo (mnode M')) l"
    unfolding extends_def by blast
  then show ?thesis unfolding E by (rule that)
qed

text \<open>
  The core that handled the completion \<open>q\<close>, and the others, when a handler has appended \<open>ms\<close> to their
  channels.
\<close>

lemma core_inv_own:
  assumes "core_inv C i" "todo C i = Some (q # qs)" "seen C i \<le> wakeups (topo (mnode (mach C))) i"
    and td: "td = Some qs \<and> worker_inv (workers M' ! i) (mset (map cqe_data qs)) \<or> td = None"
    and ms: "channel_of (topo (mnode M')) i =
        (if cqe_data q = Some Notification_op then [] else channel_of (topo (mnode (mach C))) i) @ ms"
      "wakeups (topo (mnode (mach C))) i + (if ms = [] then 0 else 1) \<le> wakeups (topo (mnode M')) i"
  shows "core_inv (C\<lparr>mach := M', todo := (todo C)(i := td)\<rparr>) i"
proof -
  have "seen C i < wakeups (topo (mnode M')) i \<or> Some Notification_op \<in> set (map cqe_data qs)"
    if "channel_of (topo (mnode M')) i \<noteq> []"
  proof (cases "ms = []")
    case True
    then have "cqe_data q \<noteq> Some Notification_op" "channel_of (topo (mnode (mach C))) i \<noteq> []"
      using that ms(1) by (auto split: if_splits)
    then show ?thesis using assms(1,2) ms(2) by (auto simp: core_inv_def)
  next
    case False
    then show ?thesis using ms(2) assms(3) by simp
  qed
  with td show ?thesis by (auto simp: core_inv_def)
qed

lemma core_inv_other:
  assumes "core_inv C l" "l \<noteq> i" "workers M' ! l = workers (mach C) ! l" "seen C l \<le> wakeups (topo (mnode (mach C))) l"
    and "channel_of (topo (mnode M')) l = channel_of (topo (mnode (mach C))) l @ ms"
      "wakeups (topo (mnode (mach C))) l + (if ms = [] then 0 else 1) \<le> wakeups (topo (mnode M')) l"
  shows "core_inv (C\<lparr>mach := M', todo := (todo C)(i := td)\<rparr>) l"
  using assms by (cases "ms = []") (auto simp: core_inv_def)

text \<open>One handler on core \<open>i\<close>, whatever its result.\<close>

lemma dispatch_frame:
  assumes C: "cluster_inv hs C" "i < length (workers (mach C))" "todo C i = Some (q # qs)"
    and run: "dispatch hs wr clk i q buf (mach C) = (r, M')"
  shows "frame hs i (if cqe_data q = Some Notification_op then emptied i (mach C) else mach C) M' \<and>
    (\<forall>x. r = Inr x \<longrightarrow> worker_inv (workers M' ! i) (mset (map cqe_data qs)))"
proof (rule dispatch_ok [OF _ _ _ run])
  have i: "i < num_cores (topo (mnode (mach C)))" using C(1,2) by (simp add: cluster_inv_def)
  then have "core_inv C i" using C(1) by (simp add: cluster_inv_def)
  with C(3) show "worker_inv (workers (mach C) ! i) (add_mset (cqe_data q) (mset (map cqe_data qs)))"
    by (simp add: core_inv_def)
  show "\<forall>msg \<in> set (channel_of (topo (mnode (mach C))) i). message_ok (num_cores (topo (mnode (mach C)))) msg"
    using C(1) i by (simp add: cluster_inv_def)
qed (use C in \<open>simp add: cluster_inv_def machine_ok_def\<close>)

lemma handler_step:
  assumes C: "cluster_inv hs C" "i < length (workers (mach C))" "todo C i = Some (q # qs)"
    and run: "dispatch hs wr clk i q buf (mach C) = (r, M')"
    and td: "td = Some qs \<and> r = Inr () \<or> td = None"
  shows "cluster_inv hs (C\<lparr>mach := M', todo := (todo C)(i := td)\<rparr>)"
proof -
  let ?M = "mach C" and ?C = "C\<lparr>mach := M', todo := (todo C)(i := td)\<rparr>"
  let ?t = "topo (mnode (mach C))" and ?nt = "cqe_data q = Some Notification_op"
  have ok: "machine_ok hs i ?M" using C(1,2) by (simp add: cluster_inv_def machine_ok_def)
  then have i: "topo_inv hs ?t" "i < num_cores ?t" by (simp_all add: machine_ok_def)
  have old: "seen C l \<le> wakeups ?t l" "core_inv C l" "\<forall>msg \<in> set (channel_of ?t l). message_ok (num_cores ?t) msg"
    if "l < num_cores ?t" for l
    using C(1) that by (simp_all add: cluster_inv_def)
  have fr: "frame hs i (if ?nt then emptied i ?M else ?M) M'"
    and w': "r = Inr () \<Longrightarrow> worker_inv (workers M' ! i) (mset (map cqe_data qs))"
    using dispatch_frame [OF C run] by auto
  have n: "num_cores (topo (mnode M')) = num_cores ?t" "length (workers M') = length (workers ?M)"
    "notify_fds (topo (mnode M')) = notify_fds ?t" "topo_inv hs (topo (mnode M'))"
    "l \<noteq> i \<Longrightarrow> workers M' ! l = workers ?M ! l" for l
    using fr emptied_topo [OF i] by (auto simp: frame_def extends_def split: if_splits)
  have "seen C l \<le> wakeups (topo (mnode M')) l \<and> core_inv ?C l \<and>
      (\<forall>msg \<in> set (channel_of (topo (mnode M')) l). message_ok (num_cores ?t) msg)" if l: "l < num_cores ?t" for l
  proof (rule frame_channel [OF fr i, where l = l])
    fix ms
    assume ms: "channel_of (topo (mnode M')) l = (if ?nt \<and> l = i then [] else channel_of ?t l) @ ms"
      "\<forall>m \<in> set ms. message_ok (num_cores ?t) m"
      "wakeups ?t l + (if ms = [] then 0 else 1) \<le> wakeups (topo (mnode M')) l"
    have "core_inv ?C l"
    proof (cases "l = i")
      case True
      then show ?thesis using core_inv_own [OF old(2) [OF i(2)] C(3) old(1) [OF i(2)], of td M' ms] td w' ms by auto
    next
      case False
      then show ?thesis using core_inv_other [OF old(2) [OF l] False n(5) [OF False] old(1) [OF l]] ms by simp
    qed
    then show ?thesis using old [OF l] ms by (cases "ms = []"; cases "?nt \<and> l = i") auto
  qed
  then show ?thesis using n C(1) by (simp add: cluster_inv_def all_registered_def)
qed

text \<open>A thread that has ended has no obligations.\<close>

lemma end_thread_inv:
  assumes "cluster_inv hs (C\<lparr>mach := M, todo := td\<rparr>)" "td i = None"
  shows "cluster_inv hs (C\<lparr>mach := end_thread i M, todo := td\<rparr>)"
proof -
  have same: "topo (mnode (end_thread i M)) = topo (mnode M)" "length (workers (end_thread i M)) = length (workers M)"
    "l \<noteq> i \<Longrightarrow> workers (end_thread i M) ! l = workers M ! l" for l
    by (simp_all add: end_thread_def)
  have "core_inv (C\<lparr>mach := end_thread i M, todo := td\<rparr>) l" if "core_inv (C\<lparr>mach := M, todo := td\<rparr>) l" for l
    using that assms(2) same by (cases "l = i") (simp_all add: core_inv_def)
  with assms(1) same show ?thesis by (simp add: cluster_inv_def)
qed

lemma cluster_step_inv:
  assumes "cluster_step hs wr clk C C'" "cluster_inv hs C"
  shows "cluster_inv hs C'"
  using assms(1)
proof (cases rule: cluster_step.cases)
  case (Wait i rounds cs w' s)
  let ?M = "mach C" and ?t = "topo (mnode (mach C))"
  have i: "i < num_cores ?t" using Wait(2) assms(2) by (simp add: cluster_inv_def)
  have "core_inv C i" using assms(2) i by (simp add: cluster_inv_def)
  with Wait(3) have "worker_inv (workers ?M ! i) {#}" by (simp add: core_inv_def)
  then have w': "worker_inv w' (mset (map cqe_data cs))" by (rule run_wait_inv [OF _ Wait(4)])
  have "seen C' l \<le> wakeups ?t l \<and> core_inv C' l" if l: "l < num_cores ?t" for l
  proof -
    have old: "seen C l \<le> wakeups ?t l" "core_inv C l" using assms(2) l by (simp_all add: cluster_inv_def)
    show ?thesis
    proof (cases "l = i")
      case True
      then show ?thesis using Wait(1-3,6) w' old by (auto simp: core_inv_def)
    next
      case False
      then show ?thesis using Wait(1) old by (auto simp: core_inv_def)
    qed
  qed
  then show ?thesis using assms(2) Wait(1) by (simp add: cluster_inv_def)
next
  case (Handle i q qs buf M')
  then show ?thesis using handler_step [OF assms(2) Handle(2,3,4), of "Some qs"] by simp
next
  case (Stop i q qs buf f M')
  then show ?thesis
    using end_thread_inv [OF handler_step [OF assms(2) Stop(2,3,4), of None], of i] by simp
qed

section \<open>Wake-ups\<close>

lemma cluster_steps_inv:
  assumes "(cluster_step hs wr clk)\<^sup>*\<^sup>* C C'" "cluster_inv hs C"
  shows "cluster_inv hs C'"
  using assms by (induction rule: rtranclp_induct) (blast dest: cluster_step_inv)+

text \<open>
  C10: No wake-up is lost. In every state reached from a sound one, a running core with a message in
  its channel has been woken up since its last wait returned, or still has the completion of the
  notification to handle; and it is listening for notifications exactly once. So no message stays
  in a channel without a reason for its core to look.
\<close>

theorem no_lost_wakeup:
  assumes "cluster_inv hs C" "(cluster_step hs wr clk)\<^sup>*\<^sup>* C C'"
    and "i < num_cores (topo (mnode (mach C')))" "todo C' i = Some cs"
    and "channel_of (topo (mnode (mach C'))) i \<noteq> []"
  shows "(seen C' i < wakeups (topo (mnode (mach C'))) i \<or> Some Notification_op \<in> set (map cqe_data cs)) \<and>
    count (pending_ops (workers (mach C') ! i) (mset (map cqe_data cs))) (Some Notification_op) = 1"
proof -
  have "core_inv C' i" using cluster_steps_inv [OF assms(2,1)] assms(3) by (simp add: cluster_inv_def)
  then show ?thesis using assms(4,5) by (simp add: core_inv_def worker_inv_def)
qed

text \<open>Two idle cores, the first with a request of the second in its channel, and woken up.\<close>

definition waiting_config :: config where
  "waiting_config =
     \<lparr>mach = idle_machine\<lparr>mnode := \<lparr>topo = (new_topology 2)\<lparr>notify_fds := [3, 6], fd_writes := [3],
          channels := [\<lparr>queue = [request_message 1 1 [''GET'', ''k'']]\<rparr>, new_channel]\<rparr>, files = Map.empty\<rparr>\<rparr>,
      todo = (\<lambda>_. Some []), seen = (\<lambda>_. 0)\<rparr>"

lemma waiting_config_inv: "cluster_inv hs waiting_config"
proof -
  let ?t = "topo (mnode (mach waiting_config))"
  have n: "num_cores ?t = 2" "workers (mach waiting_config) = [idle_worker, idle_worker]"
    by (simp_all add: waiting_config_def idle_machine_def new_topology_def)
  have "topo_inv hs (new_topology 2)" by (simp add: topo_inv_new)
  then have "topo_inv hs ?t" by (auto simp: waiting_config_def topo_inv_def get_target_core_def new_topology_def)
  moreover have "core_inv waiting_config i" if "i < 2" for i
    using that idle_worker_inv
    by (auto simp: core_inv_def waiting_config_def idle_machine_def wakeups_def channel_of_def new_channel_def
        less_2_cases_iff)
  ultimately show ?thesis using n
    by (auto simp: cluster_inv_def all_registered_def less_2_cases_iff waiting_config_def channel_of_def
        new_channel_def message_ok_def request_message_def)
qed

theorem no_lost_wakeup_witness:
  "seen waiting_config 0 < wakeups (topo (mnode (mach waiting_config))) 0 \<and>
   count (pending_ops (workers (mach waiting_config) ! 0) {#}) (Some Notification_op) = 1"
  using no_lost_wakeup [OF waiting_config_inv, of "\<lambda>_. 0" "\<lambda>_. True" "\<lambda>_ _. 0" waiting_config 0 "[]"]
  by (simp add: waiting_config_def idle_machine_def new_topology_def channel_of_def)

section \<open>Destroying a connection\<close>

text \<open>
  C75: Destroying a connection leaves its other operation behind. \<open>handle_read\<close> on a closed or failed
  read and \<open>handle_write\<close> on a failed write \<open>delete this\<close>, and with it the \<open>ReadOp\<close> and \<open>WriteOp\<close>
  objects: after a failed write the read, and after a failed read during a write the write, is
  still pending, and whatever it completes with uses the freed object.
\<close>

theorem use_after_free:
  assumes "i < length (workers M)" "objects (workers M ! i) a = Some c"
    and "worker_inv (workers M ! i) (add_mset (Some op) rest)"
    and "op = Write_op a \<and> n < 0 \<and> other = Read_op a \<or>
         op = Read_op a \<and> n \<le> 0 \<and> is_writing c \<and> other = Write_op a"
  shows "\<exists>M'. complete hs wr clk i op n buf M = (Inr (), M') \<and>
    Some other \<in># pending_ops (workers M' ! i) rest \<and>
    (\<forall>n' buf'. fst (complete hs wr clk i other n' buf' M') = Inl Undefined_behaviour)"
proof -
  let ?w = "workers M ! i"
  obtain w' where w': "drop_connection a ?w = (Inr (), w')" "objects w' = (objects ?w)(a := None)" "ctx w' = ctx ?w"
    by (rule drop_connection_inv [OF assms(3,2), where todo' = "add_mset (Some op) rest"]) auto
  let ?M = "M\<lparr>workers := (workers M)[i := w']\<rparr>"
  have "complete hs wr clk i op n buf M = (Inr (), ?M)"
    using assms(4) w'(1) by (auto simp: handle_read_def handle_write_def on_worker_def zoom_def)
  moreover have "conn_inv ?w (add_mset (Some op) rest) a c"
    using assms(2,3) by (simp add: worker_inv_def)
  then have "count (pending_ops (workers ?M ! i) rest) (Some other) = 1"
    using assms(1,4) w'(3) by (auto simp: conn_inv_def pending_ops_def)
  then have "Some other \<in># pending_ops (workers ?M ! i) rest" by (simp add: count_greater_zero_iff [symmetric] del: count_greater_zero_iff)
  moreover have "fst (complete hs wr clk i other n' buf' ?M) = Inl Undefined_behaviour" for n' buf'
    using assms(1,4) w'(2)
    by (auto simp: handle_read_def handle_write_def on_worker_def zoom_def drop_connection_def
        with_object_def receive_data_def with_clock_def bindS_def throw_def split: prod.splits)
  ultimately show ?thesis by blast
qed

theorem use_after_free_witness:
  "\<exists>M'. complete (\<lambda>_. 0) (\<lambda>_. True) (\<lambda>_ _. 0) 0 (Write_op 0) (- 32) [] (idle_machine\<lparr>workers := [busy_worker]\<rparr>) = (Inr (), M') \<and>
    Some (Read_op 0) \<in># pending_ops (workers M' ! 0) {#} \<and>
    (\<forall>n' buf'. fst (complete (\<lambda>_. 0) (\<lambda>_. True) (\<lambda>_ _. 0) 0 (Read_op 0) n' buf' M') = Inl Undefined_behaviour)"
  by (rule use_after_free [where op = "Write_op 0" and c = "idle_connection\<lparr>write_queue := [''+PONG'', ''+OK''], is_writing := True\<rparr>"])
    (use busy_worker_inv in \<open>simp_all add: busy_worker_def\<close>)

end
