(* ===== verification/Core_Lifecycle.thy ===== *)
theory Core_Lifecycle
  imports Cluster
begin

text \<open>
  The life of a core: while its thread runs it can always get to the messages in its channel; an
  exception that leaves a handler ends the thread (\<open>worker_main\<close> in \<open>src/main.cpp\<close>) and destroys its server and event
  loop context (\<open>src/network/tcp_server.cpp\<close>, \<open>src/core/io_context.cpp\<close>); from then on it stays silent.
\<close>

section \<open>What a step of one core leaves alone\<close>

text \<open>
  \<open>moves i C C'\<close>: from \<open>C\<close> only core \<open>i\<close> took completions or handled them, and its channel has only grown.
\<close>

definition moves :: "nat \<Rightarrow> config \<Rightarrow> config \<Rightarrow> bool" where
  "moves i C C' \<longleftrightarrow>
     (\<forall>l. l \<noteq> i \<longrightarrow> todo C' l = todo C l) \<and> length (workers (mach C')) = length (workers (mach C)) \<and>
     (\<exists>ms. channel_of (topo (mnode (mach C'))) i = channel_of (topo (mnode (mach C))) i @ ms)"

lemma moves_refl: "moves i C C"
  by (simp add: moves_def)

lemma moves_trans: "moves i C D \<Longrightarrow> moves i D E \<Longrightarrow> moves i C E"
  by (auto simp: moves_def)

lemma cluster_length: "cluster_inv hs C \<Longrightarrow> length (workers (mach C)) = num_cores (topo (mnode (mach C)))"
  by (simp add: cluster_inv_def)

text \<open>Handling a completion that is not the notification.\<close>

lemma handled_moves:
  assumes "cluster_inv hs C" "i < length (workers (mach C))" "todo C i = Some (q # qs)"
    and "cqe_data q \<noteq> Some Notification_op" "dispatch hs wr clk i q buf (mach C) = (r, M')"
  shows "moves i C (C\<lparr>mach := M', todo := (todo C)(i := td)\<rparr>) \<and>
    moves i C (C\<lparr>mach := end_thread i M', todo := (todo C)(i := td)\<rparr>)"
proof -
  have fr: "frame hs i (if False then emptied i (mach C) else mach C) M'"
    using dispatch_frame [OF assms(1-3,5)] assms(4) by simp
  have inv: "topo_inv hs (topo (mnode (mach C)))" using assms(1) by (simp add: cluster_inv_def)
  show ?thesis
  proof (rule frame_channel [OF fr inv, where l = i])
    show "i < num_cores (topo (mnode (mach C)))" using assms(2) cluster_length [OF assms(1)] by simp
    fix ms
    assume "channel_of (topo (mnode M')) i = (if False \<and> i = i then [] else channel_of (topo (mnode (mach C))) i) @ ms"
    then show ?thesis using fr by (simp add: moves_def frame_def end_thread_def)
  qed
qed

section \<open>Getting to the messages\<close>

text \<open>
  The next completion of core \<open>i\<close> is the notification, or handling it would be undefined behaviour.
\<close>

definition at_notification :: "nat \<Rightarrow> config \<Rightarrow> bool" where
  "at_notification i C \<longleftrightarrow> (\<exists>q qs. todo C i = Some (q # qs) \<and> cqe_data q = Some Notification_op)"

definition undefined_next ::
    "(string \<Rightarrow> nat) \<Rightarrow> (string \<Rightarrow> bool) \<Rightarrow> (nat \<Rightarrow> nat \<Rightarrow> int) \<Rightarrow> nat \<Rightarrow> string \<Rightarrow> config \<Rightarrow> bool"
where
  "undefined_next hs wr clk i buf C \<longleftrightarrow>
     (\<exists>q qs. todo C i = Some (q # qs) \<and> fst (dispatch hs wr clk i q buf (mach C)) = Inl Undefined_behaviour)"

text \<open>Handling the completions a core has taken, up to the notification.\<close>

lemma drain:
  assumes "cluster_inv hs C" "i < length (workers (mach C))" "todo C i = Some cs"
  shows "\<exists>C'. (cluster_step hs wr clk)\<^sup>*\<^sup>* C C' \<and> moves i C C' \<and>
    (todo C' i = None \<or> at_notification i C' \<or> undefined_next hs wr clk i buf C' \<or>
     (todo C' i = Some [] \<and> Some Notification_op \<notin> set (map cqe_data cs)))"
  using assms
proof (induction cs arbitrary: C)
  case Nil
  then show ?case using moves_refl by (intro exI [of _ C]) simp
next
  case (Cons q qs)
  obtain r M' where run: "dispatch hs wr clk i q buf (mach C) = (r, M')" by fastforce
  show ?case
  proof (cases "cqe_data q = Some Notification_op \<or> r = Inl Undefined_behaviour")
    case True
    then have "at_notification i C \<or> undefined_next hs wr clk i buf C"
      using Cons.prems(3) run by (auto simp: at_notification_def undefined_next_def)
    then show ?thesis using moves_refl by blast
  next
    case False
    note move = handled_moves [OF Cons.prems _ run]
    show ?thesis
    proof (cases r)
      case (Inl f)
      let ?C = "C\<lparr>mach := end_thread i M', todo := (todo C)(i := None)\<rparr>"
      have "cluster_step hs wr clk C ?C"
        by (rule cluster_step.Stop [OF Cons.prems(2,3)]) (use run Inl False in auto)
      then show ?thesis using move False by (intro exI [of _ ?C]) auto
    next
      case (Inr u)
      let ?C = "C\<lparr>mach := M', todo := (todo C)(i := Some qs)\<rparr>"
      have step: "cluster_step hs wr clk C ?C"
        by (rule cluster_step.Handle [OF Cons.prems(2,3)]) (use run Inr in simp)
      have mv: "moves i C ?C" using move False by blast
      then have "i < length (workers (mach ?C))" using Cons.prems(2) by (simp add: moves_def)
      with Cons.IH [OF cluster_step_inv [OF step Cons.prems(1)]]
      obtain C' where C': "(cluster_step hs wr clk)\<^sup>*\<^sup>* ?C C'" "moves i ?C C'"
        "todo C' i = None \<or> at_notification i C' \<or> undefined_next hs wr clk i buf C' \<or>
         (todo C' i = Some [] \<and> Some Notification_op \<notin> set (map cqe_data qs))" by auto
      have "(cluster_step hs wr clk)\<^sup>*\<^sup>* C C'" using step C'(1) by (rule converse_rtranclp_into_rtranclp)
      with C'(3) moves_trans [OF mv C'(2)] False show ?thesis by (intro exI [of _ C']) auto
    qed
  qed
qed

text \<open>A wait in which every descriptor is ready takes every operation, the notification among them.\<close>

abbreviation all_ready :: select_round where
  "all_ready \<equiv> Select_ready (\<lambda>_. True) (\<lambda>_. True) (\<lambda>_. Sys_done 8)"

lemma reap_results: "reap rd wr (\<lambda>_. Sys_done n) k es = (ps, cs) \<Longrightarrow> q \<in> set cs \<Longrightarrow> res q = int n"
  by (induction es arbitrary: k ps cs) (auto simp: Let_def split: prod.splits if_splits)

lemma wait_takes_all:
  assumes "worker_inv w {#}"
  shows "\<exists>cs w'. run_wait [all_ready] w = Some (cs, w') \<and> Some Notification_op \<in> set (map cqe_data cs) \<and>
    mset (map cqe_data cs) = image_mset user_data (in_flight (ring (ctx w))) \<and> (\<forall>q \<in> set cs. res q = 8)"
proof -
  let ?r = "snd (uring_submit (ring (ctx w)))"
  obtain ps cs where reap: "reap (\<lambda>_. True) (\<lambda>_. True) (\<lambda>_. Sys_done 8) 0 (pending_sqes ?r) = (ps, cs)" by fastforce
  have ps: "ps = []"
    using reap_all [of "\<lambda>_. True" "\<lambda>_. True" "\<lambda>_. Sys_done 8" 0 "pending_sqes ?r"] reap
    by (simp add: sqe_ready_def split: opcode.splits)
  have taken: "mset (map user_data (pending_sqes ?r)) = mset (map cqe_data cs)" using reap_conserves [OF reap] ps by simp
  moreover have flight: "in_flight (ring (ctx w)) = mset (pending_sqes ?r)" by (simp add: in_flight_def uring_submit_def)
  ultimately have "count (mset (map cqe_data cs)) (Some Notification_op) = 1"
    using assms by (simp add: worker_inv_def pending_ops_def)
  then have nt: "Some Notification_op \<in> set (map cqe_data cs)" by (metis count_mset_0_iff zero_neq_one)
  then have "cs \<noteq> []" by auto
  moreover have "pending_sqes ?r \<noteq> []" using \<open>cs \<noteq> []\<close> reap by auto
  moreover have "cqes ?r = []" using assms by (simp add: worker_inv_def)
  ultimately have "wait_loop 1 [all_ready] ?r = Some (?r\<lparr>pending_sqes := [], cqes := cs\<rparr>)"
    using reap ps by (simp add: Suc_le_eq)
  moreover have "\<forall>q \<in> set cs. res q = 8" using reap_results [OF reap] by simp
  ultimately show ?thesis
    using nt taken flight by (simp add: run_wait_def io_submit_and_wait_def uring_submit_and_wait_def)
qed

lemma wait_step:
  assumes "cluster_inv hs C" "i < length (workers (mach C))" "todo C i = Some []"
  shows "\<exists>C' cs. cluster_step hs wr clk C C' \<and> moves i C C' \<and> todo C' i = Some cs \<and>
    Some Notification_op \<in> set (map cqe_data cs)"
proof -
  have w: "worker_inv (workers (mach C) ! i) {#}" using assms by (auto simp: cluster_inv_def core_inv_def)
  obtain cs w' where wait: "run_wait [all_ready] (workers (mach C) ! i) = Some (cs, w')"
    and nt: "Some Notification_op \<in> set (map cqe_data cs)"
    using wait_takes_all [OF w] by blast
  have "seen C i \<le> wakeups (topo (mnode (mach C))) i" using assms(1,2) by (simp add: cluster_inv_def)
  from cluster_step.Wait [OF assms(2,3) wait order_refl this, where hs = hs and wr = wr and clk = clk] nt
  show ?thesis by (intro exI conjI) (assumption, auto simp: moves_def)
qed

lemma reach_notification:
  assumes inv: "cluster_inv hs C" and i: "i < length (workers (mach C))" "todo C i = Some cs"
  shows "\<exists>C'. (cluster_step hs wr clk)\<^sup>*\<^sup>* C C' \<and> moves i C C' \<and>
    (todo C' i = None \<or> undefined_next hs wr clk i buf C' \<or> at_notification i C')"
proof -
  let ?stop = "\<lambda>C'. todo C' i = None \<or> undefined_next hs wr clk i buf C' \<or> at_notification i C'"
  obtain D where D: "(cluster_step hs wr clk)\<^sup>*\<^sup>* C D" "moves i C D" "?stop D \<or> todo D i = Some []"
    using drain [OF inv i, of wr clk buf] by blast
  show ?thesis
  proof (cases "?stop D")
    case False
    then have td: "todo D i = Some []" using D(3) by blast
    have invD: "cluster_inv hs D" by (rule cluster_steps_inv [OF D(1) inv])
    have lenD: "i < length (workers (mach D))" using D(2) i(1) by (simp add: moves_def)
    obtain E es where E: "cluster_step hs wr clk D E" "moves i D E" "todo E i = Some es"
      "Some Notification_op \<in> set (map cqe_data es)" using wait_step [OF invD lenD td] by blast
    have "i < length (workers (mach E))" using E(2) lenD by (simp add: moves_def)
    then obtain C' where C': "(cluster_step hs wr clk)\<^sup>*\<^sup>* E C'" "moves i E C'" "?stop C'"
      using drain [OF cluster_step_inv [OF E(1) invD] _ E(3), of wr clk buf] E(4) by blast
    show ?thesis
      using rtranclp_trans [OF rtranclp.rtrancl_into_rtrancl [OF D(1) E(1)] C'(1)] C'(3)
        moves_trans [OF moves_trans [OF D(2) E(2)] C'(2)] by blast
  qed (use D in blast)
qed



section \<open>The end of a thread\<close>

text \<open>The descriptors of a core are the same from its start to its end.\<close>

lemma step_fds:
  assumes "cluster_step hs wr clk C C'" "cluster_inv hs C"
  shows "same_fds (workers (mach C) ! l) (workers (mach C') ! l) \<and>
    length (workers (mach C')) = length (workers (mach C)) \<and>
    notify_fds (topo (mnode (mach C'))) = notify_fds (topo (mnode (mach C)))"
  using assms(1)
proof (cases rule: cluster_step.cases)
  case (Wait i rounds cs w' s)
  have "same_fds (workers (mach C) ! i) w'"
    using Wait(4) by (auto simp: run_wait_def io_submit_and_wait_def same_fds_def)
  with Wait(1,2) show ?thesis by (auto simp: nth_list_update)
next
  case (Handle i q qs buf M')
  note fr = dispatch_frame [OF assms(2) Handle(2,3,4)]
  have "i < num_cores (topo (mnode (mach C)))" "topo_inv hs (topo (mnode (mach C)))"
    using Handle(2) assms(2) by (simp_all add: cluster_inv_def)
  then show ?thesis
    using fr Handle(1) emptied_topo(7) [of hs "mach C" i] by (cases "l = i") (auto simp: frame_def extends_def split: if_splits)
next
  case (Stop i q qs buf f M')
  note fr = dispatch_frame [OF assms(2) Stop(2,3,4)]
  have "i < num_cores (topo (mnode (mach C)))" "topo_inv hs (topo (mnode (mach C)))"
    using Stop(2) assms(2) by (simp_all add: cluster_inv_def)
  then show ?thesis
    using fr Stop(1,2) emptied_topo(7) [of hs "mach C" i]
    by (cases "l = i") (auto simp: frame_def extends_def end_thread_def worker_unwind_def split: if_splits)
qed

lemma steps_fds:
  assumes "(cluster_step hs wr clk)\<^sup>*\<^sup>* C C'" "cluster_inv hs C"
  shows "same_fds (workers (mach C) ! l) (workers (mach C') ! l) \<and>
    length (workers (mach C')) = length (workers (mach C)) \<and>
    notify_fds (topo (mnode (mach C'))) = notify_fds (topo (mnode (mach C)))"
  using assms
proof (induction rule: rtranclp_induct)
  case (step D E)
  then show ?case using step_fds [OF step(2) cluster_steps_inv [OF step(1,4)]] same_fds_trans by fastforce
qed simp

text \<open>
  C36: An exception in a handler ends the whole core. On Linux, where one \<open>eventfd\<close> serves as both ends of the
  wake-up channel, an exception that leaves the handler of a completion ends the thread, which closes
  the listening socket and then the same \<open>eventfd\<close> twice. The sockets of its clients are not
  closed, the connection objects stay, and the closed descriptor is still the one the other cores
  write to for their wake-ups.
\<close>

theorem thread_end:
  assumes "cluster_inv hs C\<^sub>0" "(cluster_step hs wr clk)\<^sup>*\<^sup>* C\<^sub>0 C" "i < length (workers (mach C\<^sub>0))"
    and "server_fd (server (workers (mach C\<^sub>0) ! i)) = sfd" "0 \<le> sfd"
    and "event_fd (ctx (workers (mach C\<^sub>0) ! i)) = fd" "notify_fd (ctx (workers (mach C\<^sub>0) ! i)) = fd"
    and "notify_fds (topo (mnode (mach C\<^sub>0))) ! i = fd"
    and "todo C i = Some (q # qs)" "dispatch hs wr clk i q buf (mach C) = (Inl f, M)" "f \<noteq> Undefined_behaviour"
  shows "\<exists>C'. cluster_step hs wr clk C C' \<and> todo C' i = None \<and>
    closed_fds (workers (mach C') ! i) = closed_fds (workers M ! i) @ [sfd, fd, fd] \<and>
    objects (workers (mach C') ! i) = objects (workers M ! i) \<and>
    notify_fds (topo (mnode (mach C'))) ! i = fd"
proof -
  let ?C = "C\<lparr>mach := end_thread i M, todo := (todo C)(i := None)\<rparr>"
  have inv: "cluster_inv hs C" by (rule cluster_steps_inv [OF assms(2,1)])
  note fds = steps_fds [OF assms(2,1), of i]
  have i: "i < length (workers (mach C))" using fds assms(3) by simp
  have step: "cluster_step hs wr clk C ?C" by (rule cluster_step.Stop [OF i assms(9-11)])
  have fr: "frame hs i (if cqe_data q = Some Notification_op then emptied i (mach C) else mach C) M"
    using dispatch_frame [OF inv i assms(9,10)] by blast
  then have w: "same_fds (workers (mach C) ! i) (workers M ! i)" "i < length (workers M)"
    using i by (auto simp: frame_def split: if_splits)
  have "core_inv C i" using inv i by (simp add: cluster_inv_def)
  then have "0 \<le> event_fd (ctx (workers (mach C) ! i))" using assms(9) by (simp add: core_inv_def worker_inv_def)
  then have "closed_fds (workers (end_thread i M) ! i) = closed_fds (workers M ! i) @ [sfd, fd, fd]"
    using w fds assms(4-7)
    by (simp add: end_thread_def worker_unwind_def io_context_destroy_def tcp_server_destroy_def same_fds_def)
  moreover have "notify_fds (topo (mnode (mach ?C))) ! i = fd" using step_fds [OF step inv, of i] fds assms(8) by simp
  ultimately show ?thesis
    using step w(2) by (intro exI [of _ ?C]) (simp add: end_thread_def worker_unwind_def)
qed

text \<open>A core that is about to handle a read of a client that sent an array of negative size.\<close>

definition hostile_worker :: worker where
  "hostile_worker =
     idle_worker\<lparr>ctx := (ctx idle_worker)\<lparr>ring := (ring (ctx idle_worker))
       \<lparr>pending_sqes := map (\<lambda>op. empty_sqe\<lparr>user_data := Some op\<rparr>) [Notification_op, Accept_op]\<rparr>\<rparr>\<rparr>"

definition hostile_config :: config where
  "hostile_config =
     waiting_config\<lparr>mach := (mach waiting_config)\<lparr>workers := [hostile_worker, idle_worker]\<rparr>,
       todo := (\<lambda>_. Some [])(0 := Some [\<lparr>cqe_data = Some (Read_op 0), res = 5\<rparr>])\<rparr>"

lemma hostile_worker_inv: "worker_inv hostile_worker {# Some (Read_op 0) #}"
  by (auto simp: worker_inv_def conn_inv_def hostile_worker_def idle_worker_def pending_ops_def in_flight_def
      empty_sqe_def new_connection_def set_on_disconnect_def split: if_splits)

lemma hostile_config_inv: "cluster_inv hs hostile_config"
proof -
  let ?t = "topo (mnode (mach waiting_config))"
  have t: "topo (mnode (mach hostile_config)) = ?t" "num_cores ?t = 2" "length (workers (mach hostile_config)) = 2"
    "seen hostile_config = seen waiting_config"
    by (simp_all add: hostile_config_def waiting_config_def new_topology_def)
  have old: "cluster_inv hs waiting_config" by (rule waiting_config_inv)
  have "core_inv hostile_config i" if "i < 2" for i
  proof -
    have "core_inv waiting_config i" using old that t(2) by (simp add: cluster_inv_def)
    with that hostile_worker_inv idle_worker_inv show ?thesis
      by (auto simp: core_inv_def t hostile_config_def waiting_config_def less_2_cases_iff)
  qed
  with old t show ?thesis by (simp add: cluster_inv_def)
qed

lemma hostile_dispatch:
  "\<exists>M. dispatch hs wr clk 0 \<lparr>cqe_data = Some (Read_op 0), res = 5\<rparr> (''*-1'' @ crlf) (mach hostile_config) =
     (Inl Length_error, M) \<and> closed_fds (workers M ! 0) = [] \<and> objects (workers M ! 0) 0 \<noteq> None"
proof -
  have "nat_str 1 = ''1''" by code_simp
  then obtain n p where "consume new_parser (''*-1'' @ crlf) 0 = (Inl Length_error, n, p)"
    using negative_array_throws [of 1 "[]" 0] by (cases "consume new_parser (''*-1'' @ crlf) 0") simp
  moreover have "take 5 (''*-1'' @ crlf) = ''*-1'' @ crlf" by (simp add: crlf_def)
  ultimately show ?thesis
    by (simp add: dispatch_def handle_read_def with_clock_def receive_data_def handle_data_def bindS_def hostile_config_def
        hostile_worker_def idle_worker_def set_on_disconnect_def new_connection_def)
qed

theorem thread_end_witness:
  "\<exists>C'. cluster_step (\<lambda>_. 0) (\<lambda>_. True) (\<lambda>_ _. 0) hostile_config C' \<and> todo C' 0 = None \<and>
     closed_fds (workers (mach C') ! 0) = [4, 3, 3] \<and> objects (workers (mach C') ! 0) 0 \<noteq> None"
proof -
  let ?q = "\<lparr>cqe_data = Some (Read_op 0), res = 5\<rparr>"
  obtain M where M: "dispatch (\<lambda>_. 0) (\<lambda>_. True) (\<lambda>_ _. 0) 0 ?q (''*-1'' @ crlf) (mach hostile_config) = (Inl Length_error, M)"
    "closed_fds (workers M ! 0) = []" "objects (workers M ! 0) 0 \<noteq> None"
    using hostile_dispatch by blast
  have "\<exists>C'. cluster_step (\<lambda>_. 0) (\<lambda>_. True) (\<lambda>_ _. 0) hostile_config C' \<and> todo C' 0 = None \<and>
      closed_fds (workers (mach C') ! 0) = closed_fds (workers M ! 0) @ [4, 3, 3] \<and>
      objects (workers (mach C') ! 0) = objects (workers M ! 0) \<and> notify_fds (topo (mnode (mach C'))) ! 0 = 3"
    by (rule thread_end [OF hostile_config_inv rtranclp.rtrancl_refl _ _ _ _ _ _ _ M(1), where qs = "[]"])
      (simp_all add: hostile_config_def hostile_worker_def idle_worker_def waiting_config_def idle_machine_def)
  with M(2,3) show ?thesis by (metis append_Nil)
qed

section \<open>A core that has ended\<close>

lemma stopped_step:
  assumes "cluster_step hs wr clk C C'" "cluster_inv hs C" "i < length (workers (mach C))" "todo C i = None"
  shows "todo C' i = None \<and> workers (mach C') ! i = workers (mach C) ! i \<and>
    (\<exists>ms. channel_of (topo (mnode (mach C'))) i = channel_of (topo (mnode (mach C))) i @ ms)"
  using assms(1)
proof (cases rule: cluster_step.cases)
  case (Wait j rounds cs w' s)
  then have "j \<noteq> i" using assms(4) by auto
  with Wait(1) assms(4) show ?thesis by simp
next
  case (Handle j q qs buf M')
  then have j: "j \<noteq> i" using assms(4) by auto
  note fr = dispatch_frame [OF assms(2) Handle(2,3,4)]
  then have "workers M' ! i = workers (mach C) ! i" using j by (auto simp: frame_def split: if_splits)
  moreover have "\<exists>ms. channel_of (topo (mnode M')) i = channel_of (topo (mnode (mach C))) i @ ms"
    by (rule frame_channel [OF conjunct1 [OF fr], where l = i])
      (use j assms(2) Handle(2) in \<open>auto simp: cluster_inv_def\<close>)
  ultimately show ?thesis using Handle(1) j assms(4) by simp
next
  case (Stop j q qs buf f M')
  then have j: "j \<noteq> i" using assms(4) by auto
  note fr = dispatch_frame [OF assms(2) Stop(2,3,4)]
  then have "workers (end_thread j M') ! i = workers (mach C) ! i"
    using j by (auto simp: frame_def end_thread_def split: if_splits)
  moreover have "\<exists>ms. channel_of (topo (mnode M')) i = channel_of (topo (mnode (mach C))) i @ ms"
    by (rule frame_channel [OF conjunct1 [OF fr], where l = i])
      (use j assms(2) Stop(2) in \<open>auto simp: cluster_inv_def\<close>)
  ultimately show ?thesis using Stop(1) j assms(4) by (simp add: end_thread_def)
qed

text \<open>
  C37: A core that has ended never answers again. Whatever the other cores do, it stays ended, its
  connections keep the state the exception left them in, and no message leaves its channel: every
  request sent to it before or later stays there, and its client waits for ever.
\<close>

theorem stopped_core:
  assumes "cluster_inv hs C" "i < length (workers (mach C))" "todo C i = None" "(cluster_step hs wr clk)\<^sup>*\<^sup>* C C'"
  shows "todo C' i = None \<and> workers (mach C') ! i = workers (mach C) ! i \<and>
    (\<exists>ms. channel_of (topo (mnode (mach C'))) i = channel_of (topo (mnode (mach C))) i @ ms)"
  using assms(4)
proof (induction rule: rtranclp_induct)
  case (step D E)
  have "i < length (workers (mach D))" using steps_fds [OF step(1) assms(1)] assms(2) by simp
  with stopped_step [OF step(2) cluster_steps_inv [OF step(1) assms(1)], of i] step.IH show ?case by auto
qed (use assms(3) in simp)

theorem stopped_core_witness:
  "\<exists>C C'. cluster_step (\<lambda>_. 0) (\<lambda>_. True) (\<lambda>_ _. 0) C C' \<and> todo C' 0 = None \<and>
     (\<exists>ms. channel_of (topo (mnode (mach C'))) 0 = request_message 1 1 [''GET'', ''k''] # ms)"
proof -
  let ?C = "waiting_config\<lparr>todo := (todo waiting_config)(0 := None)\<rparr>"
  have "core_inv ?C i" if "i < 2" for i
    using waiting_config_inv [of "\<lambda>_. 0"] that
    by (auto simp: cluster_inv_def core_inv_def waiting_config_def new_topology_def)
  then have inv: "cluster_inv (\<lambda>_. 0) ?C"
    using waiting_config_inv [of "\<lambda>_. 0"] by (auto simp: cluster_inv_def waiting_config_def new_topology_def)
  have C: "1 < length (workers (mach ?C))" "todo ?C 1 = Some []" "todo ?C 0 = None" "0 < length (workers (mach ?C))"
    "channel_of (topo (mnode (mach ?C))) 0 = [request_message 1 1 [''GET'', ''k'']]"
    by (simp_all add: waiting_config_def idle_machine_def channel_of_def)
  obtain C' where step: "cluster_step (\<lambda>_. 0) (\<lambda>_. True) (\<lambda>_ _. 0) ?C C'" using wait_step [OF inv C(1,2)] by blast
  then have "(cluster_step (\<lambda>_. 0) (\<lambda>_. True) (\<lambda>_ _. 0))\<^sup>*\<^sup>* ?C C'" by blast
  from stopped_core [OF inv C(4,3) this] step C(5) show ?thesis by (intro exI [of _ ?C] exI [of _ C']) auto
qed

end
