(* ===== verification/Rdb_Safety.thy ===== *)
theory Rdb_Safety
  imports Rdb
begin

text \<open>
  Loading a dump file of any content (\<open>src/persistence/rdb_manager.hpp\<close>): whatever the bytes, and
  even when the load is given up half-way, the node keeps its invariant.
\<close>

section \<open>Values read from a file\<close>

definition yields :: "('s, 'a) st \<Rightarrow> ('a \<Rightarrow> bool) \<Rightarrow> bool" where
  "yields m P \<longleftrightarrow> (\<forall>s x s'. m s = (Inr x, s') \<longrightarrow> P x)"

lemma yields_ret: "P x \<Longrightarrow> yields (ret x) P"
  by (simp add: yields_def)

lemma yields_bind:
  assumes "yields m P" "\<And>x. P x \<Longrightarrow> yields (f x) Q"
  shows "yields (bindS m f) Q"
  unfolding yields_def
proof (intro allI impI)
  fix s y s'
  assume "bindS m f s = (Inr y, s')"
  then show "Q y"
  proof (cases rule: bindS_cases)
    case (val x t)
    with assms show ?thesis unfolding yields_def by blast
  qed simp
qed

lemma yields_True: "yields m (\<lambda>_. True)"
  by (simp add: yields_def)

lemma yields_items:
  assumes "\<And>x acc acc'. P acc \<Longrightarrow> add x acc = Inr acc' \<Longrightarrow> P acc'" "P acc"
  shows "yields (read_items item add n acc) P"
  using assms(2)
proof (induction n arbitrary: acc)
  case (Suc n)
  have "yields (case add x acc of Inl f \<Rightarrow> throw f | Inr acc' \<Rightarrow> read_items item add n acc') P" for x
  proof (cases "add x acc")
    case (Inl f)
    then show ?thesis by (simp add: yields_def)
  next
    case (Inr acc')
    then have "yields (read_items item add n acc') P" using Suc.IH assms(1) [OF Suc.prems] by blast
    with Inr show ?thesis by simp
  qed
  then show ?case unfolding read_items.simps by (rule yields_bind [OF yields_True])
next
  case 0
  then show ?case unfolding read_items.simps by (rule yields_ret)
qed

text \<open>Every value the loader builds is well-formed: sorted, without duplicates, without NaN.\<close>

lemma read_set_ok: "yields read_set (\<lambda>xs. sorted_wrt (<) xs)"
proof -
  have "sorted_wrt (<) ys" if "sorted_wrt (<) xs" "Inr (fst (oset_insert (<) x xs)) = (Inr ys :: fault + string list)"
    for x xs ys using less_set_insert(2) [OF that(1), of x ys] that(2) by (cases "oset_insert (<) x xs") auto
  then show ?thesis
    unfolding read_set_def by (intro yields_bind [OF yields_True] yields_items) auto
qed

lemma read_hash_ok: "yields read_hash omap_sorted"
  unfolding read_hash_def
  by (intro yields_bind [OF yields_True] yields_items) (auto simp: omap_sorted_put)

lemma read_zset_ok: "yields read_zset zset_inv"
  unfolding read_zset_def
  by (intro yields_bind [OF yields_True] yields_items)
    (auto simp: insert_loaded_def entry_ok_def intro!: zset_inv_insert split: if_splits)

lemma read_value_ok: "yields (read_value ty) (\<lambda>v. \<forall>x. v = Some x \<longrightarrow> value_ok x)"
  unfolding read_value_def
  by (auto simp: value_ok_def intro!: yields_ret yields_bind [OF yields_True] yields_bind [OF read_set_ok]
      yields_bind [OF read_hash_ok] yields_bind [OF read_zset_ok])

lemma read_record_ok: "yields (read_record ty) (\<lambda>r. \<forall>k v e. r = Some (k, v, e) \<longrightarrow> value_ok v)"
  unfolding read_record_def
  by (auto intro!: yields_ret yields_bind [OF yields_True] yields_bind [OF read_value_ok])

section \<open>Insertion and the loop\<close>

definition only_shards :: "topology \<Rightarrow> topology \<Rightarrow> bool" where
  "only_shards t t' \<longleftrightarrow> (\<exists>ss. t' = t\<lparr>shards := ss\<rparr>)"

lemma only_shards_refl: "only_shards t t"
  by (auto simp: only_shards_def intro: exI [of _ "shards t"])

lemma only_shards_trans: "only_shards t u \<Longrightarrow> only_shards u v \<Longrightarrow> only_shards t v"
  by (auto simp: only_shards_def)

lemma load_record_inv:
  assumes inv: "topo_inv hs t" and ok: "value_ok v" and run: "load_record hs (k, v, e) t = (r, t')"
  shows "topo_inv hs t' \<and> only_shards t t'"
proof -
  define c where "c = get_target_core t k"
  let ?sh = "shards t ! c"
  let ?m = "bindS (shard_set hs k v) (\<lambda>_. case e of None \<Rightarrow> ret () | Some x \<Rightarrow> set_expiry k x)"
  have c: "c < num_cores t" using target_in_range [OF inv] by (simp add: c_def)
  note sh = topo_shard_inv [OF inv c]
  have "\<exists>q sh'. ?m ?sh = (q, sh') \<and> shard_inv hs sh' \<and> (\<forall>j. j \<noteq> k \<longrightarrow> shard_abs sh' j = shard_abs ?sh j)"
  proof (cases "\<exists>s. shard_set hs k v ?sh = (Inr (), s) \<and> shard_inv hs s \<and> shard_abs s = (shard_abs ?sh)(k \<mapsto> (v, None))")
    case True
    then obtain s where s: "shard_set hs k v ?sh = (Inr (), s)" "shard_inv hs s"
      "shard_abs s = (shard_abs ?sh)(k \<mapsto> (v, None))" by blast
    show ?thesis
    proof (cases e)
      case None
      with s show ?thesis by simp
    next
      case (Some x)
      obtain s' where "set_expiry k x s = (Inr (), s')" "shard_inv hs s'" "shard_abs s' = (shard_abs s)(k \<mapsto> (v, Some x))"
        using ks.set_exp_law [OF s(2), of k v None x] s(3) by auto
      with s Some show ?thesis by simp
    qed
  next
    case False
    then have "shard_set hs k v ?sh = (Inl (Runtime_error ''HashMap is full''), ?sh)"
      using ks.set_law [OF sh ok, of k] by blast
    then show ?thesis using sh by simp
  qed
  then obtain q sh' where m: "?m ?sh = (q, sh')" "shard_inv hs sh'" "\<forall>j. j \<noteq> k \<longrightarrow> shard_abs sh' j = shard_abs ?sh j"
    by blast
  have "t' = t\<lparr>shards := (shards t)[c := sh']\<rparr>"
    using run on_shard_apply [where m = ?m, OF inv c m(1)] by (simp add: load_record_def c_def [symmetric])
  moreover have "topo_inv hs (t\<lparr>shards := (shards t)[c := sh']\<rparr>)"
    by (rule topo_shard_update(1) [OF inv c_def m(2)]) (use m(3) in simp)
  ultimately show ?thesis by (auto simp: only_shards_def)
qed

lemma load_loop_inv:
  "load_loop hs ifs t = (r, t') \<Longrightarrow> topo_inv hs t \<Longrightarrow> topo_inv hs t' \<and> only_shards t t'"
proof (induction hs ifs t arbitrary: r t' rule: load_loop.induct)
  case (1 hs ifs t)
  show ?case
  proof (cases "\<exists>ty ifs1 rec ifs2. \<not> at_eof ifs \<and> read_int 1 ifs = (Inr ty, ifs1) \<and> ty \<noteq> rdb_code R_END_OF_FILE \<and>
      read_record ty ifs1 = (Inr (Some rec), ifs2)")
    case True
    then obtain ty ifs1 k v e ifs2 where rd: "\<not> at_eof ifs" "read_int 1 ifs = (Inr ty, ifs1)"
      "ty \<noteq> rdb_code R_END_OF_FILE" "read_record ty ifs1 = (Inr (Some (k, v, e)), ifs2)" by auto
    obtain q u where u: "load_record hs (k, v, e) t = (q, u)" by fastforce
    have "value_ok v" using read_record_ok [of ty] rd(4) unfolding yields_def by blast
    then have inv: "topo_inv hs u \<and> only_shards t u" by (rule load_record_inv [OF "1.prems"(2) _ u])
    show ?thesis
    proof (cases q)
      case (Inl f)
      then show ?thesis using "1.prems"(1) rd u inv by (simp add: load_loop.simps [of hs ifs t])
    next
      case (Inr y)
      then have "load_loop hs ifs2 u = (r, t')"
        using "1.prems"(1) rd u by (simp add: load_loop.simps [of hs ifs t])
      with "1.IH" [OF rd(1) rd(2) [symmetric] refl rd(3) rd(4) [symmetric] refl refl u [symmetric] Inr] inv
      show ?thesis using only_shards_trans by blast
    qed
  next
    case False
    then have "t' = t"
      using "1.prems"(1) by (subst (asm) load_loop.simps) (auto split: if_splits prod.splits sum.splits option.splits)
    then show ?thesis using "1.prems"(2) only_shards_refl by simp
  qed
qed



end
