(* ===== verification/Server.thy ===== *)
theory Server
  imports Core_Lifecycle Rdb_Safety
begin

text \<open>
  The start of the server: the configuration (\<open>src/core/config.hpp\<close>) and \<open>main\<close> (\<open>src/main.cpp\<close>):
  the choice of the port and of the number of threads, the topology, the load of the dump file, and
  the worker threads, which register with the topology, wait for each other, and start to serve.
  Every state reachable from there satisfies the invariant of the node.
\<close>

section \<open>Configuration\<close>

record rdb_save_point =
  seconds :: int
  changes :: int

record server_config =
  rdb_filename :: string
  rdb_compression :: bool
  dir :: string
  save_params :: "rdb_save_point list"
  port :: int
  worker_threads :: int

definition default_config :: server_config where
  "default_config =
     \<lparr>rdb_filename = ''data/dump.rdb'', rdb_compression = True, dir = ''./'',
      save_params = [\<lparr>seconds = 3600, changes = 1\<rparr>, \<lparr>seconds = 300, changes = 100\<rparr>,
                     \<lparr>seconds = 60, changes = 10000\<rparr>],
      port = 6379, worker_threads = 0\<rparr>"

text \<open>
  The port from the environment; an exception of \<open>std::stoi\<close> leaves \<open>main\<close> and ends the program.
\<close>

definition configure :: "(string \<Rightarrow> string option) \<Rightarrow> fault + server_config" where
  "configure getenv =
     (case getenv ''QUINE_PORT'' of
        Some v \<Rightarrow> bindE (stoi v) (\<lambda>p. Inr (default_config\<lparr>port := p\<rparr>))
      | None \<Rightarrow>
          (case getenv ''PORT'' of
             Some v \<Rightarrow> bindE (stoi v) (\<lambda>p. Inr (default_config\<lparr>port := p\<rparr>))
           | None \<Rightarrow> Inr default_config))"

definition thread_count :: "nat \<Rightarrow> server_config \<Rightarrow> nat" where
  "thread_count hardware_concurrency cfg =
     (if 0 < worker_threads cfg then nat (worker_threads cfg) else hardware_concurrency)"

text \<open>\<open>main\<close> up to the start of the threads; the result of the load is only reported.\<close>

definition main_init ::
    "(string \<Rightarrow> nat) \<Rightarrow> (string \<Rightarrow> string option) \<Rightarrow> nat \<Rightarrow> (string \<rightharpoonup> string) \<Rightarrow> fault + nat \<times> node"
where
  "main_init hs getenv hw fs =
     bindE (configure getenv) (\<lambda>cfg.
       let n = thread_count hw cfg
       in (case rdb_load hs (fs (rdb_filename cfg)) (new_topology n) of
             (Inl f, _) \<Rightarrow> Inl f
           | (Inr _, t) \<Rightarrow> Inr (n, \<lparr>topo = t, files = fs\<rparr>)))"

section \<open>Worker threads\<close>

text \<open>The registrations, in the order of the cores; \<open>efd\<close> gives their wake-up descriptors.\<close>

fun register_cores :: "(nat \<Rightarrow> event_source) \<Rightarrow> nat list \<Rightarrow> node \<Rightarrow> (fault + io_context) list \<times> node" where
  "register_cores efd [] nd = ([], nd)"
| "register_cores efd (i # is) nd =
     (case worker_register i (efd i) nd of
        (r, nd1) \<Rightarrow> (case register_cores efd is nd1 of (rs, nd2) \<Rightarrow> (r # rs, nd2)))"

text \<open>
  The threads up to their event loops. Before the barrier every thread must register; when one does
  not, the others wait for ever, and there is no state to go on from. After the barrier a thread that
  cannot listen ends, its context is destroyed, and the others serve.
\<close>

definition start_threads :: "(nat \<Rightarrow> event_source) \<Rightarrow> (nat \<Rightarrow> string \<Rightarrow> int) \<Rightarrow> nat \<Rightarrow> node \<Rightarrow> config option" where
  "start_threads efd sys n nd =
     (case register_cores efd [0 ..< n] nd of
        (rs, nd') \<Rightarrow>
          if \<not> all_cores_registered (topo nd') then None
          else
            let started = map (\<lambda>i. worker_serve (sys i) (new_worker (projr (rs ! i)))) [0 ..< n]
            in Some \<lparr>mach = \<lparr>mnode = nd', workers = map (\<lambda>(r, w). if r = Inr () then w else worker_unwind w) started,
                             next_conn_id = 1, ticks = 0\<rparr>,
                     todo = (\<lambda>i. if i < n \<and> fst (started ! i) = Inr () then Some [] else None),
                     seen = (\<lambda>_. 0)\<rparr>)"

section \<open>The state after the start\<close>

text \<open>Whether the descriptors could be opened, and both ends.\<close>

fun opens :: "event_source \<Rightarrow> bool" where
  "opens (Eventfd fd) \<longleftrightarrow> 0 \<le> fd"
| "opens (Pipe p) \<longleftrightarrow> p \<noteq> None"

fun read_end :: "event_source \<Rightarrow> int" where
  "read_end (Eventfd fd) = fd"
| "read_end (Pipe p) = int (fst (the p))"

fun write_end :: "event_source \<Rightarrow> int" where
  "write_end (Eventfd fd) = fd"
| "write_end (Pipe p) = int (snd (the p))"

lemma new_io_context_opens:
  "opens src \<Longrightarrow> new_io_context n src = Inr \<lparr>ring = uring_queue_init n, event_fd = read_end src, notify_fd = write_end src,
     notification_handler_set = False\<rparr>"
  "\<not> opens src \<Longrightarrow> \<exists>f. new_io_context n src = Inl f"
  by (cases src rule: setup_event_fd.cases; auto simp: new_io_context_def)+

lemma ends_nonneg: "opens src \<Longrightarrow> 0 \<le> read_end src" "opens src \<Longrightarrow> 0 \<le> write_end src"
  by (cases src; simp)+

lemma worker_register_apply:
  assumes "i < length (notify_fds (topo nd))"
  shows "worker_register i src nd =
    (new_io_context 4096 src,
     if opens src
     then nd\<lparr>topo := (topo nd)\<lparr>notify_fds := (notify_fds (topo nd))[i := write_end src],
                             registered_count := registered_count (topo nd) + 1\<rparr>\<rparr>
     else nd)"
proof (cases "opens src")
  case False
  then show ?thesis using new_io_context_opens(2) [of src 4096] by (auto simp: worker_register_def)
next
  case True
  then have "on_topo (register_notify_fd i (write_end src)) nd =
      (Inr (), nd\<lparr>topo := (topo nd)\<lparr>notify_fds := (notify_fds (topo nd))[i := write_end src],
                                  registered_count := registered_count (topo nd) + 1\<rparr>\<rparr>)"
    using assms by (intro on_topo_apply) (simp add: register_notify_fd_def)
  with True show ?thesis by (simp add: worker_register_def new_io_context_opens(1))
qed

lemma register_cores_spec:
  assumes "distinct is" "\<forall>i \<in> set is. i < length (notify_fds (topo nd))"
  shows "\<exists>fds. register_cores efd is nd =
      (map (\<lambda>i. new_io_context 4096 (efd i)) is,
       nd\<lparr>topo := (topo nd)\<lparr>notify_fds := fds,
          registered_count := registered_count (topo nd) + length (filter (\<lambda>i. opens (efd i)) is)\<rparr>\<rparr>) \<and>
    length fds = length (notify_fds (topo nd)) \<and>
    (\<forall>i < length fds. fds ! i = (if i \<in> set is \<and> opens (efd i) then write_end (efd i) else notify_fds (topo nd) ! i))"
  using assms
proof (induction "is" arbitrary: nd)
  case Nil
  then show ?case by (auto intro!: exI [of _ "notify_fds (topo nd)"])
next
  case (Cons i js)
  let ?nd = "snd (worker_register i (efd i) nd)"
  have i: "i < length (notify_fds (topo nd))" using Cons.prems(2) by simp
  note reg = worker_register_apply [OF i, of "efd i"]
  have len: "length (notify_fds (topo ?nd)) = length (notify_fds (topo nd))" by (simp add: reg)
  obtain fds where fds: "register_cores efd js ?nd =
      (map (\<lambda>i. new_io_context 4096 (efd i)) js,
       ?nd\<lparr>topo := (topo ?nd)\<lparr>notify_fds := fds,
          registered_count := registered_count (topo ?nd) + length (filter (\<lambda>i. opens (efd i)) js)\<rparr>\<rparr>)"
    "length fds = length (notify_fds (topo ?nd))"
    "\<forall>l < length fds. fds ! l = (if l \<in> set js \<and> opens (efd l) then write_end (efd l) else notify_fds (topo ?nd) ! l)"
    using Cons.IH [of ?nd] Cons.prems len by auto
  show ?case
  proof (intro exI [of _ fds] conjI)
    show "register_cores efd (i # js) nd =
      (map (\<lambda>i. new_io_context 4096 (efd i)) (i # js),
       nd\<lparr>topo := (topo nd)\<lparr>notify_fds := fds,
          registered_count := registered_count (topo nd) + length (filter (\<lambda>i. opens (efd i)) (i # js))\<rparr>\<rparr>)"
      using fds(1) by (simp add: reg split: if_splits)
    show "length fds = length (notify_fds (topo nd))" using fds(2) len by simp
    show "\<forall>l < length fds. fds ! l = (if l \<in> set (i # js) \<and> opens (efd l) then write_end (efd l) else notify_fds (topo nd) ! l)"
      using fds(2,3) i Cons.prems(1) by (auto simp: reg nth_list_update)
  qed
qed

text \<open>A topology in which nothing has happened but the load of the dump.\<close>

definition fresh :: "(string \<Rightarrow> nat) \<Rightarrow> nat \<Rightarrow> topology \<Rightarrow> bool" where
  "fresh hs n t \<longleftrightarrow> topo_inv hs t \<and> (\<exists>ss. t = (new_topology n)\<lparr>shards := ss\<rparr>)"

lemma main_init_fresh:
  assumes "main_init hs getenv hw fs = Inr (n, nd)" "0 < n"
  shows "fresh hs n (topo nd)"
proof -
  obtain cfg where "configure getenv = Inr cfg" using assms(1) by (cases "configure getenv") (simp_all add: main_init_def)
  with assms(1) obtain r where r: "rdb_load hs (fs (rdb_filename cfg)) (new_topology n) = (r, topo nd)"
    by (auto simp: main_init_def Let_def split: sum.splits prod.splits)
  have "topo_inv hs (topo nd) \<and> only_shards (new_topology n) (topo nd)"
  proof (cases "\<exists>ifs. load_loop hs ifs (new_topology n) = (r, topo nd)")
    case True
    then show ?thesis using load_loop_inv topo_inv_new [OF assms(2)] by blast
  next
    case False
    then have "topo nd = new_topology n"
      using r by (auto simp: rdb_load_def split: option.splits prod.splits sum.splits if_splits)
    then show ?thesis using topo_inv_new [OF assms(2)] only_shards_refl by simp
  qed
  then show ?thesis by (simp add: fresh_def only_shards_def)
qed

lemma fresh_fields:
  assumes "fresh hs n t"
  shows "num_cores t = n" "length (notify_fds t) = n" "channel_of t i = [] \<or> n \<le> i" "fd_writes t = []"
    "registered_count t = 0" "topo_inv hs t" "i < n \<Longrightarrow> notify_fds t ! i = - 1"
  using assms by (auto simp: fresh_def new_topology_def channel_of_def new_channel_def)

text \<open>\<open>worker_main\<close> after the barrier, when the server can listen: both operations are submitted and the callbacks set.\<close>

lemma worker_serve_apply:
  assumes "opens src" "setup_listener sys = Inr fd"
  obtains r where "worker_serve sys (new_worker (projr (new_io_context 4096 src))) =
      (Inr (), (new_worker \<lparr>ring = r, event_fd = read_end src, notify_fd = write_end src, notification_handler_set = True\<rparr>)
         \<lparr>server := \<lparr>server_fd = fd, on_connect = True, server_on_disconnect = True\<rparr>\<rparr>)"
    "image_mset user_data (in_flight r) = {# Some Accept_op, Some Notification_op #}" "cqes r = []" "sqes r \<noteq> []"
proof -
  let ?s = "\<lparr>server_fd = fd, on_connect = True, server_on_disconnect = True\<rparr>"
  let ?w = "\<lambda>r h. (new_worker \<lparr>ring = r, event_fd = read_end src, notify_fd = write_end src, notification_handler_set = h\<rparr>)
    \<lparr>server := ?s\<rparr>"
  obtain e r where r: "submit_accept (?w (uring_queue_init 4096) False) = (Inr (), ?w r False)"
    "in_flight r = in_flight (uring_queue_init 4096) + {# sqe_set_data Accept_op (prep_accept fd e) #}"
    "cqes r = []" "sqes r \<noteq> []"
    by (rule on_ctx_submit [of "?w (uring_queue_init 4096) False" "prep_accept fd" Accept_op])
      (auto simp: submit_accept_def new_worker_def uring_queue_init_def)
  obtain e' r' where r': "on_ctx submit_notification_read (?w r True) = (Inr (), ?w r' True)"
    "in_flight r' = in_flight r + {# sqe_set_data Notification_op (prep_read (read_end src) Read_into 8 e') #}"
    "cqes r' = cqes r" "sqes r' \<noteq> []"
    by (rule on_ctx_submit [of "?w r True" "prep_read (read_end src) Read_into 8" Notification_op])
      (use r(4) ends_nonneg(1) [OF assms(1)] in \<open>auto simp: submit_notification_read_def on_ctx_def zoom_def new_worker_def\<close>)
  have "on_ctx set_notification_handler (?w r False) = (Inr (), ?w r True)"
    by (simp add: on_ctx_def zoom_def set_notification_handler_def new_worker_def)
  then have "worker_serve sys (new_worker (projr (new_io_context 4096 src))) = (Inr (), ?w r' True)"
    using r(1) r'(1) assms
    by (simp add: worker_serve_def new_tcp_server_def bindS_def new_io_context_opens(1) new_worker_def server_start_def
        server_set_on_connect_def server_set_on_disconnect_def)
  moreover have "in_flight (uring_queue_init 4096) = {#}" by (simp add: in_flight_def uring_queue_init_def empty_sqe_def)
  ultimately show ?thesis using r r' by (intro that [of r']) simp_all
qed

lemma worker_serve_inv:
  assumes "opens src" "worker_serve sys (new_worker (projr (new_io_context 4096 src))) = (Inr (), w)"
  shows "worker_inv w {#}"
proof -
  obtain fd where fd: "setup_listener sys = Inr fd"
    using assms(2) by (cases "setup_listener sys") (simp_all add: worker_serve_def new_tcp_server_def)
  show ?thesis
    by (rule worker_serve_apply [OF assms(1) fd])
      (use assms ends_nonneg(1) in \<open>auto simp: worker_inv_def pending_ops_def new_worker_def\<close>)
qed

lemma start_registered:
  assumes "fresh hs n (topo nd)"
  shows "all_cores_registered (topo (snd (register_cores efd [0 ..< n] nd))) \<longleftrightarrow> (\<forall>i < n. opens (efd i))"
proof -
  note f = fresh_fields [OF assms]
  obtain fds where "register_cores efd [0 ..< n] nd = (map (\<lambda>i. new_io_context 4096 (efd i)) [0 ..< n],
       nd\<lparr>topo := (topo nd)\<lparr>notify_fds := fds,
          registered_count := registered_count (topo nd) + length (filter (\<lambda>i. opens (efd i)) [0 ..< n])\<rparr>\<rparr>)"
    using register_cores_spec [of "[0 ..< n]" nd efd] f(2) by auto
  then have "all_cores_registered (topo (snd (register_cores efd [0 ..< n] nd))) \<longleftrightarrow>
      n \<le> length (filter (\<lambda>i. opens (efd i)) [0 ..< n])"
    using f(1,5) by (simp add: all_cores_registered_def not_less)
  also have "\<dots> \<longleftrightarrow> (\<forall>i < n. opens (efd i))"
  proof
    assume "n \<le> length (filter (\<lambda>i. opens (efd i)) [0 ..< n])"
    then have "length (filter (\<lambda>i. opens (efd i)) [0 ..< n]) = length [0 ..< n]"
      using length_filter_le [of "\<lambda>i. opens (efd i)" "[0 ..< n]"] by simp
    then show "\<forall>i < n. opens (efd i)" using length_filter_less [of _ "[0 ..< n]" "\<lambda>i. opens (efd i)"] by force
  qed (simp add: filter_id_conv)
  finally show ?thesis .
qed

lemma start_inv:
  assumes fresh: "fresh hs n (topo nd)" and start: "start_threads efd sys n nd = Some C"
  shows "cluster_inv hs C \<and> num_cores (topo (mnode (mach C))) = n"
proof -
  note f = fresh_fields [OF fresh]
  obtain fds where reg: "register_cores efd [0 ..< n] nd = (map (\<lambda>i. new_io_context 4096 (efd i)) [0 ..< n],
       nd\<lparr>topo := (topo nd)\<lparr>notify_fds := fds,
          registered_count := registered_count (topo nd) + length (filter (\<lambda>i. opens (efd i)) [0 ..< n])\<rparr>\<rparr>)"
    and fds: "length fds = n" "\<forall>i < n. fds ! i = (if opens (efd i) then write_end (efd i) else notify_fds (topo nd) ! i)"
    using register_cores_spec [of "[0 ..< n]" nd efd] f(2) by auto
  have ok: "\<forall>i < n. opens (efd i)"
    using start start_registered [OF fresh, of efd] by (auto simp: start_threads_def split: prod.splits if_splits)
  let ?t = "topo (mnode (mach C))"
  let ?run = "\<lambda>i. worker_serve (sys i) (new_worker (projr (new_io_context 4096 (efd i))))"
  have C: "?t = (topo nd)\<lparr>notify_fds := fds, registered_count :=
        registered_count (topo nd) + length (filter (\<lambda>i. opens (efd i)) [0 ..< n])\<rparr>"
    "length (workers (mach C)) = n" "i < n \<Longrightarrow> todo C i \<noteq> None \<Longrightarrow> workers (mach C) ! i = snd (?run i)"
    "todo C i = (if i < n \<and> fst (?run i) = Inr () then Some [] else None)" "seen C i = 0" for i
    using start reg by (auto simp: start_threads_def Let_def split_beta split: if_splits)
  have ch: "channel_of ?t i = channel_of (topo nd) i" for i by (simp add: C(1) channel_of_def)
  have "core_inv C i" if i: "i < n" for i
  proof -
    have "worker_inv (workers (mach C) ! i) {#}" if live: "todo C i = Some cs" for cs
    proof -
      obtain w where w: "?run i = (Inr (), w)" using live C(4) [of i] by (cases "?run i") (auto split: if_splits)
      then show ?thesis using worker_serve_inv [OF _ w] ok i C(3) [OF i] live by simp
    qed
    then show ?thesis using C(4) [of i] ch [of i] f(3) [of i] i by (auto simp: core_inv_def split: if_splits)
  qed
  moreover have "topo_inv hs ?t" using f(2,6) fds(1) f(1) by (auto simp: C(1) topo_inv_def get_target_core_def)
  moreover have "all_registered ?t" using fds(2) ok f(1) by (simp add: all_registered_def C(1) ends_nonneg(2))
  moreover have "\<forall>i < n. channel_of ?t i = []" using ch f(3) by fastforce
  ultimately show ?thesis using C(1,2,5) f(1) by (simp add: cluster_inv_def)
qed

lemma start_db:
  assumes "fresh hs n (topo nd)" "start_threads efd sys n nd = Some C"
  shows "topo_db (topo (mnode (mach C))) = topo_db (topo nd)"
proof -
  obtain fds count where "snd (register_cores efd [0 ..< n] nd) =
      nd\<lparr>topo := (topo nd)\<lparr>notify_fds := fds, registered_count := count\<rparr>\<rparr>"
    using register_cores_spec [of "[0 ..< n]" nd efd] fresh_fields(2) [OF assms(1)] by auto
  then have "topo (mnode (mach C)) = (topo nd)\<lparr>notify_fds := fds, registered_count := count\<rparr>"
    using assms(2) by (auto simp: start_threads_def Let_def split: prod.splits if_splits)
  then show ?thesis by (simp add: topo_db_def get_target_core_def)
qed

lemma worker_serve_ok:
  assumes "\<And>call. 0 \<le> sys call" "opens src"
  shows "\<exists>w. worker_serve sys (new_worker (projr (new_io_context 4096 src))) = (Inr (), w)"
proof -
  have "setup_listener sys = Inr (sys ''socket'')" using assms(1) by (simp add: setup_listener_def not_less)
  from worker_serve_apply [OF assms(2) this] show ?thesis by blast
qed

lemma start_threads_some:
  assumes "fresh hs n (topo nd)" "\<forall>i < n. opens (efd i)"
  shows "\<exists>C. start_threads efd sys n nd = Some C \<and> length (workers (mach C)) = n \<and>
    (\<forall>i < n. (\<forall>call. 0 \<le> sys i call) \<longrightarrow> todo C i = Some [])"
proof -
  obtain fds where reg: "register_cores efd [0 ..< n] nd = (map (\<lambda>i. new_io_context 4096 (efd i)) [0 ..< n],
       nd\<lparr>topo := (topo nd)\<lparr>notify_fds := fds,
          registered_count := registered_count (topo nd) + length (filter (\<lambda>i. opens (efd i)) [0 ..< n])\<rparr>\<rparr>)"
    using register_cores_spec [of "[0 ..< n]" nd efd] fresh_fields(2) [OF assms(1)] by auto
  have "all_cores_registered (topo (snd (register_cores efd [0 ..< n] nd)))"
    using start_registered [OF assms(1)] assms(2) by blast
  moreover have "fst (worker_serve (sys i) (new_worker (projr (new_io_context 4096 (efd i))))) = Inr ()"
    if "i < n" "\<forall>call. 0 \<le> sys i call" for i
    using worker_serve_ok [of "sys i" "efd i"] that assms(2) by force
  ultimately show ?thesis by (simp add: start_threads_def reg Let_def)
qed

text \<open>The worker of core \<open>i\<close> after the start: serving, or ended because it could not listen.\<close>

lemma start_worker:
  assumes fresh: "fresh hs n (topo nd)" and start: "start_threads efd sys n nd = Some C" and i: "i < n"
  obtains (serving) fd r where "setup_listener (sys i) = Inr fd" "todo C i = Some []"
      "workers (mach C) ! i = (new_worker \<lparr>ring = r, event_fd = read_end (efd i), notify_fd = write_end (efd i),
         notification_handler_set = True\<rparr>)\<lparr>server := \<lparr>server_fd = fd, on_connect = True, server_on_disconnect = True\<rparr>\<rparr>"
      "image_mset user_data (in_flight r) = {# Some Accept_op, Some Notification_op #}" "cqes r = []" "sqes r \<noteq> []"
  | (ended) c where "todo C i = None" "workers (mach C) ! i = worker_unwind (new_worker c)"
proof -
  let ?run = "worker_serve (sys i) (new_worker (projr (new_io_context 4096 (efd i))))"
  obtain fds count where reg: "register_cores efd [0 ..< n] nd =
      (map (\<lambda>i. new_io_context 4096 (efd i)) [0 ..< n], nd\<lparr>topo := (topo nd)\<lparr>notify_fds := fds, registered_count := count\<rparr>\<rparr>)"
    using register_cores_spec [of "[0 ..< n]" nd efd] fresh_fields(2) [OF fresh] by auto
  have ok: "opens (efd i)"
    using start i start_registered [OF fresh, of efd] by (auto simp: start_threads_def split: prod.splits if_splits)
  have C: "workers (mach C) ! i = (if fst ?run = Inr () then snd ?run else worker_unwind (snd ?run))"
    "todo C i = (if fst ?run = Inr () then Some [] else None)"
    using start reg i by (auto simp: start_threads_def Let_def split_beta split: if_splits)
  show ?thesis
  proof (cases "setup_listener (sys i)")
    case (Inl f)
    then show ?thesis using C by (intro ended) (simp_all add: worker_serve_def new_tcp_server_def)
  next
    case (Inr fd)
    show ?thesis by (rule worker_serve_apply [OF ok Inr], rule serving [OF Inr]) (use C in simp_all)
  qed
qed

text \<open>
  The descriptors of a running core: the \<open>eventfd\<close> of Linux is both ends of its wake-up channel and
  registered with the topology, which is what the theorem on the end of a thread starts from.
\<close>

lemma start_fds:
  assumes fresh: "fresh hs n (topo nd)" and start: "start_threads efd sys n nd = Some C"
    and i: "i < n" "todo C i \<noteq> None" "efd i = Eventfd fd"
  shows "event_fd (ctx (workers (mach C) ! i)) = fd \<and> notify_fd (ctx (workers (mach C) ! i)) = fd \<and>
    notify_fds (topo (mnode (mach C))) ! i = fd \<and> 0 \<le> server_fd (server (workers (mach C) ! i))"
proof -
  obtain fds count where reg: "register_cores efd [0 ..< n] nd =
      (map (\<lambda>i. new_io_context 4096 (efd i)) [0 ..< n], nd\<lparr>topo := (topo nd)\<lparr>notify_fds := fds, registered_count := count\<rparr>\<rparr>)"
    and fds: "length fds = n" "\<forall>i < n. opens (efd i) \<longrightarrow> fds ! i = write_end (efd i)"
    using register_cores_spec [of "[0 ..< n]" nd efd] fresh_fields(2) [OF fresh] by auto
  have "opens (efd i)"
    using start i(1) start_registered [OF fresh, of efd] by (auto simp: start_threads_def split: prod.splits if_splits)
  moreover have "topo (mnode (mach C)) = (topo nd)\<lparr>notify_fds := fds, registered_count := count\<rparr>"
    using start reg by (auto simp: start_threads_def Let_def split: if_splits)
  ultimately have reg_fd: "notify_fds (topo (mnode (mach C))) ! i = fd" using fds i(1,3) by simp
  show ?thesis
  proof (cases rule: start_worker [OF fresh start i(1)])
    case (1 sfd r)
    then have "0 \<le> sfd" by (auto simp: setup_listener_def split: if_splits)
    with 1 reg_fd i(3) show ?thesis by (simp add: new_worker_def)
  qed (use i(2) in simp)
qed

section \<open>Properties of the running server\<close>

text \<open>
  C2: Every state the server can reach is sound. From the start of the program on any environment
  and any dump file, through any sequence of steps of the cores in any order, the shards keep their
  representation invariant and hold only keys of their own core, the messages in the channels name
  existing cores, every core is registered, and on every running core each connection object has
  exactly one outstanding read and at most one outstanding write, which is that of the front of its
  queue, with exactly one accept and one notification read outstanding.
\<close>

theorem server_invariant:
  assumes "main_init hs getenv hw fs = Inr (n, nd)" "0 < n"
    and "start_threads efd sys n nd = Some C\<^sub>0" "(cluster_step hs wr clk)\<^sup>*\<^sup>* C\<^sub>0 C"
  shows "cluster_inv hs C"
  using start_inv [OF main_init_fresh [OF assms(1,2)] assms(3)] cluster_steps_inv [OF assms(4)] by blast

abbreviation two_cores :: node where
  "two_cores \<equiv> \<lparr>topo = new_topology 2, files = Map.empty\<rparr>"

lemma two_cores_init: "main_init hs (\<lambda>_. None) 2 Map.empty = Inr (2, two_cores)"
  by (simp add: main_init_def configure_def thread_count_def default_config_def rdb_load_def)

lemma two_cores_start:
  "\<exists>C. start_threads (\<lambda>i. Eventfd (7 + int i)) (\<lambda>_ _. 0) 2 two_cores = Some C \<and> length (workers (mach C)) = 2 \<and> todo C 0 = Some []"
proof -
  have "fresh hs 2 (topo two_cores)" for hs using main_init_fresh [OF two_cores_init, of hs] by simp
  then show ?thesis using start_threads_some [of _ 2 two_cores "\<lambda>i. Eventfd (7 + int i)" "\<lambda>_ _. 0"] by auto
qed

theorem server_invariant_witness:
  "\<exists>C\<^sub>0 C. start_threads (\<lambda>i. Eventfd (7 + int i)) (\<lambda>_ _. 0) 2 two_cores = Some C\<^sub>0 \<and>
     cluster_step (\<lambda>_. 0) (\<lambda>_. True) (\<lambda>_ _. 0) C\<^sub>0 C \<and> cluster_inv (\<lambda>_. 0) C"
proof -
  obtain C\<^sub>0 where C0: "start_threads (\<lambda>i. Eventfd (7 + int i)) (\<lambda>_ _. 0) 2 two_cores = Some C\<^sub>0" "length (workers (mach C\<^sub>0)) = 2"
    "todo C\<^sub>0 0 = Some []" using two_cores_start by blast
  have "cluster_inv (\<lambda>_. 0) C\<^sub>0"
    by (rule server_invariant [OF two_cores_init _ C0(1), where wr = "\<lambda>_. True" and clk = "\<lambda>_ _. 0"]) auto
  then obtain C where step: "cluster_step (\<lambda>_. 0) (\<lambda>_. True) (\<lambda>_ _. 0) C\<^sub>0 C"
    using wait_step [of "\<lambda>_. 0" C\<^sub>0 0] C0 by auto
  have "cluster_inv (\<lambda>_. 0) C"
    by (rule server_invariant [OF two_cores_init _ C0(1)]) (use step in auto)
  with C0(1) step show ?thesis by blast
qed

text \<open>
  C31: The start is all or nothing. \<open>worker_main\<close> registers each core before it waits for the others:
  when every core gets its wake-up descriptors all threads pass the barrier, and each one whose system calls succeed
  enters its event loop; when a single one fails, its thread ends, and no thread ever passes.
\<close>

theorem startup_barrier:
  assumes "main_init hs getenv hw fs = Inr (n, nd)" "0 < n"
  shows "if \<forall>i < n. opens (efd i)
    then \<exists>C. start_threads efd sys n nd = Some C \<and>
      (\<forall>i < n. (\<forall>call. 0 \<le> sys i call) \<longrightarrow> todo C i = Some [])
    else start_threads efd sys n nd = None"
proof (cases "\<forall>i < n. opens (efd i)")
  case True
  then show ?thesis using start_threads_some [OF main_init_fresh [OF assms] True, of sys] by auto
next
  case False
  then show ?thesis using start_registered [OF main_init_fresh [OF assms], of efd]
    by (auto simp: start_threads_def split: prod.splits)
qed

theorem startup_barrier_witness:
  "start_threads (\<lambda>i. if i = 1 then Pipe None else Pipe (Some (7, 8))) (\<lambda>_ _. 0) 2 two_cores = None \<and>
   (\<exists>C. start_threads (\<lambda>i. Eventfd (7 + int i)) (\<lambda>_ _. 0) 2 two_cores = Some C \<and> todo C 1 = Some [])"
  using startup_barrier [OF two_cores_init, of "\<lambda>i. if i = 1 then Pipe None else Pipe (Some (7, 8))" "\<lambda>_ _. 0"]
    startup_barrier [OF two_cores_init, of "\<lambda>i. Eventfd (7 + int i)" "\<lambda>_ _. 0"]
  by (auto simp: less_2_cases_iff)

text \<open>
  C13: Nothing is shared between the cores: in every reachable state a key is stored in the shard of at
  most one core, the one the router names, so that the database is the union of the shards.
\<close>

theorem shared_nothing:
  assumes "main_init hs getenv hw fs = Inr (n, nd)" "0 < n"
    and "start_threads efd sys n nd = Some C\<^sub>0" "(cluster_step hs wr clk)\<^sup>*\<^sup>* C\<^sub>0 C"
    and "t = topo (mnode (mach C))" "l < num_cores t"
  shows "shard_abs (shards t ! l) k = (if get_target_core t k = l then topo_db t k else None)"
proof -
  have "cluster_inv hs C" using start_inv [OF main_init_fresh [OF assms(1,2)] assms(3)] cluster_steps_inv [OF assms(4)] by blast
  then have "shard_abs (shards t ! l) k \<noteq> None \<longrightarrow> get_target_core t k = l"
    using assms(5,6) unfolding cluster_inv_def topo_inv_def by blast
  then show ?thesis by (auto simp: topo_db_def)
qed

theorem shared_nothing_witness:
  "\<exists>C. start_threads (\<lambda>i. Eventfd (7 + int i)) (\<lambda>_ _. 0) 2 two_cores = Some C \<and>
     (let t = topo (mnode (mach C))
      in shard_abs (shards t ! 1) ''k'' = (if get_target_core t ''k'' = 1 then topo_db t ''k'' else None))"
proof -
  obtain C where C: "start_threads (\<lambda>i. Eventfd (7 + int i)) (\<lambda>_ _. 0) 2 two_cores = Some C" "length (workers (mach C)) = 2"
    using two_cores_start by blast
  have "fresh (\<lambda>_. 0) 2 (topo two_cores)" using main_init_fresh [OF two_cores_init] by simp
  then have "num_cores (topo (mnode (mach C))) = 2" using start_inv C(1) by blast
  then have "let t = topo (mnode (mach C))
      in shard_abs (shards t ! 1) ''k'' = (if get_target_core t ''k'' = 1 then topo_db t ''k'' else None)"
    unfolding Let_def
    by (intro shared_nothing [OF two_cores_init _ C(1), where hs = "\<lambda>_. 0" and wr = "\<lambda>_. True" and clk = "\<lambda>_ _. 0"]) auto
  with C(1) show ?thesis by blast
qed

end
