(* ===== verification/Reply_Routing.thy ===== *)
theory Reply_Routing
  imports Server
begin

text \<open>
  The way of a reply to its client. A connection has a number, its \<open>id_\<close> in \<open>src/network/connection.cpp\<close>, drawn
  from the counter \<open>next_conn_id\<close>, which all cores share; a forwarded request and its response carry it
  (\<open>src/main.cpp\<close>, \<open>src/core/message.hpp\<close>). The invariant of this theory says which core a number belongs to, for
  live and for closed connections and for the messages in the channels.
\<close>

section \<open>Operations that open no connection\<close>

text \<open>Connections may be closed, and none is opened or changes its number.\<close>

definition keeps_ids :: "worker \<Rightarrow> worker \<Rightarrow> bool" where
  "keeps_ids w w' \<longleftrightarrow> next_addr w' = next_addr w \<and>
     (\<forall>a c'. objects w' a = Some c' \<longrightarrow> (\<exists>c. objects w a = Some c \<and> cid c' = cid c))"

lemma keeps_ids_refl [simp]: "keeps_ids w w"
  by (simp add: keeps_ids_def)

lemma keeps_ids_trans: "keeps_ids u v \<Longrightarrow> keeps_ids v w \<Longrightarrow> keeps_ids u w"
  unfolding keeps_ids_def by metis

definition fixes_ids :: "(worker, 'a) st \<Rightarrow> bool" where
  "fixes_ids m \<longleftrightarrow> (\<forall>w r w'. m w = (r, w') \<longrightarrow> keeps_ids w w')"

lemma fixes_idsD: "fixes_ids m \<Longrightarrow> m w = (r, w') \<Longrightarrow> keeps_ids w w'"
  by (simp add: fixes_ids_def)

lemma ids_ret [simp]: "fixes_ids (ret x)"
  by (simp add: fixes_ids_def)

lemma ids_bind: "fixes_ids m \<Longrightarrow> (\<And>x. fixes_ids (f x)) \<Longrightarrow> fixes_ids (bindS m f)"
  unfolding fixes_ids_def by (meson bindS_cases keeps_ids_trans)

lemma ids_on_ctx [simp]: "fixes_ids (on_ctx m)"
  by (auto simp: fixes_ids_def on_ctx_def zoom_def keeps_ids_def split: prod.splits)

lemma ids_accept [simp]: "fixes_ids submit_accept"
  using ids_on_ctx unfolding fixes_ids_def submit_accept_def by blast

text \<open>Member functions, which store their object back under the same number.\<close>

lemma ids_with_object:
  assumes "\<And>c w r w'. objects w a = Some c \<Longrightarrow> f c w = (r, w') \<Longrightarrow> keeps_ids w w'"
  shows "fixes_ids (with_object a f)"
  using assms by (auto simp: fixes_ids_def with_object_def throw_def split: option.splits)

lemma keeps_ids_store: "objects w a = Some c \<Longrightarrow> cid c' = cid c \<Longrightarrow> keeps_ids w (w\<lparr>objects := (objects w)(a \<mapsto> c')\<rparr>)"
  by (simp add: keeps_ids_def)

lemma ids_stored:
  assumes "objects w a = Some c" "cid c' = cid c"
  shows "put_object a c' w = (r, w') \<Longrightarrow> keeps_ids w w'"
    and "bindS (put_object a c') (\<lambda>_. write_front b d) w = (r, w') \<Longrightarrow> keeps_ids w w'"
proof -
  note store = keeps_ids_store [OF assms]
  show "put_object a c' w = (r, w') \<Longrightarrow> keeps_ids w w'" using store by (auto simp: put_object_def)
  show "bindS (put_object a c') (\<lambda>_. write_front b d) w = (r, w') \<Longrightarrow> keeps_ids w w'"
    using keeps_ids_trans [OF store] fixes_idsD [OF ids_on_ctx] by (fastforce simp: put_object_def write_front_def)
qed

lemma ids_submit_read [simp]: "fixes_ids (submit_read a)"
  unfolding submit_read_def by (rule ids_with_object) (rule fixes_idsD [OF ids_on_ctx])

lemma ids_start [simp]: "fixes_ids (connection_start a)"
  by (simp add: connection_start_def)

lemma ids_submit_write [simp]: "fixes_ids (submit_write a d)"
  unfolding submit_write_def Let_def
  by (rule ids_with_object) (auto split: if_splits intro: ids_stored [rotated 2])

lemma ids_drop [simp]: "fixes_ids (drop_connection a)"
  unfolding drop_connection_def by (rule ids_with_object) (auto simp: keeps_ids_def split: if_splits)

lemma ids_handle_write [simp]: "fixes_ids (handle_write a n)"
proof (cases "n < 0")
  case False
  have "fixes_ids (with_object a (\<lambda>c.
      let c1 = (if write_queue c \<noteq> [] then c\<lparr>write_queue := tl (write_queue c)\<rparr> else c)
      in if write_queue c1 \<noteq> [] then bindS (put_object a c1) (\<lambda>_. write_front a c1)
         else put_object a (c1\<lparr>is_writing := False\<rparr>)))"
    unfolding Let_def by (rule ids_with_object) (auto split: if_splits intro: ids_stored [rotated 2])
  with False show ?thesis by (simp add: handle_write_def)
qed (simp add: handle_write_def)

lemma ids_deliver [simp]: "fixes_ids (deliver_response msg)"
  using ids_submit_write ids_ret [of "()"] unfolding fixes_ids_def deliver_response_def by (auto split: option.splits)

section \<open>Handlers\<close>

text \<open>
  \<open>asked i x\<close> says that core \<open>i\<close> gave the number \<open>x\<close> to a connection. A request in the channel of core \<open>l\<close> carries a
  number of its origin, and \<open>l\<close> owns its key; a response in the channel of \<open>l\<close> carries a number of \<open>l\<close>.
\<close>

definition sent_ok :: "(nat \<Rightarrow> 32 word \<Rightarrow> bool) \<Rightarrow> topology \<Rightarrow> nat \<Rightarrow> message \<Rightarrow> bool" where
  "sent_ok asked t l m =
     (case mtype m of
        REQUEST \<Rightarrow> asked (origin_core_id m) (conn_id m) \<and> get_target_core t (margs m ! 1) = l
      | RESPONSE \<Rightarrow> asked l (conn_id m))"

lemma sent_ok_cong: "get_target_core t' = get_target_core t \<Longrightarrow> sent_ok asked t' l m = sent_ok asked t l m"
  by (cases "mtype m") (simp_all add: sent_ok_def)

text \<open>Core \<open>i\<close> opens no connection, touches no other worker, and sends only such messages.\<close>

definition routes ::
    "(string \<Rightarrow> nat) \<Rightarrow> (nat \<Rightarrow> 32 word \<Rightarrow> bool) \<Rightarrow> nat \<Rightarrow> machine \<Rightarrow> machine \<Rightarrow> bool"
where
  "routes hs asked i M M' \<longleftrightarrow>
     topo_inv hs (topo (mnode M')) \<and> num_cores (topo (mnode M')) = num_cores (topo (mnode M)) \<and>
     get_target_core (topo (mnode M')) = get_target_core (topo (mnode M)) \<and>
     next_conn_id M' = next_conn_id M \<and> length (workers M') = length (workers M) \<and>
     (\<forall>l. l \<noteq> i \<longrightarrow> workers M' ! l = workers M ! l) \<and> keeps_ids (workers M ! i) (workers M' ! i) \<and>
     (\<forall>l. \<exists>ms. channel_of (topo (mnode M')) l = channel_of (topo (mnode M)) l @ ms \<and>
        (\<forall>m \<in> set ms. sent_ok asked (topo (mnode M)) l m))"

lemma target_stable:
  "topo_inv hs t \<Longrightarrow> topo_inv hs t' \<Longrightarrow> num_cores t' = num_cores t \<Longrightarrow> get_target_core t' = get_target_core t"
  by (simp add: fun_eq_iff get_target_core_def topo_inv_def)

lemma routes_refl: "topo_inv hs (topo (mnode M)) \<Longrightarrow> routes hs asked i M M"
  by (simp add: routes_def)

lemma routes_trans:
  assumes "routes hs asked i M N" "routes hs asked i N K"
  shows "routes hs asked i M K"
proof -
  have "\<exists>ms. channel_of (topo (mnode K)) l = channel_of (topo (mnode M)) l @ ms \<and>
      (\<forall>m \<in> set ms. sent_ok asked (topo (mnode M)) l m)" for l
  proof -
    obtain ms where "channel_of (topo (mnode N)) l = channel_of (topo (mnode M)) l @ ms"
      "\<forall>m \<in> set ms. sent_ok asked (topo (mnode M)) l m" using assms(1) unfolding routes_def by blast
    moreover obtain ms' where "channel_of (topo (mnode K)) l = channel_of (topo (mnode N)) l @ ms'"
      "\<forall>m \<in> set ms'. sent_ok asked (topo (mnode N)) l m" using assms(2) unfolding routes_def by blast
    moreover have "sent_ok asked (topo (mnode N)) l m = sent_ok asked (topo (mnode M)) l m" for m
      using assms(1) by (intro sent_ok_cong) (simp add: routes_def)
    ultimately show ?thesis by (intro exI [of _ "ms @ ms'"]) auto
  qed
  then show ?thesis using assms by (auto simp: routes_def intro: keeps_ids_trans)
qed

lemma routes_on_worker:
  assumes "fixes_ids m" "topo_inv hs (topo (mnode M))" "on_worker i m M = (r, M')"
  shows "routes hs asked i M M'"
proof -
  obtain w' where w': "m (workers M ! i) = (r, w')" "M' = M\<lparr>workers := (workers M)[i := w']\<rparr>"
    using assms(3) by (auto simp: on_worker_def zoom_def split: prod.splits)
  have "keeps_ids (workers M ! i) (workers M' ! i)"
    using fixes_idsD [OF assms(1) w'(1)] w'(2) by (cases "i < length (workers M)") (simp_all add: list_update_beyond)
  then show ?thesis using assms(2) w'(2) by (simp add: routes_def)
qed

text \<open>A command of a client of core \<open>i\<close>.\<close>

lemma execute_routes:
  assumes inv: "topo_inv hs (topo (mnode M))" and args: "args \<noteq> []"
    and own: "asked i conn \<or> get_target_core (topo (mnode M)) (args ! 1) = i"
    and run: "execute hs wr clk c i conn args (mnode M) = (r, nd')"
  shows "routes hs asked i M (M\<lparr>mnode := nd'\<rparr>)"
proof (cases rule: execute_effect [OF inv args, of wr clk c i conn])
  case (1 r' nd'')
  with run have "nd'' = nd'" by simp
  with 1 show ?thesis using target_stable [OF inv] by (simp add: routes_def)
next
  case (2 nd'' j)
  with run have eq: "nd'' = nd'" by simp
  have "sent_ok asked (topo (mnode M)) j (request_message i conn args)" using 2(5,6) own by (auto simp: sent_ok_def)
  then have "\<exists>ms. channel_of (topo nd') l = channel_of (topo (mnode M)) l @ ms \<and>
      (\<forall>m \<in> set ms. sent_ok asked (topo (mnode M)) l m)" for l
    using 2(7) eq by (cases "l = j") simp_all
  with 2(2,3) eq show ?thesis using target_stable [OF inv] by (simp add: routes_def)
qed

lemma execute_command_routes:
  assumes "topo_inv hs (topo (mnode M))" "asked i conn"
    and run: "execute_command hs wr clk i conn as (mnode M) = (r, nd')"
  shows "routes hs asked i M (M\<lparr>mnode := nd'\<rparr>)"
proof (cases "as \<noteq> [] \<and> (\<exists>cmd. main_registry (to_upper (hd as)) = Some cmd)")
  case True
  then obtain cmd where "as \<noteq> []" "main_registry (to_upper (hd as)) = Some cmd" by auto
  then show ?thesis
    using execute_routes [OF assms(1), of as asked i conn wr clk cmd r nd'] run assms(2)
    by (simp add: execute_command_def get_registered_def)
next
  case False
  then have "nd' = mnode M"
    using run by (auto simp: execute_command_def get_registered_def Let_def split: if_splits option.splits)
  with assms(1) show ?thesis by (simp add: routes_refl)
qed

text \<open>What the clients of core \<open>i\<close> need: their numbers are numbers of \<open>i\<close>.\<close>

definition clients_ok :: "(nat \<Rightarrow> 32 word \<Rightarrow> bool) \<Rightarrow> nat \<Rightarrow> machine \<Rightarrow> bool" where
  "clients_ok asked i M \<longleftrightarrow> (\<forall>a c. objects (workers M ! i) a = Some c \<longrightarrow> asked i (cid c))"

lemma clients_ok_routes: "routes hs asked i M M' \<Longrightarrow> clients_ok asked i M \<Longrightarrow> clients_ok asked i M'"
  unfolding routes_def clients_ok_def keeps_ids_def by metis

lemma receive_routes:
  assumes inv: "topo_inv hs (topo (mnode M))" and cl: "clients_ok asked i M"
    and run: "receive_data hs wr clk i a buf M = (r, M')"
  shows "routes hs asked i M M'"
proof (cases "objects (workers M ! i) a")
  case None
  then show ?thesis using run inv by (simp add: receive_data_def routes_refl)
next
  case (Some c)
  obtain q n p where p: "consume (parser c) buf 0 = (q, n, p)" using prod_cases3 by blast
  obtain r' c' nd' where h: "handle_data hs wr clk i buf (c, mnode M) = (r', c', nd')" using prod_cases3 by blast
  have "asked i (cid c)" using cl Some by (simp add: clients_ok_def)
  then have nd': "routes hs asked i M (M\<lparr>mnode := nd'\<rparr>)" and c': "cid c' = cid c"
    using h p execute_command_routes [OF inv, of asked i "cid c" wr clk "pargs p"] inv
    by (auto simp: handle_data_def routes_refl split: sum.splits parse_result.splits prod.splits)
  let ?w = "(workers M ! i)\<lparr>objects := (objects (workers M ! i))(a \<mapsto> c')\<rparr>"
  have M': "M' = M\<lparr>mnode := nd', workers := (workers M)[i := ?w]\<rparr>" using run Some h by (simp add: receive_data_def)
  have "keeps_ids (workers M ! i) ?w" by (rule keeps_ids_store [OF Some c'])
  then have "keeps_ids (workers M ! i) (workers M' ! i)" using M' by (cases "i < length (workers M)") (simp_all add: list_update_beyond)
  then show ?thesis using nd' M' by (simp add: routes_def)
qed

lemma read_routes:
  assumes inv: "topo_inv hs (topo (mnode M))" and cl: "clients_ok asked i M"
    and run: "handle_read hs wr clk i a n buf M = (r, M')"
  shows "routes hs asked i M M'"
proof (cases "n \<le> 0")
  case True
  then show ?thesis using run routes_on_worker [OF ids_drop inv] by (simp add: handle_read_def)
next
  case False
  let ?rest = "\<lambda>resp. bindS (if resp \<noteq> [] then on_worker i (submit_write a resp) else ret ()) (\<lambda>_. on_worker i (submit_read a))"
  have rest: "routes hs asked i N K" if "?rest resp N = (q, K)" "topo_inv hs (topo (mnode N))" for resp N q K
    using that(1)
  proof (cases rule: bindS_cases)
    case (fault e)
    then show ?thesis using routes_on_worker [OF ids_submit_write that(2)] by (auto split: if_splits)
  next
    case (val u L)
    have L: "routes hs asked i N L"
      using val(1) routes_on_worker [OF ids_submit_write that(2)] that(2) by (auto simp: routes_refl split: if_splits)
    moreover have "topo_inv hs (topo (mnode L))" using L by (simp add: routes_def)
    ultimately show ?thesis using routes_on_worker [OF ids_submit_read _ val(2)] routes_trans by blast
  qed
  let ?M = "M\<lparr>ticks := ticks M + 1\<rparr>"
  have M: "topo_inv hs (topo (mnode ?M))" "clients_ok asked i ?M" using inv cl by (simp_all add: clients_ok_def)
  have "bindS (receive_data hs wr (clk (ticks M)) i a (take (nat n) buf)) ?rest ?M = (r, M')"
    using run False by (simp add: handle_read_def with_clock_def bindS_def)
  then have "routes hs asked i ?M M'"
  proof (cases rule: bindS_cases)
    case (fault e)
    then show ?thesis using receive_routes [OF M] by blast
  next
    case (val resp N)
    have N: "routes hs asked i ?M N" by (rule receive_routes [OF M val(1)])
    then have "topo_inv hs (topo (mnode N))" by (simp add: routes_def)
    then show ?thesis using rest [OF val(2)] routes_trans [OF N] by blast
  qed
  then show ?thesis by (simp add: routes_def)
qed

text \<open>A message of another core: a request is executed here, where its key is, and answered to its origin.\<close>

lemma execute_request_routes:
  assumes "topo_inv hs (topo (mnode M))" "margs msg \<noteq> []" "get_target_core (topo (mnode M)) (margs msg ! 1) = i"
    and run: "execute_request hs wr t i msg (mnode M) = (r, nd')"
  shows "routes hs asked i M (M\<lparr>mnode := nd'\<rparr>)"
proof -
  obtain nm as where args: "margs msg = nm # as" using assms(2) by (cases "margs msg") auto
  show ?thesis
  proof (cases "main_registry nm")
    case None
    then have "nd' = mnode M" using run args by (simp add: execute_request_def get_registered_def)
    then show ?thesis using assms(1) by (simp add: routes_refl)
  next
    case (Some cmd)
    then show ?thesis
      using run args assms execute_routes [OF assms(1), of "nm # as" asked i "conn_id msg" wr t cmd r nd']
      by (simp add: execute_request_def get_registered_def)
  qed
qed

lemma send_response_routes:
  assumes inv: "topo_inv hs (topo (mnode M))" and o: "origin_core_id msg < num_cores (topo (mnode M))"
    and asked: "asked (origin_core_id msg) (conn_id msg)" and run: "send_response i msg resp M = (r, M')"
  shows "routes hs asked i M M'"
proof (rule send_response_apply [OF inv o, where i = i and resp = resp])
  fix t'
  assume t': "send_response i msg resp M = (Inr (), M\<lparr>mnode := (mnode M)\<lparr>topo := t'\<rparr>\<rparr>)" "topo_inv hs t'"
    "channel_of t' = (channel_of (topo (mnode M)))(origin_core_id msg :=
       channel_of (topo (mnode M)) (origin_core_id msg) @ [response_message i (conn_id msg) resp])"
    "num_cores t' = num_cores (topo (mnode M))"
  have M': "M' = M\<lparr>mnode := (mnode M)\<lparr>topo := t'\<rparr>\<rparr>" using run t'(1) by simp
  have "sent_ok asked (topo (mnode M)) (origin_core_id msg) (response_message i (conn_id msg) resp)"
    using asked by (simp add: sent_ok_def)
  then have "\<exists>ms. channel_of t' l = channel_of (topo (mnode M)) l @ ms \<and>
      (\<forall>m \<in> set ms. sent_ok asked (topo (mnode M)) l m)" for l
    using t'(3) by (cases "l = origin_core_id msg") simp_all
  with t'(2,4) show ?thesis using target_stable [OF inv t'(2,4)] by (simp add: M' routes_def)
qed

lemma message_routes:
  assumes inv: "topo_inv hs (topo (mnode M))" and ok: "message_ok (num_cores (topo (mnode M))) msg"
    and sent: "sent_ok asked (topo (mnode M)) i msg" and run: "handle_message hs wr clk i msg M = (r, M')"
  shows "routes hs asked i M M'"
proof (cases "mtype msg")
  case RESPONSE
  then show ?thesis using run routes_on_worker [OF ids_deliver inv] by (simp add: handle_message_def)
next
  case REQUEST
  let ?M = "M\<lparr>ticks := ticks M + 1\<rparr>"
  obtain q nd' where ex: "execute_request hs wr (clk (ticks M)) i msg (mnode ?M) = (q, nd')" by fastforce
  let ?K = "?M\<lparr>mnode := nd'\<rparr>"
  have K: "routes hs asked i ?M ?K"
    by (rule execute_request_routes [OF _ _ _ ex]) (use inv ok sent REQUEST in \<open>simp_all add: message_ok_def sent_ok_def\<close>)
  have "M' = ?K \<or> (\<exists>resp. send_response i msg resp ?K = (r, M'))"
    using run ex REQUEST
    by (cases q) (auto simp: handle_message_def with_clock_def on_node_def zoom_def bindS_def split: if_splits)
  then have "routes hs asked i ?M M'"
  proof
    assume "\<exists>resp. send_response i msg resp ?K = (r, M')"
    then obtain resp where resp: "send_response i msg resp ?K = (r, M')" by blast
    have "routes hs asked i ?K M'"
      by (rule send_response_routes [OF _ _ _ resp])
        (use K ok sent REQUEST in \<open>simp_all add: routes_def message_ok_def sent_ok_def\<close>)
    with K show ?thesis by (rule routes_trans)
  qed (use K in simp)
  then show ?thesis by (simp add: routes_def)
qed

lemma batch_routes:
  assumes "topo_inv hs (topo (mnode M))" "\<forall>msg \<in> set msgs. message_ok (num_cores (topo (mnode M))) msg"
    and "\<forall>msg \<in> set msgs. sent_ok asked (topo (mnode M)) i msg"
    and "for_batch (handle_message hs wr clk i) msgs M = (r, M')"
  shows "routes hs asked i M M'"
  using assms
proof (induction msgs arbitrary: M)
  case Nil
  then show ?case by (simp add: routes_refl)
next
  case (Cons msg msgs)
  from Cons.prems(4) have "bindS (handle_message hs wr clk i msg) (\<lambda>_. for_batch (handle_message hs wr clk i) msgs) M = (r, M')"
    by simp
  then show ?case
  proof (cases rule: bindS_cases)
    case (fault e)
    then show ?thesis using message_routes [OF Cons.prems(1) _ _ fault(1)] Cons.prems(2,3) by simp
  next
    case (val y N)
    have N: "routes hs asked i M N" using message_routes [OF Cons.prems(1) _ _ val(1)] Cons.prems(2,3) by simp
    have "routes hs asked i N M'"
      by (rule Cons.IH [OF _ _ _ val(2)])
        (use N Cons.prems(2,3) sent_ok_cong [of "topo (mnode N)" "topo (mnode M)" asked i] in \<open>simp_all add: routes_def\<close>)
    with N show ?thesis by (rule routes_trans)
  qed
qed

text \<open>Every completion but that of an accept.\<close>

lemma complete_routes:
  assumes inv: "topo_inv hs (topo (mnode M))" "i < num_cores (topo (mnode M))" and cl: "clients_ok asked i M"
    and ch: "\<forall>msg \<in> set (channel_of (topo (mnode M)) i). message_ok (num_cores (topo (mnode M))) msg \<and> sent_ok asked (topo (mnode M)) i msg"
    and h: "notification_handler_set (ctx (workers M ! i))" and op: "op \<noteq> Accept_op"
    and run: "complete hs wr clk i op n buf M = (r, M')"
  shows "routes hs asked i (if op = Notification_op then emptied i M else M) M'"
proof (cases op)
  case Notification_op
  let ?E = "emptied i M"
  note em = emptied_topo [OF inv]
  have batch: "routes hs asked i ?E N" if "notification_handler hs wr clk i M = (q, N)" for q N
    by (rule batch_routes [OF em(1) _ _ that [unfolded notification_batch]])
      (use ch em(4,5) sent_ok_cong [OF em(4), of asked i] in simp_all)
  have "bindS (notification_handler hs wr clk i) (\<lambda>_. on_worker i (on_ctx submit_notification_read)) M = (r, M')"
    using run h Notification_op by (simp add: complete_notification_def bindS_def)
  then have "routes hs asked i ?E M'"
  proof (cases rule: bindS_cases)
    case (fault e)
    then show ?thesis using batch by blast
  next
    case (val y N)
    have N: "routes hs asked i ?E N" by (rule batch [OF val(1)])
    have "routes hs asked i N M'" by (rule routes_on_worker [OF ids_on_ctx _ val(2)]) (use N in \<open>simp add: routes_def\<close>)
    with N show ?thesis by (rule routes_trans)
  qed
  with Notification_op show ?thesis by simp
next
  case (Read_op a)
  then show ?thesis using read_routes [OF inv(1) cl] run by simp
next
  case (Write_op a)
  then show ?thesis using routes_on_worker [OF ids_handle_write inv(1)] run by simp
qed (use op in simp)

text \<open>Accepting a client: it gets the next number of the counter.\<close>

lemma accept_effect:
  assumes run: "handle_accept i fd M = (r, M')" and i: "i < length (workers M)" and fd: "0 \<le> fd"
  shows "mnode M' = mnode M \<and> next_conn_id M' = next_conn_id M + 1 \<and>
    length (workers M') = length (workers M) \<and> (\<forall>l. l \<noteq> i \<longrightarrow> workers M' ! l = workers M ! l) \<and>
    next_addr (workers M' ! i) = Suc (next_addr (workers M ! i)) \<and>
    (\<forall>a c'. objects (workers M' ! i) a = Some c' \<longrightarrow>
       (a = next_addr (workers M ! i) \<and> cid c' = next_conn_id M) \<or>
       (\<exists>c. objects (workers M ! i) a = Some c \<and> cid c' = cid c))"
proof -
  let ?w = "workers M ! i" and ?m = "\<lambda>a. bindS (connection_start a) (\<lambda>_. submit_accept)"
  obtain w1 where w1: "new_client fd (next_conn_id M) ?w = (Inr (next_addr ?w), w1)" "next_addr w1 = Suc (next_addr ?w)"
    "\<forall>a c. objects w1 a = Some c \<longrightarrow> (a = next_addr ?w \<and> cid c = next_conn_id M) \<or> objects ?w a = Some c"
    by (simp add: new_client_def Let_def new_connection_def set_on_disconnect_def)
  obtain w' where w': "?m (next_addr ?w) w1 = (r, w')" "M' = M\<lparr>next_conn_id := next_conn_id M + 1, workers := (workers M)[i := w']\<rparr>"
    using run fd w1(1) by (auto simp: handle_accept_def bindS_def on_worker_def zoom_def not_less split: prod.splits)
  have "fixes_ids (?m (next_addr ?w))" by (rule ids_bind) simp_all
  then have "keeps_ids w1 w'" using w'(1) by (rule fixes_idsD)
  then show ?thesis using w'(2) w1(2,3) i unfolding keeps_ids_def by (simp, metis)
qed

section \<open>The numbers in use\<close>

text \<open>
  The addresses of a worker count the connections it has accepted, so the sum over the cores is the number of
  values drawn from the counter. The counter has 32 bits and wraps around.
\<close>

definition accepted :: "machine \<Rightarrow> nat" where
  "accepted M = sum_list (map next_addr (workers M))"

definition addresses :: "machine \<Rightarrow> (nat \<times> nat) set" where
  "addresses M = {(i, a). i < length (workers M) \<and> a < next_addr (workers M ! i)}"

text \<open>\<open>num (i, a)\<close> is how many connections were accepted before the one at address \<open>a\<close> of core \<open>i\<close>.\<close>

definition numbered :: "machine \<Rightarrow> (nat \<times> nat \<Rightarrow> nat) \<Rightarrow> bool" where
  "numbered M num \<longleftrightarrow>
     inj_on num (addresses M) \<and> (\<forall>p \<in> addresses M. num p < accepted M) \<and>
     (\<forall>i a c. i < length (workers M) \<longrightarrow> objects (workers M ! i) a = Some c \<longrightarrow>
        a < next_addr (workers M ! i) \<and> cid c = of_nat (num (i, a) + 1))"

definition asked_by :: "machine \<Rightarrow> (nat \<times> nat \<Rightarrow> nat) \<Rightarrow> nat \<Rightarrow> 32 word \<Rightarrow> bool" where
  "asked_by M num i x \<longleftrightarrow> (\<exists>a < next_addr (workers M ! i). x = of_nat (num (i, a) + 1))"

definition routed :: "machine \<Rightarrow> (nat \<times> nat \<Rightarrow> nat) \<Rightarrow> bool" where
  "routed M num \<longleftrightarrow>
     next_conn_id M = of_nat (accepted M + 1) \<and> numbered M num \<and>
     (\<forall>l < num_cores (topo (mnode M)). \<forall>m \<in> set (channel_of (topo (mnode M)) l).
        sent_ok (asked_by M num) (topo (mnode M)) l m)"

lemma routed_clients: "routed M num \<Longrightarrow> i < length (workers M) \<Longrightarrow> clients_ok (asked_by M num) i M"
  unfolding routed_def numbered_def clients_ok_def asked_by_def by blast

text \<open>Handlers that open no connection; \<open>E\<close> is \<open>M\<close> with the channel of core \<open>i\<close> emptied or not.\<close>

lemma routes_routed:
  assumes r: "routed M num" and ro: "routes hs (asked_by M num) i E M'"
    and E: "workers E = workers M" "next_conn_id E = next_conn_id M" "num_cores (topo (mnode E)) = num_cores (topo (mnode M))"
      "get_target_core (topo (mnode E)) = get_target_core (topo (mnode M))"
      "\<forall>l. set (channel_of (topo (mnode E)) l) \<subseteq> set (channel_of (topo (mnode M)) l)"
  shows "routed M' num \<and> accepted M' = accepted M"
proof -
  have w: "length (workers M') = length (workers M)" "next_addr (workers M' ! l) = next_addr (workers M ! l)"
    "objects (workers M' ! l) a = Some c' \<Longrightarrow> \<exists>c. objects (workers M ! l) a = Some c \<and> cid c' = cid c" for l a c'
    using ro E(1) by (cases "l = i"; auto simp: routes_def keeps_ids_def)+
  have "map next_addr (workers M') = map next_addr (workers M)" using w by (intro nth_equalityI) simp_all
  then have acc: "accepted M' = accepted M" "addresses M' = addresses M" using w by (simp_all add: accepted_def addresses_def)
  have ask: "asked_by M' num = asked_by M num" by (simp add: fun_eq_iff asked_by_def w)
  have "numbered M' num"
    using r w unfolding routed_def numbered_def acc by (metis (no_types, lifting))
  moreover have "sent_ok (asked_by M' num) (topo (mnode M')) l m"
    if l: "l < num_cores (topo (mnode M'))" and m: "m \<in> set (channel_of (topo (mnode M')) l)" for l m
  proof -
    obtain ms where ms: "channel_of (topo (mnode M')) l = channel_of (topo (mnode E)) l @ ms"
      "\<forall>m \<in> set ms. sent_ok (asked_by M num) (topo (mnode E)) l m" using ro unfolding routes_def by blast
    have target: "get_target_core (topo (mnode M')) = get_target_core (topo (mnode M))"
      "get_target_core (topo (mnode M')) = get_target_core (topo (mnode E))" "num_cores (topo (mnode M')) = num_cores (topo (mnode M))"
      using ro E(3,4) by (simp_all add: routes_def)
    have "m \<in> set ms \<or> m \<in> set (channel_of (topo (mnode M)) l)" using m ms(1) E(5) by auto
    then show ?thesis
      using ms(2) r l target(3) sent_ok_cong [OF target(1)] sent_ok_cong [OF target(2)] unfolding ask routed_def by auto
  qed
  ultimately show ?thesis using r ro E(2) acc(1) unfolding routed_def routes_def by simp
qed

text \<open>Accepting a client.\<close>

lemma accept_counts:
  assumes i: "i < length (workers M)" and run: "handle_accept i fd M = (q, M')" "0 \<le> fd"
  shows "accepted M' = Suc (accepted M)"
    and "next_addr (workers M' ! l) = (if l = i then Suc (next_addr (workers M ! i)) else next_addr (workers M ! l))"
    and "addresses M' = insert (i, next_addr (workers M ! i)) (addresses M)"
proof -
  let ?b = "next_addr (workers M ! i)"
  note eff = accept_effect [OF run(1) i run(2)]
  have "map next_addr (workers M') = (map next_addr (workers M))[i := Suc ?b]"
    using eff i by (intro nth_equalityI) (auto simp: nth_list_update)
  then show "accepted M' = Suc (accepted M)"
    using i elem_le_sum_list [of i "map next_addr (workers M)"] by (simp add: accepted_def sum_list_update)
  show same: "next_addr (workers M' ! l) = (if l = i then Suc ?b else next_addr (workers M ! l))" for l using eff by simp
  show "addresses M' = insert (i, ?b) (addresses M)"
    using eff i unfolding addresses_def same by (auto split: if_splits)
qed

lemma accept_routed:
  assumes r: "routed M num" and i: "i < length (workers M)" and run: "handle_accept i fd M = (q, M')" "0 \<le> fd"
  shows "\<exists>num'. routed M' num' \<and> accepted M' = Suc (accepted M)"
proof -
  let ?b = "next_addr (workers M ! i)" and ?n = "num((i, next_addr (workers M ! i)) := accepted M)"
  note eff = accept_effect [OF run(1) i run(2)] and acc = accept_counts(1) [OF i run] and same = accept_counts(2) [OF i run]
  have addr: "addresses M' = insert (i, ?b) (addresses M)" "(i, ?b) \<notin> addresses M"
    using accept_counts(3) [OF i run] by (simp_all add: addresses_def)
  have old: "inj_on num (addresses M)" "\<forall>p \<in> addresses M. num p < accepted M" using r by (simp_all add: routed_def numbered_def)
  have upd: "?n p = num p" if "p \<in> addresses M" for p using that addr(2) by auto
  have new: "?n (i, ?b) = accepted M" by simp
  have "inj_on ?n (addresses M)" using old(1) upd inj_on_cong [of "addresses M" ?n num] by blast
  moreover have "?n (i, ?b) \<notin> ?n ` addresses M" using old(2) upd new by fastforce
  ultimately have "inj_on ?n (addresses M')" using addr by simp
  moreover have "?n p < accepted M'" if "p \<in> addresses M'" for p
    using that old(2) upd [of p] addr acc by auto
  moreover have "a < next_addr (workers M' ! l) \<and> cid c' = of_nat (?n (l, a) + 1)"
    if l: "l < length (workers M')" and c': "objects (workers M' ! l) a = Some c'" for l a c'
  proof (cases "l = i \<and> a = ?b \<and> cid c' = next_conn_id M")
    case True
    then show ?thesis using r same by (simp add: routed_def)
  next
    case False
    have "\<exists>c. objects (workers M ! l) a = Some c \<and> cid c' = cid c"
    proof (cases "l = i")
      case True
      then show ?thesis using eff c' False by blast
    qed (use eff c' in simp)
    then obtain c where c: "objects (workers M ! l) a = Some c" "cid c' = cid c" by blast
    then have "a < next_addr (workers M ! l)" "cid c = of_nat (num (l, a) + 1)" "l < length (workers M)"
      using r l eff unfolding routed_def numbered_def by auto
    then show ?thesis using c(2) same [of l] upd [of "(l, a)"] by (auto simp: addresses_def split: if_splits)
  qed
  ultimately have "numbered M' ?n" by (simp add: numbered_def)
  moreover have "asked_by M' ?n l x" if ask: "asked_by M num l x" for l x
  proof -
    obtain a where "a < next_addr (workers M ! l)" "x = of_nat (num (l, a) + 1)" using ask unfolding asked_by_def by blast
    then show ?thesis unfolding asked_by_def same by (intro exI [of _ a]) auto
  qed
  then have "sent_ok (asked_by M' ?n) t l m" if "sent_ok (asked_by M num) t l m" for t l m
    using that by (cases "mtype m") (simp_all add: sent_ok_def)
  ultimately show ?thesis using r eff acc by (intro exI [of _ ?n]) (simp add: routed_def)
qed

section \<open>Every step keeps the numbers\<close>

lemma dispatch_routed:
  assumes C: "cluster_inv hs C" "i < length (workers (mach C))" "todo C i = Some (q # qs)"
    and r: "routed (mach C) num" and run: "dispatch hs wr clk i q buf (mach C) = (x, M')"
  shows "\<exists>num'. routed M' num' \<and> accepted M' \<le> Suc (accepted (mach C))"
proof (cases "cqe_data q")
  case None
  then show ?thesis using run r by (auto simp: dispatch_def)
next
  case (Some op)
  let ?M = "mach C"
  have run': "complete hs wr clk i op (res q) buf ?M = (x, M')" using run Some by (simp add: dispatch_def)
  have inv: "topo_inv hs (topo (mnode ?M))" "i < num_cores (topo (mnode ?M))" using C(1,2) by (simp_all add: cluster_inv_def)
  note same = refl refl refl refl
  show ?thesis
  proof (cases "op = Accept_op")
    case True
    show ?thesis
    proof (cases "res q < 0")
      case True
      then have "routes hs (asked_by ?M num) i ?M M'"
        using run' \<open>op = Accept_op\<close> routes_on_worker [OF ids_accept inv(1)] by (simp add: handle_accept_def)
      then show ?thesis using routes_routed [OF r _ same] by fastforce
    next
      case False
      then have "handle_accept i (res q) ?M = (x, M')" "0 \<le> res q" using run' \<open>op = Accept_op\<close> by simp_all
      then show ?thesis using accept_routed [OF r C(2)] by (metis order_refl)
    qed
  next
    case False
    let ?E = "if op = Notification_op then emptied i ?M else ?M"
    have w: "core_inv C i" using C(1) inv(2) by (simp add: cluster_inv_def)
    have ro: "routes hs (asked_by ?M num) i ?E M'"
      by (rule complete_routes [OF inv routed_clients [OF r C(2)] _ _ False run'])
        (use C r inv(2) w in \<open>auto simp: cluster_inv_def routed_def core_inv_def worker_inv_def\<close>)
    have "routed M' num \<and> accepted M' = accepted ?M" by (rule routes_routed [OF r ro]) (use emptied_topo [OF inv] in auto)
    then show ?thesis by auto
  qed
qed

lemma end_thread_routed:
  assumes "routed M num" "topo_inv hs (topo (mnode M))"
  shows "routed (end_thread i M) num \<and> accepted (end_thread i M) = accepted M"
proof (rule routes_routed [OF assms(1), where E = M and i = i])
  have "keeps_ids (workers M ! i) (workers (end_thread i M) ! i)"
    by (cases "i < length (workers M)") (simp_all add: end_thread_def worker_unwind_def keeps_ids_def list_update_beyond)
  then show "routes hs (asked_by M num) i M (end_thread i M)"
    using assms(2) by (simp add: routes_def end_thread_def)
qed simp_all

lemma step_routed:
  assumes "cluster_step hs wr clk C C'" "cluster_inv hs C" "routed (mach C) num"
  shows "\<exists>num'. routed (mach C') num' \<and> accepted (mach C') \<le> Suc (accepted (mach C))"
  using assms(1)
proof (cases rule: cluster_step.cases)
  case (Wait i rounds cs w' s)
  have "keeps_ids (workers (mach C) ! i) w'" using Wait(4) by (auto simp: run_wait_def io_submit_and_wait_def keeps_ids_def)
  then have "routes hs (asked_by (mach C) num) i (mach C) (mach C')"
    using Wait(1,2) assms(2) by (simp add: routes_def cluster_inv_def)
  then show ?thesis using routes_routed [OF assms(3) _ refl refl refl refl] by fastforce
next
  case (Handle i q qs buf M')
  then show ?thesis using dispatch_routed [OF assms(2) Handle(2,3) assms(3) Handle(4)] by simp
next
  case (Stop i q qs buf f M')
  obtain num' where r: "routed M' num'" and acc: "accepted M' \<le> Suc (accepted (mach C))"
    using dispatch_routed [OF assms(2) Stop(2,3) assms(3) Stop(4)] by blast
  have "topo_inv hs (topo (mnode M'))"
    using dispatch_frame [OF assms(2) Stop(2,3,4)] by (auto simp: frame_def extends_def)
  from end_thread_routed [OF r this, of i] show ?thesis using Stop(1) acc by auto
qed

lemma steps_routed:
  assumes "(cluster_step hs wr clk)\<^sup>*\<^sup>* C C'" "cluster_inv hs C" "routed (mach C) num"
  shows "\<exists>num'. routed (mach C') num'"
  using assms
proof (induction rule: rtranclp_induct)
  case (step D E)
  then show ?case using step_routed [OF step(2) cluster_steps_inv [OF step(1,4)]] by blast
qed blast

text \<open>The workers start without connections, and the channels are empty.\<close>

lemma start_empty:
  assumes "fresh hs n (topo nd)" "start_threads efd sys n nd = Some C" "l < n"
  shows "channel_of (topo (mnode (mach C))) l = []"
proof -
  obtain fds count where "snd (register_cores efd [0 ..< n] nd) = nd\<lparr>topo := (topo nd)\<lparr>notify_fds := fds, registered_count := count\<rparr>\<rparr>"
    using register_cores_spec [of "[0 ..< n]" nd efd] fresh_fields(2) [OF assms(1)] by auto
  then have "topo (mnode (mach C)) = (topo nd)\<lparr>notify_fds := fds, registered_count := count\<rparr>"
    using assms(2) by (auto simp: start_threads_def Let_def split: prod.splits if_splits)
  then show ?thesis using fresh_fields(3) [OF assms(1), of l] assms(3) by (auto simp: channel_of_def)
qed

lemma start_routed:
  assumes fresh: "fresh hs n (topo nd)" and start: "start_threads efd sys n nd = Some C"
  shows "routed (mach C) (\<lambda>_. 0) \<and> accepted (mach C) = 0"
proof -
  have "next_conn_id (mach C) = 1" "length (workers (mach C)) = n"
    using start by (auto simp: start_threads_def Let_def split: prod.splits if_splits)
  then have C: "num_cores (topo (mnode (mach C))) = n" "next_conn_id (mach C) = 1" "length (workers (mach C)) = n"
    using start_inv [OF fresh start] by simp_all
  have w: "next_addr (workers (mach C) ! i) = 0 \<and> objects (workers (mach C) ! i) = Map.empty" if "i < n" for i
    by (cases rule: start_worker [OF fresh start that]) (simp_all add: new_worker_def worker_unwind_def)
  then have "map next_addr (workers (mach C)) = replicate n 0" using C(3) by (intro nth_equalityI) simp_all
  then have "accepted (mach C) = 0" by (simp add: accepted_def)
  moreover have "addresses (mach C) = {}" using w C(3) by (auto simp: addresses_def)
  ultimately show ?thesis using w C start_empty [OF fresh start] by (simp add: routed_def numbered_def)
qed

lemma of_nat_32_inj:
  assumes "of_nat a = (of_nat b :: 32 word)" "a < 2 ^ 32" "b < 2 ^ 32"
  shows "a = b"
proof -
  have "unat (of_nat n :: 32 word) = n" if "n < 2 ^ 32" for n
    using take_bit_nat_eq_self [OF that] by (simp add: unsigned_of_nat)
  with assms show ?thesis by metis
qed

text \<open>While the counter has not wrapped around, a number belongs to one connection, of one core.\<close>

lemma number_unique:
  assumes "numbered M num" "accepted M < 2 ^ 32 - 1"
    and "p \<in> addresses M" "q \<in> addresses M" "of_nat (num p + 1) = (of_nat (num q + 1) :: 32 word)"
  shows "p = q"
proof -
  have "num p < accepted M" "num q < accepted M" using assms(1,3,4) by (auto simp: numbered_def)
  then have "num p + 1 = num q + 1" using assms(2) by (intro of_nat_32_inj [OF assms(5)]) simp_all
  with assms(1,3,4) show ?thesis by (auto simp: numbered_def dest: inj_onD)
qed

lemma number_fresh:
  assumes "routed M num" "accepted M < 2 ^ 32 - 1" "p \<in> addresses M"
  shows "of_nat (num p + 1) \<noteq> next_conn_id M"
proof
  assume eq: "of_nat (num p + 1) = next_conn_id M"
  have p: "num p < accepted M" using assms(1,3) by (auto simp: routed_def numbered_def)
  have "num p + 1 = accepted M + 1"
    by (rule of_nat_32_inj) (use eq p assms(1,2) in \<open>auto simp: routed_def\<close>)
  with p show False by simp
qed

lemma live_address:
  "numbered M num \<Longrightarrow> i < length (workers M) \<Longrightarrow> objects (workers M ! i) a = Some c \<Longrightarrow>
     (i, a) \<in> addresses M \<and> cid c = of_nat (num (i, a) + 1)"
  unfolding numbered_def addresses_def by blast

lemma asked_address:
  "asked_by M num i x \<Longrightarrow> i < length (workers M) \<Longrightarrow> \<exists>a. (i, a) \<in> addresses M \<and> x = of_nat (num (i, a) + 1)"
  unfolding asked_by_def addresses_def by blast

text \<open>The core a message in the channel of core \<open>l\<close> answers to.\<close>

definition client_core :: "nat \<Rightarrow> message \<Rightarrow> nat" where
  "client_core l m = (case mtype m of REQUEST \<Rightarrow> origin_core_id m | RESPONSE \<Rightarrow> l)"

lemma routed_message:
  assumes "routed M num" "l < num_cores (topo (mnode M))" "length (workers M) = num_cores (topo (mnode M))"
    and "m \<in> set (channel_of (topo (mnode M)) l)" "message_ok (num_cores (topo (mnode M))) m"
  obtains a where "(client_core l m, a) \<in> addresses M" "conn_id m = of_nat (num (client_core l m, a) + 1)"
proof -
  have "asked_by M num (client_core l m) (conn_id m)" "client_core l m < length (workers M)"
    using assms by (auto simp: routed_def sent_ok_def client_core_def message_ok_def split: message_type.splits)
  from asked_address [OF this] that show ?thesis by blast
qed

text \<open>What the numbers give, in a machine of \<open>n\<close> cores.\<close>

lemma routed_replies:
  assumes inv: "cluster_inv hs C" and r: "routed (mach C) num" and small: "accepted (mach C) < 2 ^ 32 - 1"
    and t: "t = topo (mnode (mach C))" "n = num_cores t"
  shows "i < n \<Longrightarrow> j < n \<Longrightarrow> objects (workers (mach C) ! i) a = Some c \<Longrightarrow> objects (workers (mach C) ! j) b = Some d \<Longrightarrow>
      cid c = cid d \<Longrightarrow> i = j \<and> a = b"
    and "i < n \<Longrightarrow> objects (workers (mach C) ! i) a = Some c \<Longrightarrow> l < n \<Longrightarrow> m \<in> set (channel_of t l) \<Longrightarrow>
      cid c = conn_id m \<Longrightarrow> i = client_core l m"
    and "l < n \<Longrightarrow> m \<in> set (channel_of t l) \<Longrightarrow> conn_id m \<noteq> next_conn_id (mach C) \<and>
      (mtype m = REQUEST \<longrightarrow> get_target_core t (margs m ! 1) = l)"
proof -
  let ?M = "mach C"
  have len: "length (workers ?M) = n" using inv t by (simp add: cluster_inv_def)
  have num: "numbered ?M num" using r by (simp add: routed_def)
  note unique = number_unique [OF num small] and live = live_address [OF num, unfolded len]
  have msg: "\<exists>b. (client_core l m, b) \<in> addresses ?M \<and> conn_id m = of_nat (num (client_core l m, b) + 1)"
    if "l < n" "m \<in> set (channel_of t l)" for l m
  proof -
    have ok: "message_ok (num_cores (topo (mnode ?M))) m" using inv that t by (simp add: cluster_inv_def)
    show ?thesis by (rule routed_message [OF r, of l m]) (use ok that len t in auto)
  qed
  show "i = j \<and> a = b" if "i < n" "j < n" "objects (workers ?M ! i) a = Some c" "objects (workers ?M ! j) b = Some d" "cid c = cid d"
    using unique [of "(i, a)" "(j, b)"] live [OF that(1,3)] live [OF that(2,4)] that(5) by simp
  show "i = client_core l m"
    if h: "i < n" "objects (workers ?M ! i) a = Some c" "l < n" "m \<in> set (channel_of t l)" "cid c = conn_id m"
  proof -
    obtain b where "(client_core l m, b) \<in> addresses ?M" "conn_id m = of_nat (num (client_core l m, b) + 1)"
      using msg [OF h(3,4)] by blast
    then show ?thesis using unique [of "(i, a)" "(client_core l m, b)"] live [OF h(1,2)] h(5) by simp
  qed
  show "conn_id m \<noteq> next_conn_id ?M \<and> (mtype m = REQUEST \<longrightarrow> get_target_core t (margs m ! 1) = l)"
    if m: "l < n" "m \<in> set (channel_of t l)"
  proof -
    have "sent_ok (asked_by ?M num) t l m" using r m t by (simp add: routed_def)
    moreover have "conn_id m \<noteq> next_conn_id ?M" using msg [OF m] number_fresh [OF r small] by metis
    ultimately show ?thesis by (cases "mtype m") (simp_all add: sent_ok_def)
  qed
qed

text \<open>
  C12: A reply reaches the client that asked, or nobody. In every state the server can reach before the
  32-bit counter of connections wraps around, no two live connections, of one core or of two, have the same
  number; a live connection with the number of a queued message is on the core that sent the
  request, or whose channel holds the response; a queued request is in the channel of the core that owns
  its key; and the number of the next client is not that of a queued message, so that it never
  receives the reply to a client that has left.
\<close>

theorem reply_routing:
  assumes "main_init hs getenv hw fs = Inr (n, nd)" "0 < n"
    and "start_threads efd sys n nd = Some C\<^sub>0" "(cluster_step hs wr clk)\<^sup>*\<^sup>* C\<^sub>0 C"
    and "accepted (mach C) < 2 ^ 32 - 1" "t = topo (mnode (mach C))"
  shows "(\<forall>i < n. \<forall>j < n. \<forall>a b c d. objects (workers (mach C) ! i) a = Some c \<longrightarrow>
       objects (workers (mach C) ! j) b = Some d \<longrightarrow> cid c = cid d \<longrightarrow> i = j \<and> a = b) \<and>
    (\<forall>l < n. \<forall>m \<in> set (channel_of t l). conn_id m \<noteq> next_conn_id (mach C) \<and>
       (mtype m = REQUEST \<longrightarrow> get_target_core t (margs m ! 1) = l) \<and>
       (\<forall>i < n. \<forall>a c. objects (workers (mach C) ! i) a = Some c \<longrightarrow> cid c = conn_id m \<longrightarrow> i = client_core l m))"
proof -
  note fresh = main_init_fresh [OF assms(1,2)]
  have C0: "cluster_inv hs C\<^sub>0" "num_cores (topo (mnode (mach C\<^sub>0))) = n" using start_inv [OF fresh assms(3)] by simp_all
  have inv: "cluster_inv hs C" by (rule cluster_steps_inv [OF assms(4) C0(1)])
  obtain num where r: "routed (mach C) num" using steps_routed [OF assms(4) C0(1)] start_routed [OF fresh assms(3)] by blast
  have "n = num_cores t"
    using steps_fds [OF assms(4) C0(1)] C0 inv assms(6) by (simp add: cluster_inv_def)
  from routed_replies [OF inv r assms(5,6) this] show ?thesis by blast
qed

text \<open>A core that accepts a client right after the start.\<close>

lemma submit_succeeds:
  assumes "worker_inv w T"
  shows "\<exists>w'. submit_accept w = (Inr (), w')" "\<exists>w'. on_ctx submit_notification_read w = (Inr (), w')"
proof -
  have w: "sqes (ring (ctx w)) \<noteq> []" "0 \<le> event_fd (ctx w)" using assms by (simp_all add: worker_inv_def)
  show "\<exists>w'. submit_accept w = (Inr (), w')"
    by (rule on_ctx_submit [OF w(1), of "prep_accept (server_fd (server w))" Accept_op]) (auto simp: submit_accept_def)
  show "\<exists>w'. on_ctx submit_notification_read w = (Inr (), w')"
    by (rule on_ctx_submit [OF w(1), of "prep_read (event_fd (ctx w)) Read_into 8" Notification_op])
      (use w(2) in \<open>auto simp: submit_notification_read_def on_ctx_def zoom_def\<close>)
qed

lemma accept_succeeds:
  assumes w: "worker_inv (workers M ! i) (add_mset (Some Accept_op) T)" and i: "i < length (workers M)" and fd: "0 \<le> fd"
  shows "\<exists>M'. handle_accept i fd M = (Inr (), M') \<and> objects (workers M' ! i) (next_addr (workers M ! i)) \<noteq> None"
proof -
  let ?w = "workers M ! i"
  obtain w1 where w1: "new_client fd (next_conn_id M) ?w = (Inr (next_addr ?w), w1)" "objects w1 (next_addr ?w) \<noteq> None"
    by (simp add: new_client_def Let_def)
  obtain c where c: "objects w1 (next_addr ?w) = Some c" using w1(2) by blast
  obtain r where r: "submit_read (next_addr ?w) w1 = (Inr (), w1\<lparr>ctx := (ctx w1)\<lparr>ring := r\<rparr>\<rparr>)"
    "worker_inv (w1\<lparr>ctx := (ctx w1)\<lparr>ring := r\<rparr>\<rparr>) (add_mset (Some Accept_op) T)"
    by (rule submit_read_inv [OF new_client_inv [OF w w1(1)] c])
  obtain w2 where w2: "submit_accept (w1\<lparr>ctx := (ctx w1)\<lparr>ring := r\<rparr>\<rparr>) = (Inr (), w2)" using submit_succeeds(1) [OF r(2)] by blast
  then have "objects w2 = objects w1" by (auto simp: submit_accept_def on_ctx_def zoom_def split: prod.splits)
  with w1 r(1) w2 fd i show ?thesis
    by (simp add: handle_accept_def bindS_def on_worker_def zoom_def connection_start_def)
qed

lemma notification_succeeds:
  assumes w: "worker_inv (workers M ! i) T" and "channel_of (topo (mnode M)) i = []"
  shows "\<exists>M'. complete hs wr clk i Notification_op n buf M = (Inr (), M')"
proof -
  obtain w' where "on_ctx submit_notification_read (workers M ! i) = (Inr (), w')" using submit_succeeds(2) [OF w] by blast
  moreover have "notification_handler_set (ctx (workers M ! i))" using w by (simp add: worker_inv_def)
  ultimately show ?thesis
    using assms(2) by (simp add: complete_notification_def notification_batch bindS_def on_worker_def zoom_def)
qed

lemma first_client:
  assumes inv: "cluster_inv hs C" "i < length (workers (mach C))" "todo C i = Some cs"
    and cs: "mset (map cqe_data cs) = {# Some Accept_op, Some Notification_op #}" "\<forall>q \<in> set cs. res q = 8"
    and ch: "channel_of (topo (mnode (mach C))) i = []"
  shows "\<exists>D E a. (cluster_step hs wr clk)\<^sup>=\<^sup>= C D \<and> cluster_step hs wr clk D E \<and> objects (workers (mach E) ! i) a \<noteq> None"
proof -
  have accept: "\<exists>E a. cluster_step hs wr clk D E \<and> objects (workers (mach E) ! i) a \<noteq> None"
    if D: "cluster_inv hs D" "i < length (workers (mach D))" "todo D i = Some (q # qs)" "cqe_data q = Some Accept_op" "res q = 8" for D q qs
  proof -
    have "core_inv D i" using D(1,2) by (simp add: cluster_inv_def)
    then have w: "worker_inv (workers (mach D) ! i) (add_mset (Some Accept_op) (mset (map cqe_data qs)))"
      using D(3,4) by (simp add: core_inv_def)
    obtain M' where M': "handle_accept i 8 (mach D) = (Inr (), M')" "objects (workers M' ! i) (next_addr (workers (mach D) ! i)) \<noteq> None"
      using accept_succeeds [OF w D(2), of 8] by auto
    then have "dispatch hs wr clk i q [] (mach D) = (Inr (), M')" using D(4,5) by (simp add: dispatch_def)
    from cluster_step.Handle [OF D(2,3) this] M'(2) show ?thesis by (intro exI conjI) (assumption, simp)
  qed
  obtain q q' where q: "cs = [q, q']"
  proof -
    have "size (mset (map cqe_data cs)) = 2" using cs(1) by simp
    then show thesis using that by (cases cs; cases "tl cs") auto
  qed
  show ?thesis
  proof (cases "cqe_data q = Some Accept_op")
    case True
    then show ?thesis using accept [OF inv(1,2), of q "[q']"] inv(3) q cs(2) by auto
  next
    case False
    then have ops: "cqe_data q = Some Notification_op" "cqe_data q' = Some Accept_op"
      using cs(1) q by (auto simp: add_mset_eq_single add_eq_conv_ex)
    have "core_inv C i" using inv(1,2) by (simp add: cluster_inv_def)
    then have "worker_inv (workers (mach C) ! i) (mset (map cqe_data cs))" using inv(3) by (simp add: core_inv_def)
    then obtain M' where "dispatch hs wr clk i q [] (mach C) = (Inr (), M')"
      using notification_succeeds [OF _ ch] ops(1) by (fastforce simp: dispatch_def)
    from cluster_step.Handle [OF inv(2) _ this, of "[q']"] inv(3) q
    have step: "cluster_step hs wr clk C (C\<lparr>mach := M', todo := (todo C)(i := Some [q'])\<rparr>)" by simp
    let ?D = "C\<lparr>mach := M', todo := (todo C)(i := Some [q'])\<rparr>"
    have "\<exists>E a. cluster_step hs wr clk ?D E \<and> objects (workers (mach E) ! i) a \<noteq> None"
      by (rule accept [OF cluster_step_inv [OF step inv(1)]])
        (use step_fds [OF step inv(1), of i] inv(2) ops(2) cs(2) q in auto)
    with step show ?thesis by blast
  qed
qed

lemma first_client_reached:
  "\<exists>C\<^sub>0 E a. start_threads (\<lambda>i. Eventfd (7 + int i)) (\<lambda>_ _. 0) 2 two_cores = Some C\<^sub>0 \<and>
     (cluster_step (\<lambda>_. 0) (\<lambda>_. True) (\<lambda>_ _. 0))\<^sup>*\<^sup>* C\<^sub>0 E \<and> accepted (mach E) \<le> 3 \<and>
     objects (workers (mach E) ! 0) a \<noteq> None"
proof -
  let ?step = "cluster_step (\<lambda>_. 0) (\<lambda>_. True) (\<lambda>_ _. 0)"
  have fresh: "fresh (\<lambda>_. 0) 2 (topo two_cores)" using main_init_fresh [OF two_cores_init] by simp
  obtain C\<^sub>0 where C0: "start_threads (\<lambda>i. Eventfd (7 + int i)) (\<lambda>_ _. 0) 2 two_cores = Some C\<^sub>0" "length (workers (mach C\<^sub>0)) = 2"
    "todo C\<^sub>0 0 = Some []" using two_cores_start by blast
  have inv: "cluster_inv (\<lambda>_. 0) C\<^sub>0" "num_cores (topo (mnode (mach C\<^sub>0))) = 2" using start_inv [OF fresh C0(1)] by simp_all
  let ?w = "workers (mach C\<^sub>0) ! 0"
  have core: "core_inv C\<^sub>0 0" using inv by (simp add: cluster_inv_def)
  then have w: "worker_inv ?w {#}" using C0(3) by (simp add: core_inv_def)
  have ops: "image_mset user_data (in_flight (ring (ctx ?w))) = {# Some Accept_op, Some Notification_op #}"
    by (cases rule: start_worker [OF fresh C0(1), of 0]) (use C0(3) in \<open>simp_all add: new_worker_def\<close>)
  obtain cs w' where wait: "run_wait [all_ready] ?w = Some (cs, w')"
    and cs: "mset (map cqe_data cs) = {# Some Accept_op, Some Notification_op #}" "\<forall>q \<in> set cs. res q = 8"
    using wait_takes_all [OF w] ops by auto
  have pos: "0 < length (workers (mach C\<^sub>0))" "seen C\<^sub>0 0 \<le> wakeups (topo (mnode (mach C\<^sub>0))) 0"
    using C0(2) inv by (simp_all add: cluster_inv_def)
  have "\<exists>C\<^sub>1. ?step C\<^sub>0 C\<^sub>1 \<and> todo C\<^sub>1 0 = Some cs \<and> mnode (mach C\<^sub>1) = mnode (mach C\<^sub>0)"
    by (rule exI, rule conjI, rule cluster_step.Wait [OF pos(1) C0(3) wait order_refl pos(2)]) simp
  then obtain C\<^sub>1 where C1: "?step C\<^sub>0 C\<^sub>1" "todo C\<^sub>1 0 = Some cs" "mnode (mach C\<^sub>1) = mnode (mach C\<^sub>0)" by blast
  have ch: "channel_of (topo (mnode (mach C\<^sub>1))) 0 = []"
    using start_empty [OF fresh C0(1)] C1(3) by simp
  have inv1: "cluster_inv (\<lambda>_. 0) C\<^sub>1" "0 < length (workers (mach C\<^sub>1))"
    using cluster_step_inv [OF C1(1) inv(1)] step_fds [OF C1(1) inv(1)] C0(2) by simp_all
  obtain D E a where E: "?step\<^sup>=\<^sup>= C\<^sub>1 D" "?step D E" "objects (workers (mach E) ! 0) a \<noteq> None"
    using first_client [OF inv1 C1(2) cs ch] by blast
  have acc1: "\<exists>num. routed (mach C\<^sub>1) num \<and> accepted (mach C\<^sub>1) \<le> 1"
    using step_routed [OF C1(1) inv(1)] start_routed [OF fresh C0(1)] by fastforce
  have D: "?step\<^sup>*\<^sup>* C\<^sub>1 D" "cluster_inv (\<lambda>_. 0) D" "\<exists>num. routed (mach D) num \<and> accepted (mach D) \<le> 2"
    using E(1) acc1 cluster_step_inv inv1(1) step_routed [of _ _ _ C\<^sub>1 D] by (auto, fastforce+)
  have "accepted (mach E) \<le> 3" using D(3) step_routed [OF E(2) D(2)] by fastforce
  moreover have "?step\<^sup>*\<^sup>* C\<^sub>1 E" using D(1) E(2) by (rule rtranclp.rtrancl_into_rtrancl)
  with C1(1) have "?step\<^sup>*\<^sup>* C\<^sub>0 E" by (rule converse_rtranclp_into_rtranclp)
  ultimately show ?thesis using C0(1) E(3) by blast
qed

theorem reply_routing_witness:
  "\<exists>C\<^sub>0 C. start_threads (\<lambda>i. Eventfd (7 + int i)) (\<lambda>_ _. 0) 2 two_cores = Some C\<^sub>0 \<and>
     (cluster_step (\<lambda>_. 0) (\<lambda>_. True) (\<lambda>_ _. 0))\<^sup>*\<^sup>* C\<^sub>0 C \<and>
     (\<exists>a c. objects (workers (mach C) ! 0) a = Some c \<and>
        (\<forall>b d. objects (workers (mach C) ! 1) b = Some d \<longrightarrow> cid c \<noteq> cid d))"
proof -
  obtain C\<^sub>0 C a c where C: "start_threads (\<lambda>i. Eventfd (7 + int i)) (\<lambda>_ _. 0) 2 two_cores = Some C\<^sub>0"
    "(cluster_step (\<lambda>_. 0) (\<lambda>_. True) (\<lambda>_ _. 0))\<^sup>*\<^sup>* C\<^sub>0 C" "accepted (mach C) \<le> 3" "objects (workers (mach C) ! 0) a = Some c"
    using first_client_reached by blast
  have "accepted (mach C) < 2 ^ 32 - 1" using C(3) by simp
  note unique = conjunct1 [OF reply_routing [OF two_cores_init _ C(1,2) this refl], rule_format, of 0 1 a c]
  have "cid c \<noteq> cid d" if "objects (workers (mach C) ! 1) b = Some d" for b d
    using unique [OF _ _ _ C(4) that] by auto
  with C(1,2,4) show ?thesis by blast
qed

end
