(* ===== verification/Raft.thy ===== *)
theory Raft
  imports Quine_Prelude
begin

text \<open>
  The consensus module (\<open>src/consensus/consensus.hpp\<close>, \<open>src/consensus/raft.hpp\<close>): the interface
  \<open>ConsensusModule\<close> as a locale, and the skeleton \<open>RaftConsensus\<close>, a node with a role. No other part
  of the program creates one.
\<close>

section \<open>The node\<close>

datatype raft_state = FOLLOWER | CANDIDATE | LEADER

record raft =
  node_id :: nat
  rstate :: raft_state
  running :: bool

definition new_raft :: "nat \<Rightarrow> raft" where
  "new_raft n = \<lparr>node_id = n, rstate = FOLLOWER, running = False\<rparr>"

definition raft_start :: "raft \<Rightarrow> raft" where
  "raft_start r = r\<lparr>running := True\<rparr>"

definition raft_stop :: "raft \<Rightarrow> raft" where
  "raft_stop r = r\<lparr>running := False\<rparr>"

definition replicate_command :: "string \<Rightarrow> raft \<Rightarrow> bool \<times> raft" where
  "replicate_command cmd r = (if rstate r \<noteq> LEADER then (False, r) else (True, r))"

definition is_leader :: "raft \<Rightarrow> bool" where
  "is_leader r \<longleftrightarrow> rstate r = LEADER"

definition become_leader :: "raft \<Rightarrow> raft" where
  "become_leader r = r\<lparr>rstate := LEADER\<rparr>"

definition become_follower :: "raft \<Rightarrow> raft" where
  "become_follower r = r\<lparr>rstate := FOLLOWER\<rparr>"

lemmas raft_defs = new_raft_def raft_start_def raft_stop_def replicate_command_def is_leader_def
  become_leader_def become_follower_def

section \<open>The interface\<close>

text \<open>The answers to a log of commands.\<close>

fun answers :: "(string \<Rightarrow> 'm \<Rightarrow> bool \<times> 'm) \<Rightarrow> string list \<Rightarrow> 'm \<Rightarrow> bool list" where
  "answers repl [] m = []"
| "answers repl (c # cs) m = fst (repl c m) # answers repl cs (snd (repl c m))"

text \<open>What the comments of \<open>ConsensusModule\<close> promise: only a leader commits, and replicating is no election.\<close>

locale consensus_module =
  fixes start :: "'m \<Rightarrow> 'm" and stop :: "'m \<Rightarrow> 'm" and replicate_cmd :: "string \<Rightarrow> 'm \<Rightarrow> bool \<times> 'm"
    and leader :: "'m \<Rightarrow> bool"
  assumes commit_leader: "fst (replicate_cmd c m) \<Longrightarrow> leader m"
    and replicate_leader: "leader (snd (replicate_cmd c m)) = leader m"
    and start_leader: "leader (start m) = leader m"
    and stop_leader: "leader (stop m) = leader m"
begin

lemma follower_commits_nothing:
  assumes "\<not> leader m"
  shows "answers replicate_cmd cs m = replicate (length cs) False"
  using assms
proof (induction cs arbitrary: m)
  case (Cons c cs)
  then have "\<not> fst (replicate_cmd c m)" "\<not> leader (snd (replicate_cmd c m))"
    using commit_leader replicate_leader by blast+
  with Cons.IH show ?case by simp
qed simp

end

interpretation rc: consensus_module raft_start raft_stop replicate_command is_leader
  by unfold_locales (auto simp: raft_defs split: if_splits)

section \<open>Roles\<close>

datatype raft_op = Op_start | Op_stop | Op_replicate string | Op_leader | Op_follower

fun raft_step :: "raft_op \<Rightarrow> raft \<Rightarrow> raft" where
  "raft_step Op_start = raft_start"
| "raft_step Op_stop = raft_stop"
| "raft_step (Op_replicate c) = (\<lambda>r. snd (replicate_command c r))"
| "raft_step Op_leader = become_leader"
| "raft_step Op_follower = become_follower"

definition election :: "raft_op \<Rightarrow> bool" where
  "election op \<longleftrightarrow> op = Op_leader \<or> op = Op_follower"

lemma raft_leader_last:
  "is_leader (fold raft_step ops r) \<longleftrightarrow>
     (case find election (rev ops) of None \<Rightarrow> is_leader r | Some op \<Rightarrow> op = Op_leader)"
proof (induction ops rule: rev_induct)
  case (snoc op ops)
  then show ?case by (cases op) (auto simp: election_def raft_defs)
qed simp

text \<open>
  A new node commits a command exactly when the last election it took part in made it the
  leader, whatever other calls were made in between: a node that is not the leader commits no command
  of any log, and a leader that was stopped, or never started, goes on to commit.
\<close>

theorem raft_commit:
  "(fst (replicate_command c (fold raft_step ops (new_raft n))) \<longleftrightarrow> find election (rev ops) = Some Op_leader) \<and>
   answers replicate_command cs (become_follower r) = replicate (length cs) False \<and>
   fst (replicate_command c (raft_stop (become_leader r)))"
proof -
  have "fst (replicate_command c r) \<longleftrightarrow> is_leader r" for r by (simp add: raft_defs)
  then have "fst (replicate_command c (fold raft_step ops (new_raft n))) \<longleftrightarrow> find election (rev ops) = Some Op_leader"
    using raft_leader_last [of ops "new_raft n"] by (auto simp: raft_defs split: option.splits)
  then show ?thesis using rc.follower_commits_nothing [of "become_follower r" cs] by (simp add: raft_defs)
qed

end
