(* ===== verification/Command_Laws.thy ===== *)
theory Command_Laws
  imports Registry
begin

text \<open>
  Laws a client of the server relies on, over the execution of commands by the core that owns the
  key: the type of a value is protected, an expired key is as good as absent, and what was written
  is read back.
\<close>

section \<open>One command on the owner of its key\<close>

text \<open>A node on which the owner of \<open>k\<close> may execute commands on \<open>k\<close>.\<close>

definition serves :: "(string \<Rightarrow> nat) \<Rightarrow> nat \<Rightarrow> string \<Rightarrow> node \<Rightarrow> bool" where
  "serves hs core k nd \<longleftrightarrow>
     topo_inv hs (topo nd) \<and> get_target_core (topo nd) k = core \<and> small_slot (topo_db (topo nd) k)"

abbreviation node_db :: "node \<Rightarrow> db" where
  "node_db nd \<equiv> topo_db (topo nd)"

lemma target_determined:
  assumes "topo_inv hs t" "topo_inv hs' t'" "num_cores t' = num_cores t"
  shows "get_target_core t' k = get_target_core t k"
  using assms by (simp add: topo_inv_def get_target_core_def)

lemma execute_serves:
  assumes "c \<noteq> SaveCommand" "command_error c args = None" "args ! 1 = k" "serves hs core k nd"
    and "command_spec clk c args (node_db nd k) = (r, s)"
  obtains (spec) nd' where "execute hs wr clk c core conn args nd = (r, nd')" "topo_inv hs (topo nd')"
      "get_target_core (topo nd') k = core" "node_db nd' = (node_db nd)(k := s)"
    | (full) nd' where "execute hs wr clk c core conn args nd = (Inl (Runtime_error ''HashMap is full''), nd')"
      "may_fill clk c (node_db nd k)" "node_db nd' = (node_db nd)(k := None)"
proof -
  note sv = assms(4) [unfolded serves_def]
  show thesis
  proof (rule execute_owner [OF assms(1-3), of hs nd core wr clk conn])
    fix r' t'
    assume e: "execute hs wr clk c core conn args nd = (r', nd\<lparr>topo := t'\<rparr>)" "topo_inv hs t'"
      "num_cores t' = num_cores (topo nd)" "\<forall>j. j \<noteq> k \<longrightarrow> topo_db t' j = topo_db (topo nd) j"
      "(r', topo_db t' k) = command_spec clk c args (topo_db (topo nd) k) \<or>
       may_fill clk c (topo_db (topo nd) k) \<and> r' = Inl (Runtime_error ''HashMap is full'') \<and> topo_db t' k = None"
    have other: "topo_db t' = (node_db nd)(k := topo_db t' k)" using e(4) by (auto simp: fun_eq_iff)
    have "get_target_core t' k = core" using target_determined [OF _ e(2,3)] sv by blast
    then show thesis using e other assms(5) spec [of "nd\<lparr>topo := t'\<rparr>"] full [of "nd\<lparr>topo := t'\<rparr>"] by force
  qed (use sv in auto)
qed

section \<open>Types\<close>

text \<open>The type of value a command works on; \<open>None\<close> for commands that work on any.\<close>

fun command_type :: "command \<Rightarrow> value_type option" where
  "command_type GetCommand = Some STRING"
| "command_type LPushCommand = Some LIST"
| "command_type LPopCommand = Some LIST"
| "command_type LRangeCommand = Some LIST"
| "command_type RPushCommand = Some LIST"
| "command_type RPopCommand = Some LIST"
| "command_type LLenCommand = Some LIST"
| "command_type SAddCommand = Some SET"
| "command_type SMembersCommand = Some SET"
| "command_type SCardCommand = Some SET"
| "command_type SRemCommand = Some SET"
| "command_type HSetCommand = Some HASH"
| "command_type HGetCommand = Some HASH"
| "command_type HGetAllCommand = Some HASH"
| "command_type HDelCommand = Some HASH"
| "command_type HLenCommand = Some HASH"
| "command_type ZAddCommand = Some ZSET"
| "command_type ZRangeCommand = Some ZSET"
| "command_type ZRemCommand = Some ZSET"
| "command_type ZCardCommand = Some ZSET"
| "command_type ZScoreCommand = Some ZSET"
| "command_type _ = None"

text \<open>The selectors of the value variant.\<close>

lemma selector_types:
  "as_string v = None \<longleftrightarrow> get_type v \<noteq> STRING" "as_list v = None \<longleftrightarrow> get_type v \<noteq> LIST"
  "as_set v = None \<longleftrightarrow> get_type v \<noteq> SET" "as_hash v = None \<longleftrightarrow> get_type v \<noteq> HASH"
  "as_zset v = None \<longleftrightarrow> get_type v \<noteq> ZSET"
  by (cases v; simp)+

lemmas command_spec_defs = set_spec_def get_spec_def del_spec_def lpush_spec_def rpush_spec_def lpop_spec_def
  rpop_spec_def llen_spec_def lrange_spec_def sadd_spec_def smembers_spec_def srem_spec_def scard_spec_def
  hset_spec_def hget_spec_def hgetall_spec_def hdel_spec_def hlen_spec_def zadd_spec_def zrange_spec_def
  zrem_spec_def zcard_spec_def zscore_spec_def

lemma spec_wrong_type:
  assumes "get_if v = None" "expire_slot now (Some (v, e)) = Some (v, e)"
  shows "spec_existing now get_if mk missing h (Some (v, e)) = (Inr wrong_type, Some (v, e))"
    "spec_upsert now get_if mk fresh h' (Some (v, e)) = (Inr wrong_type, Some (v, e))"
  using assms by (simp_all add: spec_existing_def spec_upsert_def)

lemma command_spec_wrong_type:
  assumes "expire_slot (clk 0) (Some (v, e)) = Some (v, e)" "command_type c = Some ty" "ty \<noteq> get_type v"
  shows "command_spec clk c args (Some (v, e)) = (Inr wrong_type, Some (v, e))"
  using assms(2,3) by (cases c) (auto simp only: command_type.simps option.inject option.distinct command_spec.simps command_spec_defs
      selector_types intro!: spec_wrong_type [OF _ assms(1)])

lemma spec_keeps_type:
  assumes "expire_slot now (Some (v, e)) = Some (v, e)" "\<And>x. get_if v = Some x \<Longrightarrow> \<forall>y. get_type (mk y) = get_type v"
  shows "\<exists>r v'. spec_existing now get_if mk missing h (Some (v, e)) = (r, Some (v', e)) \<and> get_type v' = get_type v"
    "\<exists>r v'. spec_upsert now get_if mk fresh h' (Some (v, e)) = (r, Some (v', e)) \<and> get_type v' = get_type v"
  using assms by (auto simp: spec_existing_def spec_upsert_def split: option.splits)

lemma command_spec_keeps_type:
  assumes "expire_slot (clk 0) (Some (v, e)) = Some (v, e)" "c \<notin> {SetCommand, DelCommand, SaveCommand}"
  shows "\<exists>r v' e'. command_spec clk c args (Some (v, e)) = (r, Some (v', e')) \<and> get_type v' = get_type v \<and>
    (c \<noteq> ExpireCommand \<longrightarrow> e' = e)"
proof (cases "command_type c")
  case None
  then have "c = ExpireCommand \<or> c = TtlCommand" using assms(2) by (cases c) simp_all
  then show ?thesis using assms(1) by (auto simp: expire_spec_def ttl_spec_def split: sum.splits)
next
  case (Some ty)
  have sel: "as_string v = Some x1 \<Longrightarrow> get_type v = STRING" "as_list v = Some x2 \<Longrightarrow> get_type v = LIST"
    "as_set v = Some x3 \<Longrightarrow> get_type v = SET" "as_hash v = Some x4 \<Longrightarrow> get_type v = HASH"
    "as_zset v = Some x5 \<Longrightarrow> get_type v = ZSET" for x1 x2 x3 x4 x5
    by (cases v; simp)+
  have "\<exists>r v'. command_spec clk c args (Some (v, e)) = (r, Some (v', e)) \<and> get_type v' = get_type v"
    using Some by (cases c; simp only: command_type.simps option.distinct command_spec.simps command_spec_defs;
        (intro spec_keeps_type [OF assms(1)])?) (auto dest: sel)
  then show ?thesis by blast
qed


text \<open>A node that holds one key.\<close>

lemma one_key_node:
  assumes "value_ok v" "small_slot (Some (v, e))"
  obtains nd where "serves hs 0 k nd" "node_db nd = [k \<mapsto> (v, e)]"
proof -
  let ?t = "new_topology 1"
  have t: "topo_inv hs ?t" "topo_db ?t = Map.empty" by (simp_all add: topo_inv_new topo_db_new)
  have own: "get_target_core ?t k = 0" using target_in_range [OF t(1), of k] by (simp add: new_topology_def)
  obtain sh where sh: "shard_inv hs sh" "shard_abs sh = [k \<mapsto> (v, None)]"
    by (rule shard_set_new [OF assms(1), of hs k])
  obtain sh' where sh': "shard_inv hs sh'" "shard_abs sh' = [k \<mapsto> (v, e)]"
    using ks.set_exp_law [OF sh(1), of k v None] sh by (cases e) auto
  let ?nd = "\<lparr>topo = ?t\<lparr>shards := (shards ?t)[0 := sh']\<rparr>, files = Map.empty\<rparr>"
  have same: "shard_abs sh' j = shard_abs (shards ?t ! 0) j" if "j \<noteq> k" for j
    using that sh'(2) by (simp add: new_topology_def)
  note upd = topo_shard_update [OF t(1) own [symmetric] sh'(1) same]
  have "node_db ?nd = [k \<mapsto> (v, e)]" using upd(2) t(2) sh'(2) by simp
  moreover have "serves hs 0 k ?nd"
    using upd(1) own assms(2) calculation by (simp add: serves_def get_target_core_def)
  ultimately show ?thesis using that by blast
qed


section \<open>Expiration\<close>

lemma command_spec_expired:
  assumes "expire_slot (clk 0) s = None" "c \<notin> {DelCommand, SaveCommand}"
  shows "command_spec clk c args s = command_spec clk c args None"
  using assms
  by (cases c) (simp_all add: command_spec_defs expire_spec_def ttl_spec_def spec_existing_def spec_upsert_def)

text \<open>
  C16: An expired key is as good as absent: every command but DEL replies on it, and leaves it, as on
  a node that never held the key, unless one of the two hash maps is full. DEL still counts it as
  deleted.
\<close>

theorem expired_as_absent:
  assumes "c \<notin> {DelCommand, SaveCommand}" "command_error c args = None" "args ! 1 = k"
    and "serves hs core k nd" "expire_slot (clk 0) (node_db nd k) = None" "node_db nd k \<noteq> None"
    and "serves hs' core' k nd0" "node_db nd0 k = None"
  shows "(\<exists>r nd' r0 nd0'. execute hs wr clk c core conn args nd = (r, nd') \<and>
      execute hs' wr clk c core' conn' args nd0 = (r0, nd0') \<and>
      (r = r0 \<and> node_db nd' k = node_db nd0' k \<or> Inl (Runtime_error ''HashMap is full'') \<in> {r, r0})) \<and>
    fst (execute hs wr clk DelCommand core conn [''DEL'', k] nd) = Inr (int_reply 1)"
proof
  obtain r s where s: "command_spec clk c args None = (r, s)" by fastforce
  then have s': "command_spec clk c args (node_db nd k) = (r, s)" "command_spec clk c args (node_db nd0 k) = (r, s)"
    using command_spec_expired [where clk = clk, OF assms(5,1)] assms(8) by simp_all
  from assms(1) have c: "c \<noteq> SaveCommand" by simp
  have 1: "\<exists>r1 nd'. execute hs wr clk c core conn args nd = (r1, nd') \<and>
      (r1 = r \<and> node_db nd' k = s \<or> r1 = Inl (Runtime_error ''HashMap is full''))"
    by (rule execute_serves [OF c assms(2-4) s'(1), where wr = wr and conn = conn]) auto
  have 2: "\<exists>r1 nd'. execute hs' wr clk c core' conn' args nd0 = (r1, nd') \<and>
      (r1 = r \<and> node_db nd' k = s \<or> r1 = Inl (Runtime_error ''HashMap is full''))"
    by (rule execute_serves [OF c assms(2,3,7) s'(2), where wr = wr and conn = conn']) auto
  from 1 2 show "\<exists>r nd' r0 nd0'. execute hs wr clk c core conn args nd = (r, nd') \<and>
      execute hs' wr clk c core' conn' args nd0 = (r0, nd0') \<and>
      (r = r0 \<and> node_db nd' k = node_db nd0' k \<or> Inl (Runtime_error ''HashMap is full'') \<in> {r, r0})"
    by (metis insert_iff)
  have del: "command_spec clk DelCommand [''DEL'', k] (node_db nd k) = (Inr (int_reply 1), None)"
    "command_error DelCommand [''DEL'', k] = None"
    using assms(6) by (auto simp: del_spec_def arity_error_def)
  show "fst (execute hs wr clk DelCommand core conn [''DEL'', k] nd) = Inr (int_reply 1)"
    by (rule execute_serves [OF _ del(2) _ assms(4) del(1), where wr = wr and conn = conn])
      (auto simp: may_fill_def)
qed

theorem expired_as_absent_witness:
  "\<exists>nd r nd'. node_db nd = [''k'' \<mapsto> (VList [''a''], Some 9)] \<and>
     execute (\<lambda>_. 0) (\<lambda>_. True) (\<lambda>_. 10) GetCommand 0 1 [''GET'', ''k''] nd = (r, nd') \<and>
     (r = Inr null_bulk \<and> node_db nd' ''k'' = None \<or> r = Inl (Runtime_error ''HashMap is full'')) \<and>
     fst (execute (\<lambda>_. 0) (\<lambda>_. True) (\<lambda>_. 10) DelCommand 0 1 [''DEL'', ''k''] nd) = Inr (int_reply 1)"
proof -
  have "small_slot (Some (VList [''a''], Some 9))" by (simp add: small_slot_def slot_holds_def)
  then obtain nd where nd: "serves (\<lambda>_. 0) 0 ''k'' nd" "node_db nd = [''k'' \<mapsto> (VList [''a''], Some 9)]"
    using one_key_node [of "VList [''a'']" "Some 9" "\<lambda>_. 0" "''k''"] by auto
  let ?nd0 = "\<lparr>topo = new_topology 1, files = Map.empty\<rparr>"
  have nd0: "serves (\<lambda>_. 0) (get_target_core (topo ?nd0) ''k'') ''k'' ?nd0" "node_db ?nd0 ''k'' = None"
    by (simp_all add: serves_def topo_inv_new topo_db_new)
  have err: "command_error GetCommand [''GET'', ''k''] = None" by (simp add: arity_error_def)
  have spec: "command_spec (\<lambda>_. 10) GetCommand [''GET'', ''k''] (node_db ?nd0 ''k'') = (Inr null_bulk, None)"
    using nd0(2) by (simp add: get_spec_def spec_existing_def)
  obtain nd0' where e0: "execute (\<lambda>_. 0) (\<lambda>_. True) (\<lambda>_. 10) GetCommand (get_target_core (topo ?nd0) ''k'') 1 [''GET'', ''k''] ?nd0 =
      (Inr null_bulk, nd0')" "node_db nd0' ''k'' = None"
    by (rule execute_serves [OF _ err _ nd0(1) spec, where wr = "\<lambda>_. True" and conn = 1]) (auto simp: may_fill_def)
  show ?thesis
    using expired_as_absent [OF _ err _ nd(1) _ _ nd0, where clk = "\<lambda>_. 10" and wr = "\<lambda>_. True" and conn = 1 and conn' = 1]
      nd(2) e0 by (intro exI [of _ nd]) auto
qed

text \<open>
  C17: EXPIRE and TTL fit together: after \<open>EXPIRE k s\<close> at time \<open>T\<close>, which replies 1 and keeps the value, a
  TTL at a later time replies the whole seconds that remain until \<open>T + 1000 s\<close> milliseconds, and -2
  once this is past; when it is past at the lookup, the key is removed.
\<close>

theorem expire_ttl:
  assumes "serves hs core k nd" "node_db nd k = Some (v, e)" "expire_slot (clk 0) (Some (v, e)) = Some (v, e)"
    and "stol arg = Inr s" "0 \<le> s" "deadline = clk 1 + s * 1000" "deadline < 2 ^ 63"
    and "0 \<le> clk 1" "clk 1 \<le> clk' 0" "clk' 0 \<le> clk' 1" "clk' 1 < 2 ^ 63"
  shows "\<exists>nd1 nd2. execute hs wr clk ExpireCommand core conn [''EXPIRE'', k, arg] nd = (Inr (int_reply 1), nd1) \<and>
    node_db nd1 = (node_db nd)(k \<mapsto> (v, Some deadline)) \<and>
    execute hs wr clk' TtlCommand core conn [''TTL'', k] nd1 =
      (Inr (int_reply (if deadline < clk' 1 then - 2 else (deadline - clk' 1) div 1000)), nd2) \<and>
    node_db nd2 = (node_db nd)(k := if deadline < clk' 0 then None else Some (v, Some deadline))"
proof -
  have small: "small_slot (Some (v, x))" for x
    using assms(1,2) by (auto simp: serves_def small_slot_def slot_holds_def)
  have i64: "in_i64 (s * 1000)" "in_i64 (clk 1 + s * 1000)" "in_i64 (deadline - clk' 1)"
    using assms(5-11) by (simp_all add: in_i64_def)
  have spec1: "command_spec clk ExpireCommand [''EXPIRE'', k, arg] (node_db nd k) = (Inr (int_reply 1), Some (v, Some deadline))"
    using assms(2-4,6) i64 by (simp add: expire_spec_def)
  have err1: "command_error ExpireCommand [''EXPIRE'', k, arg] = None" using assms(4) by (simp add: expire_error_def)
  obtain nd1 where nd1: "execute hs wr clk ExpireCommand core conn [''EXPIRE'', k, arg] nd = (Inr (int_reply 1), nd1)"
    "topo_inv hs (topo nd1)" "get_target_core (topo nd1) k = core" "node_db nd1 = (node_db nd)(k \<mapsto> (v, Some deadline))"
    by (rule execute_serves [OF _ err1 _ assms(1) spec1, where wr = wr and conn = conn]) (auto simp: may_fill_def)
  then have sv: "serves hs core k nd1" using small by (simp add: serves_def)
  have err2: "command_error TtlCommand [''TTL'', k] = None" by (simp add: arity_error_def)
  have spec2: "command_spec clk' TtlCommand [''TTL'', k] (node_db nd1 k) =
      (Inr (int_reply (if deadline < clk' 1 then - 2 else (deadline - clk' 1) div 1000)),
       if deadline < clk' 0 then None else Some (v, Some deadline))"
    using nd1(4) i64(3) assms(5-10) by (auto simp: ttl_spec_def)
  show ?thesis
    by (rule execute_serves [OF _ err2 _ sv spec2, where wr = wr and conn = conn])
      (use nd1 in \<open>auto simp: may_fill_def\<close>)
qed

theorem expire_ttl_witness:
  "\<exists>nd nd1 nd2. node_db nd = [''k'' \<mapsto> (VString ''v'', None)] \<and>
     execute (\<lambda>_. 0) (\<lambda>_. True) (\<lambda>_. 500) ExpireCommand 0 1 [''EXPIRE'', ''k'', nat_str 10] nd = (Inr (int_reply 1), nd1) \<and>
     execute (\<lambda>_. 0) (\<lambda>_. True) (\<lambda>_. 2600) TtlCommand 0 1 [''TTL'', ''k''] nd1 = (Inr (int_reply 7), nd2)"
proof -
  have "small_slot (Some (VString ''v'', None))" by (simp add: small_slot_def slot_holds_def)
  then obtain nd where nd: "serves (\<lambda>_. 0) 0 ''k'' nd" "node_db nd = [''k'' \<mapsto> (VString ''v'', None)]"
    using one_key_node [of "VString ''v''" None "\<lambda>_. 0" "''k''"] by auto
  have "stol (nat_str 10) = Inr 10" by code_simp
  then show ?thesis
    using expire_ttl [OF nd(1), where e = None and v = "VString ''v''" and clk = "\<lambda>_. 500" and clk' = "\<lambda>_. 2600" and arg = "nat_str 10"
        and s = 10 and deadline = 10500 and wr = "\<lambda>_. True" and conn = 1] nd(2)
    by auto
qed

section \<open>What was written is read back\<close>

text \<open>A key that holds no value yet, or holds the container \<open>x\<close> at the times of two commands.\<close>

definition holds_at :: "int \<Rightarrow> int \<Rightarrow> ('a \<Rightarrow> cvalue) \<Rightarrow> 'a \<Rightarrow> 'a \<Rightarrow> slot \<Rightarrow> bool" where
  "holds_at now now' mk fresh x s \<longleftrightarrow>
     s = None \<and> x = fresh \<or>
     (\<exists>e. s = Some (mk x, e) \<and> expire_slot now s = s \<and> expire_slot now' s = s)"

text \<open>An upsert leaves the new container, and the time it is valid, for a later reader.\<close>

lemma upsert_then_read:
  assumes "holds_at now now' mk fresh x s" "\<And>y. get_if (mk y) = Some y"
  shows "\<exists>e. spec_upsert now get_if mk fresh h s = (fst (h x), Some (mk (snd (h x)), e)) \<and>
    spec_existing now' get_if mk missing g (Some (mk (snd (h x)), e)) =
      (fst (g (snd (h x))), Some (case snd (g (snd (h x))) of None \<Rightarrow> mk (snd (h x)) | Some y \<Rightarrow> mk y, e))"
  using assms
  by (auto simp: holds_at_def spec_upsert_def spec_existing_def expire_slot_def split: option.splits if_splits)

text \<open>Two commands on one key, the first of which may find the hash map full.\<close>

lemma write_then_read:
  assumes "serves hs core k nd"
    and w: "w \<noteq> SaveCommand" "command_error w (n1 # k # as) = None"
      "command_spec clk w (n1 # k # as) (node_db nd k) = (Inr reply1, s1)" "small_slot s1"
    and r: "r \<noteq> SaveCommand" "command_error r (n2 # k # bs) = None"
      "command_spec clk' r (n2 # k # bs) s1 = (reply2, s2)" "\<And>s. \<not> may_fill clk' r s"
  shows "\<exists>nd1. execute hs wr clk w core conn (n1 # k # as) nd = (Inl (Runtime_error ''HashMap is full''), nd1) \<or>
    execute hs wr clk w core conn (n1 # k # as) nd = (Inr reply1, nd1) \<and>
    fst (execute hs wr clk' r core conn' (n2 # k # bs) nd1) = reply2"
proof -
  have k: "(n1 # k # as) ! 1 = k" "(n2 # k # bs) ! 1 = k" by simp_all
  show ?thesis
  proof (rule execute_serves [OF w(1,2) k(1) assms(1) w(3), where wr = wr and conn = conn])
    fix nd1
    assume 1: "execute hs wr clk w core conn (n1 # k # as) nd = (Inr reply1, nd1)" "topo_inv hs (topo nd1)"
      "get_target_core (topo nd1) k = core" "node_db nd1 = (node_db nd)(k := s1)"
    then have sv: "serves hs core k nd1" using w(4) by (simp add: serves_def)
    have spec: "command_spec clk' r (n2 # k # bs) (node_db nd1 k) = (reply2, s2)" using 1(4) r(3) by simp
    have "fst (execute hs wr clk' r core conn' (n2 # k # bs) nd1) = reply2"
      by (rule execute_serves [OF r(1,2) k(2) sv spec, where wr = wr and conn = conn']) (use r(4) in auto)
    with 1(1) show ?thesis by blast
  qed blast
qed

lemma index_slice_all: "index_slice 0 (- 1) xs = xs"
  by (cases xs rule: rev_cases) (simp_all add: index_slice_def clamp_index_def Let_def nat_add_distrib)

lemma range_texts: "stoi ''0'' = Inr 0" "stoi ''-1'' = Inr (- 1)"
  by code_simp+

text \<open>
  C18: A list is read back as it was pushed: after RPUSH or LPUSH of the elements \<open>xs\<close> on a key that is
  absent or holds the list \<open>ys\<close>, which replies the new length, LRANGE from 0 to -1 replies the whole
  list, in which RPUSH put \<open>xs\<close> behind and LPUSH put them in reverse order in front. The only other
  outcome is a full hash map.
\<close>

theorem push_range:
  assumes "serves hs core k nd" "holds_at (clk 0) (clk' 0) VList [] ys (node_db nd k)"
    and "c \<in> {LPushCommand, RPushCommand}" "xs \<noteq> []" "length xs + length ys < 2 ^ 31"
    and "zs = (if c = RPushCommand then ys @ xs else rev xs @ ys)"
  shows "\<exists>nd1. execute hs wr clk c core conn (command_name c # k # xs) nd = (Inl (Runtime_error ''HashMap is full''), nd1) \<or>
    execute hs wr clk c core conn (command_name c # k # xs) nd = (Inr (int_reply (int (length zs))), nd1) \<and>
    fst (execute hs wr clk' LRangeCommand core conn' [''LRANGE'', k, ''0'', ''-1''] nd1) =
      Inr (array_reply (int (length zs)) zs)"
proof -
  let ?h = "\<lambda>list. (Inr (int_reply (int (length xs + length list))),
      if c = RPushCommand then list @ xs else rev xs @ list) :: (fault + string) \<times> string list"
  let ?g = "\<lambda>list. (Inr (array_reply (int (length list)) list), None) :: (fault + string) \<times> string list option"
  obtain e where e: "spec_upsert (clk 0) as_list VList [] ?h (node_db nd k) = (fst (?h ys), Some (VList zs, e))"
    "spec_existing (clk' 0) as_list VList empty_array ?g (Some (VList zs, e)) = (fst (?g zs), Some (VList zs, e))"
    using upsert_then_read [OF assms(2), of as_list ?h empty_array ?g] assms(6) by auto
  have "command_spec clk c (command_name c # k # xs) (node_db nd k) =
      (Inr (int_reply (int (length zs))), Some (VList zs, e))"
    using e(1) assms(3,6) by (auto simp: lpush_spec_def rpush_spec_def add.commute)
  moreover have "command_spec clk' LRangeCommand (''LRANGE'' # k # [''0'', ''-1'']) (Some (VList zs, e)) =
      (Inr (array_reply (int (length zs)) zs), Some (VList zs, e))"
    using e(2) by (simp add: lrange_spec_def range_texts index_slice_all)
  moreover have "small_slot (Some (VList zs, e))" using assms(5,6) by (simp add: small_slot_def slot_holds_def)
  moreover have "command_error c (command_name c # k # xs) = None" "c \<noteq> SaveCommand"
    using assms(3,4) by (auto simp: arity_error_def neq_Nil_conv)
  ultimately show ?thesis
    by (intro write_then_read [OF assms(1)]) (auto simp: arity_error_def may_fill_def)
qed

theorem push_range_witness:
  "\<exists>nd nd1. node_db nd = [''k'' \<mapsto> (VList [''a''], None)] \<and>
     (execute (\<lambda>_. 0) (\<lambda>_. True) (\<lambda>_. 0) LPushCommand 0 1 [''LPUSH'', ''k'', ''b'', ''c''] nd =
        (Inl (Runtime_error ''HashMap is full''), nd1) \<or>
      execute (\<lambda>_. 0) (\<lambda>_. True) (\<lambda>_. 0) LPushCommand 0 1 [''LPUSH'', ''k'', ''b'', ''c''] nd = (Inr (int_reply 3), nd1) \<and>
      fst (execute (\<lambda>_. 0) (\<lambda>_. True) (\<lambda>_. 0) LRangeCommand 0 1 [''LRANGE'', ''k'', ''0'', ''-1''] nd1) =
        Inr (array_reply 3 [''c'', ''b'', ''a'']))"
proof -
  have "small_slot (Some (VList [''a''], None))" by (simp add: small_slot_def slot_holds_def)
  then obtain nd where nd: "serves (\<lambda>_. 0) 0 ''k'' nd" "node_db nd = [''k'' \<mapsto> (VList [''a''], None)]"
    using one_key_node [of "VList [''a'']" None "\<lambda>_. 0" "''k''"] by auto
  then have "holds_at 0 0 VList [] [''a''] (node_db nd ''k'')" by (simp add: holds_at_def)
  with nd show ?thesis
    using push_range [of "\<lambda>_. 0" 0 "''k''" nd "\<lambda>_. 0" "\<lambda>_. 0" "[''a'']" LPushCommand "[''b'', ''c'']" "[''c'', ''b'', ''a'']" "\<lambda>_. True" 1 1]
    by - (rule exI [of _ nd], simp del: execute.simps)
qed

lemma served_value_ok:
  assumes "serves hs core k nd" "node_db nd k = Some (v, e)"
  shows "value_ok v"
proof -
  let ?t = "topo nd"
  have "shard_inv hs (shards ?t ! get_target_core ?t k)" "shard_abs (shards ?t ! get_target_core ?t k) k = Some (v, e)"
    using assms target_in_range [of hs ?t k] by (auto simp: serves_def topo_inv_def topo_db_def)
  then show ?thesis by (auto simp: shard_inv_def shard_abs_def ran_def split: option.splits)
qed

text \<open>
  C19: A field of a hash is read back as it was written: after HSET of one field on a key that is
  absent or holds the hash \<open>h\<close>, which replies whether the field is new, HGET of that field replies the
  value, and HGET of any other field replies what it did before. The only other outcome is a full
  hash map.
\<close>

theorem hset_hget:
  assumes "serves hs core k nd" "holds_at (clk 0) (clk' 0) VHash [] h (node_db nd k)"
    and "reply = (case (if g = f then Some v else map_of h g) of None \<Rightarrow> null_bulk | Some x \<Rightarrow> bulk x)"
  shows "\<exists>nd1. execute hs wr clk HSetCommand core conn [''HSET'', k, f, v] nd = (Inl (Runtime_error ''HashMap is full''), nd1) \<or>
    execute hs wr clk HSetCommand core conn [''HSET'', k, f, v] nd = (Inr (int_reply (if map_of h f = None then 1 else 0)), nd1) \<and>
    fst (execute hs wr clk' HGetCommand core conn' [''HGET'', k, g] nd1) = Inr reply"
proof -
  have sorted: "omap_sorted h"
    using assms(1,2) served_value_ok [OF assms(1)] by (auto simp: holds_at_def)
  let ?h = "\<lambda>h. (Inr (int_reply (int (card (hash_fields [(f, v)] - hash_fields h)))),
      fold (\<lambda>(f, v) h. omap_put h f v) [(f, v)] h) :: (fault + string) \<times> (string \<times> string) list"
  let ?g = "\<lambda>h. (Inr (case map_of h g of None \<Rightarrow> null_bulk | Some v \<Rightarrow> bulk v), None) ::
      (fault + string) \<times> (string \<times> string) list option"
  let ?h' = "omap_put h f v"
  obtain e where e: "spec_upsert (clk 0) as_hash VHash [] ?h (node_db nd k) = (fst (?h h), Some (VHash ?h', e))"
    "spec_existing (clk' 0) as_hash VHash null_bulk ?g (Some (VHash ?h', e)) = (fst (?g ?h'), Some (VHash ?h', e))"
    using upsert_then_read [OF assms(2), of as_hash ?h null_bulk ?g] by auto
  have "fst (?h h) = Inr (int_reply (if map_of h f = None then 1 else 0))"
    by (cases "f \<in> hash_fields h") (simp_all add: map_of_eq_None_iff insert_Diff_if)
  with e(1) have "command_spec clk HSetCommand (''HSET'' # k # [f, v]) (node_db nd k) =
      (Inr (int_reply (if map_of h f = None then 1 else 0)), Some (VHash ?h', e))"
    by (simp add: hset_spec_def)
  moreover have "map_of ?h' g = (if g = f then Some v else map_of h g)"
    using omap_find_put [OF sorted, of f v] omap_find_map_of [OF sorted] omap_find_map_of [OF omap_sorted_put [OF sorted]]
    by (metis fun_upd_apply)
  then have "command_spec clk' HGetCommand (''HGET'' # k # [g]) (Some (VHash ?h', e)) = (Inr reply, Some (VHash ?h', e))"
    using e(2) assms(3) by (simp add: hget_spec_def)
  moreover have "small_slot (Some (VHash ?h', e))" by (simp add: small_slot_def slot_holds_def)
  ultimately show ?thesis
    by (intro write_then_read [OF assms(1)]) (auto simp: arity_error_def may_fill_def)
qed

theorem hset_hget_witness:
  "\<exists>nd nd1. node_db nd = [''k'' \<mapsto> (VHash [(''a'', ''1'')], None)] \<and>
     (execute (\<lambda>_. 0) (\<lambda>_. True) (\<lambda>_. 0) HSetCommand 0 1 [''HSET'', ''k'', ''b'', ''2''] nd =
        (Inl (Runtime_error ''HashMap is full''), nd1) \<or>
      execute (\<lambda>_. 0) (\<lambda>_. True) (\<lambda>_. 0) HSetCommand 0 1 [''HSET'', ''k'', ''b'', ''2''] nd = (Inr (int_reply 1), nd1) \<and>
      fst (execute (\<lambda>_. 0) (\<lambda>_. True) (\<lambda>_. 0) HGetCommand 0 1 [''HGET'', ''k'', ''a''] nd1) = Inr (bulk ''1''))"
proof -
  have "small_slot (Some (VHash [(''a'', ''1'')], None))" by (simp add: small_slot_def slot_holds_def)
  then obtain nd where nd: "serves (\<lambda>_. 0) 0 ''k'' nd" "node_db nd = [''k'' \<mapsto> (VHash [(''a'', ''1'')], None)]"
    using one_key_node [of "VHash [(''a'', ''1'')]" None "\<lambda>_. 0" "''k''"] by auto
  then have "holds_at 0 0 VHash [] [(''a'', ''1'')] (node_db nd ''k'')" by (simp add: holds_at_def)
  with nd show ?thesis
    using hset_hget [of "\<lambda>_. 0" 0 "''k''" nd "\<lambda>_. 0" "\<lambda>_. 0" "[(''a'', ''1'')]" "bulk ''1''" "''a''" "''b''" "''2''" "\<lambda>_. True" 1 1]
    by - (rule exI [of _ nd], simp del: execute.simps)
qed

end
