(* ===== verification/Crc16.thy ===== *)
theory Crc16
  imports Router
begin

text \<open>
  The checksum of \<open>src/core/router.cpp\<close> against its mathematical definition. The comment calls it the
  standard CRC16 (XMODEM): the remainder of the key, read as a polynomial over two elements and
  multiplied by \<open>x ^ 16\<close>, modulo \<open>x ^ 16 + x ^ 12 + x ^ 5 + 1\<close>. Polynomials are natural numbers, whose
  bits are the coefficients, so addition is \<open>XOR\<close>.
\<close>

unbundle bit_operations_syntax

section \<open>Polynomials over two elements\<close>

text \<open>The product of two polynomials.\<close>

fun clmul :: "nat \<Rightarrow> nat \<Rightarrow> nat" where
  "clmul q p = (if q = 0 then 0 else (if odd q then p else 0) XOR push_bit 1 (clmul (q div 2) p))"

declare clmul.simps [simp del]

lemma clmul_0 [simp]: "clmul 0 p = 0"
  by (simp add: clmul.simps)

lemma clmul_step: "clmul q p = (if odd q then p else 0) XOR push_bit 1 (clmul (q div 2) p)"
  by (cases "q = 0") (simp_all add: clmul.simps)

lemma clmul_double: "clmul (push_bit n q) p = push_bit n (clmul q p)"
proof (induction n)
  case (Suc n)
  have "clmul (push_bit (Suc n) q) p = push_bit 1 (clmul (push_bit n q) p)"
    by (subst clmul_step) (simp add: push_bit_double)
  with Suc show ?case by (simp add: push_bit_push_bit)
qed simp

lemma xor_cancel: "a XOR (a XOR b) = (b :: nat)"
  by (simp flip: xor.assoc)

lemma clmul_xor: "clmul (a XOR b) p = clmul a p XOR clmul b p"
proof (induction a arbitrary: b rule: less_induct)
  case (less a)
  show ?case
  proof (cases "a = 0")
    case False
    then have "clmul (a div 2 XOR b div 2) p = clmul (a div 2) p XOR clmul (b div 2) p"
      by (intro less) simp
    moreover have "(a XOR b) div 2 = a div 2 XOR b div 2" using drop_bit_xor [of 1 a b] by (simp add: drop_bit_eq_div)
    ultimately show ?thesis
      by (subst (1 2 3) clmul_step) (auto simp: even_xor_iff push_bit_xor xor_cancel ac_simps)
  qed simp
qed

text \<open>A multiple of a polynomial of degree \<open>n\<close> has at least this degree.\<close>

lemma ge_exp_iff: "2 ^ k \<le> (a :: nat) \<longleftrightarrow> drop_bit k a \<noteq> 0"
  by (simp add: drop_bit_eq_div div_eq_0_iff not_less)

lemma clmul_degree:
  assumes "2 ^ n \<le> p" "p < 2 ^ Suc n" "q \<noteq> 0"
  shows "2 ^ n \<le> clmul q p"
  using assms(3)
proof (induction q rule: less_induct)
  case (less q)
  show ?case
  proof (cases "q = 1")
    case True
    then show ?thesis using assms(1) by (simp add: clmul.simps)
  next
    case False
    with less.prems have "q div 2 < q" "q div 2 \<noteq> 0" by auto
    from less.IH [OF this] have "2 ^ Suc n \<le> push_bit 1 (clmul (q div 2) p)" by (simp add: push_bit_eq_mult)
    moreover have "drop_bit (Suc n) p = 0" using assms(2) ge_exp_iff [of "Suc n" p] by simp
    ultimately have "2 ^ Suc n \<le> clmul q p"
      unfolding ge_exp_iff clmul_step [of q] drop_bit_xor by simp
    then show ?thesis by simp
  qed
qed

text \<open>So the remainder of a division is unique.\<close>

lemma remainder_unique:
  assumes "2 ^ n \<le> p" "p < 2 ^ Suc n" "clmul q p XOR r = clmul q' p XOR r'" "r < 2 ^ n" "r' < 2 ^ n"
  shows "r = r'"
proof -
  have "clmul (q XOR q') p = r XOR r'"
  proof (rule bit_eqI)
    fix i
    show "bit (clmul (q XOR q') p) i \<longleftrightarrow> bit (r XOR r') i"
      using arg_cong [OF assms(3), of "\<lambda>x. bit x i"] unfolding clmul_xor bit_xor_iff by blast
  qed
  moreover have "drop_bit n r = 0" "drop_bit n r' = 0" using assms(4,5) by (simp_all add: drop_bit_eq_div)
  then have "drop_bit n (r XOR r') = 0" unfolding drop_bit_xor by simp
  then have "\<not> 2 ^ n \<le> r XOR r'" by (simp only: ge_exp_iff not_not)
  ultimately have "q XOR q' = 0" using clmul_degree [OF assms(1,2), of "q XOR q'"] by auto
  then have "r XOR r' = 0" using \<open>clmul (q XOR q') p = r XOR r'\<close> by simp
  then show ?thesis using xor_cancel [of r r'] by simp
qed

section \<open>The checksum\<close>

text \<open>The key as a number, its first byte the most significant.\<close>

definition key_poly :: "string \<Rightarrow> nat" where
  "key_poly key = fold (\<lambda>c m. 256 * m + of_char c) key 0"

definition XMODEM_POLY :: nat where
  "XMODEM_POLY = 0x11021"

text \<open>One bit of the register: doubling it, and subtracting the polynomial when it overflows.\<close>

lemma crc_top_bit: "crc AND 0x8000 \<noteq> 0 \<longleftrightarrow> bit crc 15" for crc :: "16 word"
proof -
  have "(0x8000 :: 16 word) = push_bit 15 1" by simp
  then show ?thesis by (simp only: bit_iff_and_push_bit_not_eq_0)
qed

lemma crc_bit_poly:
  "push_bit 1 (unat crc) = clmul (if bit crc 15 then 1 else 0) XMODEM_POLY XOR unat (crc_bit crc)"
proof (rule bit_eqI)
  fix n
  have top: "bit crc (n - 1) \<Longrightarrow> n - 1 < 16" using bit_imp_le_length [of crc "n - 1"] by simp
  have small: "bit (0x1021 :: nat) n \<Longrightarrow> n < 16"
    using bit_take_bit_iff [of 16 "0x1021 :: nat" n] by (simp add: take_bit_nat_eq_self)
  have sum: "XMODEM_POLY = 2 ^ 16 XOR 0x1021" by (simp add: XMODEM_POLY_def)
  have "bit XMODEM_POLY n \<longleftrightarrow> (n = 16) \<noteq> bit (0x1021 :: nat) n"
    unfolding sum bit_xor_iff bit_exp_iff by auto
  moreover have "bit (of_nat 0x1021 :: 16 word) n \<longleftrightarrow> possible_bit TYPE(16 word) n \<and> bit (0x1021 :: nat) n"
    by (rule bit_of_nat_iff)
  ultimately have poly: "bit XMODEM_POLY n \<longleftrightarrow> n = 16 \<or> bit (0x1021 :: 16 word) n" using small by auto
  have shift: "bit (push_bit 1 (unat crc)) n \<longleftrightarrow> 1 \<le> n \<and> bit crc (n - 1)"
    "bit (push_bit 1 crc) n \<longleftrightarrow> n < 16 \<and> 1 \<le> n \<and> bit crc (n - 1)"
    by (auto simp only: bit_push_bit_iff bit_unsigned_iff possible_bit_nat possible_bit_word len_num1 len_bit0 len_bit1)
  define low where "low \<longleftrightarrow> bit (0x1021 :: 16 word) n"
  have low: "low \<Longrightarrow> n < 16" unfolding low_def using bit_imp_le_length [of "0x1021 :: 16 word" n] by simp
  have "clmul 1 XMODEM_POLY = XMODEM_POLY" by (simp add: clmul.simps)
  then have "bit (clmul (if bit crc 15 then 1 else 0) XMODEM_POLY XOR unat (crc_bit crc)) n \<longleftrightarrow>
      (bit crc 15 \<and> (n = 16 \<or> low)) \<noteq> ((n < 16 \<and> 1 \<le> n \<and> bit crc (n - 1)) \<noteq> (bit crc 15 \<and> low))"
    unfolding crc_bit_def crc_top_bit low_def poly [symmetric] shift(2) [symmetric]
    by (cases "bit crc 15") (simp_all only: if_True if_False bit_xor_iff bit_unsigned_iff possible_bit_nat clmul_0 bit_0_eq bot_fun_def bot_bool_def simp_thms)
  then show "bit (push_bit 1 (unat crc)) n \<longleftrightarrow>
      bit (clmul (if bit crc 15 then 1 else 0) XMODEM_POLY XOR unat (crc_bit crc)) n"
    unfolding shift using top low by (cases "n = 16") auto
qed

lemma crc_bits_poly: "\<exists>q. push_bit n (unat crc) = clmul q XMODEM_POLY XOR unat ((crc_bit ^^ n) crc)"
proof (induction n)
  case 0
  show ?case by (intro exI [of _ 0]) simp
next
  case (Suc n)
  let ?s = "(crc_bit ^^ n) crc"
  obtain q where q: "push_bit n (unat crc) = clmul q XMODEM_POLY XOR unat ?s" using Suc by blast
  have "push_bit (Suc n) (unat crc) = push_bit 1 (push_bit n (unat crc))" by (simp add: push_bit_push_bit)
  also have "\<dots> = clmul (push_bit 1 q) XMODEM_POLY XOR push_bit 1 (unat ?s)"
    unfolding q push_bit_xor clmul_double ..
  also have "\<dots> = clmul (push_bit 1 q XOR (if bit ?s 15 then 1 else 0)) XMODEM_POLY XOR unat (crc_bit ?s)"
    unfolding crc_bit_poly [of ?s] clmul_xor xor.assoc ..
  finally show ?case by (intro exI) simp
qed

text \<open>One byte: it enters at the top of the register.\<close>

lemma crc_byte_poly:
  fixes c :: char
  assumes "push_bit 16 m = clmul q XMODEM_POLY XOR unat crc"
  shows "\<exists>q'. push_bit 16 (256 * m + of_char c) =
    clmul q' XMODEM_POLY XOR unat ((crc_bit ^^ 8) (crc XOR push_bit 8 (of_char c)))"
proof -
  have c: "of_char c < (256 :: nat)" by simp
  have low: "bit (of_char c :: nat) i \<Longrightarrow> i < 8" for i
    using bit_take_bit_iff [of 8 "of_char c :: nat" i] c by (simp add: take_bit_nat_eq_self)
  have "push_bit 8 m AND of_char c = 0" by (rule bit_eqI) (use low in \<open>fastforce simp: bit_simps\<close>)
  from disjunctive_add_eq_xor [OF this] have add: "256 * m + of_char c = push_bit 8 m XOR of_char c"
    by (simp add: push_bit_eq_mult mult.commute)
  have "unat (of_char c :: 16 word) = of_char c"
    using unat_of_nat [of "of_char c", where ?'a = 16] c by (simp add: of_nat_of_char)
  then have "unat (push_bit 8 (of_char c) :: 16 word) = take_bit 16 (push_bit 8 (of_char c))"
    by (simp only: unsigned_push_bit_eq) simp
  also have "\<dots> = push_bit 8 (of_char c)" using c by (intro take_bit_nat_eq_self) (simp add: push_bit_eq_mult)
  finally have byte: "unat (crc XOR push_bit 8 (of_char c)) = unat crc XOR push_bit 8 (of_char c)"
    by (simp only: unsigned_xor_eq)
  obtain q' where q': "push_bit 8 (unat (crc XOR push_bit 8 (of_char c))) =
      clmul q' XMODEM_POLY XOR unat ((crc_bit ^^ 8) (crc XOR push_bit 8 (of_char c)))"
    using crc_bits_poly by blast
  have "push_bit 16 (256 * m + of_char c) = push_bit 8 (push_bit 16 m) XOR push_bit 8 (push_bit 8 (of_char c))"
    unfolding add push_bit_xor by (simp add: push_bit_push_bit)
  also have "\<dots> = clmul (push_bit 8 q) XMODEM_POLY XOR push_bit 8 (unat (crc XOR push_bit 8 (of_char c)))"
    unfolding assms byte push_bit_xor clmul_double xor.assoc ..
  also have "\<dots> = clmul (push_bit 8 q XOR q') XMODEM_POLY XOR unat ((crc_bit ^^ 8) (crc XOR push_bit 8 (of_char c)))"
    unfolding q' clmul_xor xor.assoc ..
  finally show ?thesis by blast
qed

lemma crc16_divides: "\<exists>q. push_bit 16 (key_poly key) = clmul q XMODEM_POLY XOR unat (crc16 key)"
proof -
  have "\<exists>q. push_bit 16 (fold (\<lambda>c m. 256 * m + of_char c) key m) = clmul q XMODEM_POLY XOR
      unat (fold (\<lambda>c crc. (crc_bit ^^ 8) (crc XOR push_bit 8 (of_char c))) key crc)"
    if "push_bit 16 m = clmul q XMODEM_POLY XOR unat crc" for m crc q
    using that
  proof (induction key arbitrary: m crc q)
    case (Cons c key)
    then show ?case using crc_byte_poly [OF Cons.prems, of c] by auto
  qed auto
  from this [of 0 0 0] show ?thesis by (simp add: key_poly_def crc16_def)
qed

text \<open>
  C23: \<open>Router::crc16\<close> is the CRC16 of XMODEM, as its comment says: of all 16-bit numbers it is the one
  remainder of the key, multiplied by \<open>x ^ 16\<close>, in a division by the polynomial 0x11021 over two
  elements. Shifting, testing the top bit and the sign extension of the characters change nothing.
\<close>

theorem crc16_xmodem:
  assumes "r < 2 ^ 16"
  shows "(\<exists>q. push_bit 16 (key_poly key) = clmul q XMODEM_POLY XOR r) \<longleftrightarrow> r = unat (crc16 key)"
proof
  assume "\<exists>q. push_bit 16 (key_poly key) = clmul q XMODEM_POLY XOR r"
  then obtain q where q: "push_bit 16 (key_poly key) = clmul q XMODEM_POLY XOR r" ..
  obtain q' where q': "push_bit 16 (key_poly key) = clmul q' XMODEM_POLY XOR unat (crc16 key)"
    using crc16_divides by blast
  have "unat (crc16 key) < 2 ^ 16" using unsigned_less [of "crc16 key", where ?'a = nat] by simp
  with q q' assms show "r = unat (crc16 key)"
    by (intro remainder_unique [of 16 XMODEM_POLY q r q']) (simp_all add: XMODEM_POLY_def)
qed (use crc16_divides in blast)

theorem crc16_xmodem_witness:
  "\<exists>q. push_bit 16 (key_poly ''A'') = clmul q XMODEM_POLY XOR 0x58E5"
proof -
  have byte: "(f ^^ 8) x = f (f (f (f (f (f (f (f x)))))))" for f :: "16 word \<Rightarrow> 16 word" and x
    by (simp add: numeral_eq_Suc)
  have "crc16 ''A'' = 0x58E5" by (simp add: crc16_def byte) (simp add: crc_bit_def)
  then show ?thesis using crc16_xmodem [of "unat (crc16 ''A'')" "''A''"] by simp
qed

end
