(* ===== verification/Unit_Tests.thy ===== *)
theory Unit_Tests
  imports Shard
begin

text \<open>
  The unit tests of the storage layer (\<open>tests/unit/test_map.cpp\<close>). The program runs each test with the
  one hash function of its library and at the moments the machine happens to reach; here each test is a
  computation over the model, and it passes for every hash function and all clock readings that respect
  the order of the calls and the length of the sleep.
\<close>

section \<open>The hash map\<close>

text \<open>A test on the hash map is its sequence of calls with the results it expects.\<close>

definition test_basic_put_get :: "(map_op \<times> map_obs) list" where
  "test_basic_put_get =
     [(Put ''key1'' (VString ''value1''), Inserted True),
      (Get ''key1'', Found (Some (VString ''value1''))),
      (Put ''key1'' (VString ''value2''), Inserted False),
      (Get ''key1'', Found (Some (VString ''value2'')))]"

definition test_delete :: "(map_op \<times> map_obs) list" where
  "test_delete =
     [(Put ''key1'' (VString ''val''), Inserted True), (Del ''key1'', Deleted True),
      (Get ''key1'', Found None), (Del ''key1'', Deleted False)]"

definition test_collisions :: "(map_op \<times> map_obs) list" where
  "test_collisions =
     [(Put ''k1'' (VString ''v1''), Inserted True), (Put ''k2'' (VString ''v2''), Inserted True),
      (Put ''k3'' (VString ''v3''), Inserted True), (Put ''k4'' (VString ''v4''), Inserted True),
      (Get ''k1'', Found (Some (VString ''v1''))), (Get ''k4'', Found (Some (VString ''v4'')))]"

text \<open>A test passes on a map of capacity \<open>c\<close>; \<open>m\<close> is what it does afterwards.\<close>

definition passes :: "(string \<Rightarrow> nat) \<Rightarrow> nat \<Rightarrow> (map_op \<times> map_obs) list \<Rightarrow> (hash_map \<Rightarrow> bool) \<Rightarrow> bool" where
  "passes hs c test m =
     (case run_ops hs (map fst test) (new_hash_map c) of
        (Inr obs, hm) \<Rightarrow> obs = map snd test \<and> m hm
      | (Inl _, _) \<Rightarrow> False)"

lemma hash_map_tests:
  "passes hs 16 test_basic_put_get (\<lambda>_. True)" "passes hs 16 test_delete (\<lambda>_. True)"
  by (rule run_ops_new [of 16 "map fst test_basic_put_get" hs],
      simp_all add: passes_def test_basic_put_get_def)
    (rule run_ops_new [of 16 "map fst test_delete" hs], simp_all add: passes_def test_delete_def)

text \<open>A map that holds as many keys as it has slots refuses a new key.\<close>

lemma put_full_map:
  assumes wf: "hm_wf hs hm" and full: "card (dom (hm_abs hm)) = hm_capacity hm" and new: "hm_abs hm k = None"
  shows "hm_put hs k v hm = (Inl (Runtime_error ''HashMap is full''), hm)"
proof -
  have "dom (hm_abs hm) = set (map fst (hm_for_each hm))" by (simp add: hm_abs_def dom_map_of_conv_image_fst)
  then have "length (hm_for_each hm) = hm_capacity hm"
    using full distinct_card [OF hm_for_each_distinct [OF wf]] by simp
  then have "length (filter is_live (hm_entries hm)) = length (hm_entries hm)"
    using hm_wfD(1) [OF wf] by (simp add: hm_for_each_def hm_shape_def)
  then have "\<forall>e \<in> set (hm_entries hm). is_live e" using length_filter_less [of _ "hm_entries hm" is_live] by force
  then have "find_slot hs hm k = Full" using find_slot_Full_iff [OF wf] new by (simp add: is_live_def)
  then show ?thesis by (simp add: hm_put_def)
qed

lemma collision_test:
  "passes hs 4 test_collisions
     (\<lambda>hm. fst (hm_put hs ''k5'' (VString ''v5'') hm) = Inl (Runtime_error ''HashMap is full''))"
proof (rule run_ops_new [of 4 "map fst test_collisions" hs])
  fix hm
  assume hm: "run_ops hs (map fst test_collisions) (new_hash_map 4) = (Inr (spec_ops (map fst test_collisions) Map.empty), hm)"
    "hm_wf hs hm" "hm_capacity hm = 4" "hm_abs hm = fold (\<lambda>x m. snd (spec_op x m)) (map fst test_collisions) Map.empty"
  have abs: "hm_abs hm = [''k1'' \<mapsto> VString ''v1'', ''k2'' \<mapsto> VString ''v2'', ''k3'' \<mapsto> VString ''v3'', ''k4'' \<mapsto> VString ''v4'']"
    using hm(4) by (simp add: test_collisions_def)
  have "card (dom (hm_abs hm)) = hm_capacity hm" unfolding abs using hm(3) by simp
  then have "hm_put hs ''k5'' (VString ''v5'') hm = (Inl (Runtime_error ''HashMap is full''), hm)"
    by (rule put_full_map [OF hm(2)]) (simp add: abs)
  with hm(1) show ?thesis by (simp add: passes_def test_collisions_def)
qed (simp_all add: test_collisions_def)

section \<open>The shard\<close>

definition test_set_get :: "(string \<Rightarrow> nat) \<Rightarrow> int \<Rightarrow> (shard, bool) st" where
  "test_set_get hs t =
     bindS (shard_set hs ''foo'' (VString ''bar'')) (\<lambda>_.
     bindS (shard_get hs t ''foo'') (\<lambda>val.
     getS (\<lambda>sh. map_option (shard_deref sh) val = Some (VString ''bar''))))"

text \<open>\<open>t0\<close> is the clock when the expiration is computed, \<open>t1\<close> and \<open>t2\<close> at the two reads.\<close>

definition test_expiry :: "(string \<Rightarrow> nat) \<Rightarrow> int \<Rightarrow> int \<Rightarrow> int \<Rightarrow> (shard, bool) st" where
  "test_expiry hs t0 t1 t2 =
     bindS (shard_set hs ''temp'' (VString ''val'')) (\<lambda>_.
     bindS (set_expiry ''temp'' (t0 + 100)) (\<lambda>_.
     bindS (shard_get hs t1 ''temp'') (\<lambda>p.
     bindS (shard_get hs t2 ''temp'') (\<lambda>q.
     ret (p \<noteq> None \<and> q = None)))))"

definition test_update_clears_expiry :: "(string \<Rightarrow> nat) \<Rightarrow> int \<Rightarrow> int \<Rightarrow> (shard, bool) st" where
  "test_update_clears_expiry hs t0 t1 =
     bindS (shard_set hs ''persistent'' (VString ''val'')) (\<lambda>_.
     bindS (set_expiry ''persistent'' (t0 + 100)) (\<lambda>_.
     bindS (shard_set hs ''persistent'' (VString ''newval'')) (\<lambda>_.
     bindS (shard_get hs t1 ''persistent'') (\<lambda>p.
     ret (p \<noteq> None)))))"

definition test_set_commands :: "(string \<Rightarrow> nat) \<Rightarrow> int \<Rightarrow> (shard, bool) st" where
  "test_set_commands hs t =
     bindS (shard_set hs ''myset'' (VSet [])) (\<lambda>_.
     bindS (shard_get hs t ''myset'') (\<lambda>val.
     getS (\<lambda>sh. case map_option (shard_deref sh) val of
         Some (VSet s) \<Rightarrow>
           let s1 = fst (oset_insert (<) ''a'' s); s2 = fst (oset_insert (<) ''b'' s1)
           in length s2 = 2 \<and> oset_contains (<) ''a'' s2 \<and> \<not> oset_contains (<) ''c'' s2
       | _ \<Rightarrow> False)))"

lemma value_ok_tests [simp]: "value_ok (VString s)" "value_ok (VSet [])"
  by (simp_all add: value_ok_def)

text \<open>A fresh shard after one \<open>set\<close>, and after setting the expiration of that key.\<close>

lemma set_then_expire:
  assumes "value_ok v"
  obtains sh sh' where "shard_set hs k v new_shard = (Inr (), sh)" "set_expiry k t sh = (Inr (), sh')"
    "shard_inv hs sh'" "shard_abs sh' = [k \<mapsto> (v, Some t)]"
proof (rule shard_set_new [OF assms, of hs k])
  fix sh
  assume sh: "shard_set hs k v new_shard = (Inr (), sh)" "shard_inv hs sh" "shard_abs sh = [k \<mapsto> (v, None)]"
  then obtain sh' where "set_expiry k t sh = (Inr (), sh')" "shard_inv hs sh'" "shard_abs sh' = (shard_abs sh)(k \<mapsto> (v, Some t))"
    using ks.set_exp_law [OF sh(2), of k v None t] by auto
  with sh that show ?thesis by simp
qed

lemma set_get_test: "fst (test_set_get hs t new_shard) = Inr True"
proof (rule shard_set_new [of "VString ''bar''" hs "''foo''"])
  fix sh
  assume sh: "shard_set hs ''foo'' (VString ''bar'') new_shard = (Inr (), sh)"
  show ?thesis
    by (rule ks.set_then_get [OF shard_inv_new _ sh, of t]) (simp_all add: test_set_get_def bindS_def sh)
qed simp

lemma set_commands_test: "fst (test_set_commands hs t new_shard) = Inr True"
proof (rule shard_set_new [of "VSet []" hs "''myset''"])
  fix sh
  assume sh: "shard_set hs ''myset'' (VSet []) new_shard = (Inr (), sh)"
  show ?thesis
    by (rule ks.set_then_get [OF shard_inv_new _ sh, of t]) (simp_all add: test_set_commands_def bindS_def sh)
qed simp

lemma expiry_test:
  assumes "t1 \<le> t0 + 100" "t0 \<le> t1" "t1 + 150 \<le> t2"
  shows "fst (test_expiry hs t0 t1 t2 new_shard) = Inr True"
proof (rule set_then_expire [of "VString ''val''" hs "''temp''" "t0 + 100"])
  fix sh sh'
  assume sh: "shard_set hs ''temp'' (VString ''val'') new_shard = (Inr (), sh)" "set_expiry ''temp'' (t0 + 100) sh = (Inr (), sh')"
    "shard_inv hs sh'" "shard_abs sh' = [''temp'' \<mapsto> (VString ''val'', Some (t0 + 100))]"
  obtain p s1 where p: "shard_get hs t1 ''temp'' sh' = (Inr p, s1)" "shard_inv hs s1" "shard_abs s1 = shard_abs sh'"
    "map_option (shard_deref s1) p = Some (VString ''val'')"
    using ks.get_law [OF sh(3), of t1 "''temp''"] sh(4) assms(1) by (auto simp: purge_def)
  obtain q s2 where q: "shard_get hs t2 ''temp'' s1 = (Inr q, s2)" "map_option (shard_deref s2) q = None"
    using ks.get_law [OF p(2), of t2 "''temp''"] p(3) sh(4) assms by (auto simp: purge_def)
  show ?thesis using sh(1,2) p(1,4) q by (auto simp: test_expiry_def bindS_def)
qed simp

lemma update_clears_expiry_test: "fst (test_update_clears_expiry hs t0 t1 new_shard) = Inr True"
proof (rule set_then_expire [of "VString ''val''" hs "''persistent''" "t0 + 100"])
  fix sh sh'
  assume sh: "shard_set hs ''persistent'' (VString ''val'') new_shard = (Inr (), sh)" "set_expiry ''persistent'' (t0 + 100) sh = (Inr (), sh')"
    "shard_inv hs sh'" "shard_abs sh' = [''persistent'' \<mapsto> (VString ''val'', Some (t0 + 100))]"
  obtain s1 where s1: "shard_set hs ''persistent'' (VString ''newval'') sh' = (Inr (), s1)"
    using ks.set_law [OF sh(3), of "VString ''newval''" "''persistent''"] sh(4) by auto
  obtain i s2 where "shard_get hs t1 ''persistent'' s1 = (Inr (Some i), s2)"
    by (rule ks.set_then_get [OF sh(3) _ s1, of t1]) simp_all
  then show ?thesis using sh(1,2) s1 by (simp add: test_update_clears_expiry_def bindS_def)
qed simp

end
