(* ===== verification/Spec2Isabelle.thy ===== *)
theory Spec2Isabelle
  imports Rdb_Roundtrip Reply_Routing Raft Command_Laws Crc16 Unit_Tests
begin

text \<open>
  QuineDB is an in-memory key-value server that speaks the Redis protocol. It runs one thread per
  core. Each thread owns a shard of the keys, an event loop and its client connections; a command on
  a key of another core is sent there as a message, and the reply comes back as a message.

  \<^bold>\<open>Conventions.\<close> A member function that changes its object is a state computation
  \<open>('s, 'a) st = 's \<Rightarrow> (fault + 'a) \<times> 's\<close>; a thrown exception is \<open>Inl\<close> of a \<open>fault\<close> together with the state
  it leaves, and an operation the C++ standard leaves undefined is the fault \<open>Undefined_behaviour\<close>.
  Strings are byte lists, 32- and 64-bit integers are words or integers with explicit range checks,
  a \<open>double\<close> is its 64 bits. \<open>std::hash\<close> is the parameter \<open>hs\<close>, the clock readings of a command are
  \<open>clk\<close>, the results of system calls (\<open>select\<close>, \<open>accept\<close>, \<open>read\<close>, \<open>write\<close>, \<open>eventfd\<close>, \<open>pipe\<close>, \<open>socket\<close>, ...),
  of \<open>getenv\<close> and whether a file can be opened are parameters; the theorems hold for all of them.

  \<^bold>\<open>Theories\<close>, in the order of their imports, with the sources they model.

  \<^item> \<open>Quine_Prelude\<close>: faults, the state computations and their evaluation rules, number texts
    (\<open>std::to_string\<close>, \<open>std::stoi\<close>, \<open>std::stol\<close>), upper case.
  \<^item> \<open>Ordered_Containers\<close>, \<open>Double_Float\<close>, \<open>Byte_Stream\<close>: what the sources use of the C++ library:
    \<open>std::set\<close> and \<open>std::map\<close> as sorted lists over a strict weak order (a locale), IEEE doubles with exact
    \<open>stod\<close> and \<open>to_string\<close>, binary file streams with their failure state.
  \<^item> \<open>Values\<close> (\<open>storage/value.hpp\<close>), \<open>Hash_Map\<close> (\<open>storage/hash_map.hpp\<close>), \<open>Shard\<close> (\<open>storage/shard.cpp\<close>,
    \<open>storage/engine.hpp\<close>). The hash map is an open-addressing table with tombstones; it interprets the
    locale \<open>table_map\<close>, the shard on top of it the locale \<open>keyspace\<close>. Shown: refinement of partial
    functions, the exact condition of "HashMap is full", exhaustion by tombstones, lazy expiration.
    \<open>Unit_Tests\<close> (\<open>tests/unit/test_map.cpp\<close>): the unit tests pass for every hash function and every clock.
  \<^item> \<open>Router\<close> (\<open>core/router.cpp\<close>), \<open>Itc_Channel\<close> (\<open>core/itc_channel.hpp\<close>), \<open>Topology\<close> (\<open>core/topology.hpp\<close>,
    \<open>core/message.hpp\<close>). Shown: every key has one owner, adding a shard moves keys only to it; channels
    are first in, first out (locale \<open>fifo\<close>) and a batch is handled once and in order. \<open>topo_inv\<close> is the
    invariant of a node, \<open>topo_db\<close> its database. \<open>Crc16\<close> reads a key and its checksum as polynomials over the
    field of two elements and shows that the bit-by-bit loop of the router is CRC-16/XMODEM.
  \<^item> \<open>Command_Base\<close>, \<open>String_Commands\<close>, \<open>Generic_Commands\<close>, \<open>Index_Range\<close>, \<open>List_Commands\<close>, \<open>Set_Commands\<close>,
    \<open>Hash_Commands\<close>, \<open>Zset_Commands\<close>, \<open>Registry\<close> (\<open>src/commands\<close>, \<open>core/command.hpp\<close>). One definition per
    \<open>execute\<close>, one specification per command on the slot of its key, and the proof that the first
    implements the second; \<open>Registry\<close> states it for all 25 commands with a key at once, with the
    forwarding to other owners and the argument errors. \<open>Command_Laws\<close>: type safety, expired keys,
    EXPIRE with TTL, what was written is read back.
  \<^item> \<open>Rdb\<close>, \<open>Rdb_Roundtrip\<close>, \<open>Rdb_Safety\<close> (\<open>persistence\<close>). Shown: a dump without expiration times is
    restored on any number of cores, a dump with one is not, and no file can corrupt the node.
  \<^item> \<open>Resp_Parser\<close> (\<open>network/resp_parser.cpp\<close>). The loop of \<open>consume\<close> is a terminating function. Shown:
    commands round-trip, input may be split, the invariant holds on every input, and the inputs on
    which the code fails.
  \<^item> \<open>Io_Uring\<close> (\<open>include/stub/liburing.h\<close>, \<open>core/io_context.cpp\<close>, \<open>core/operation.hpp\<close>). Shown: operations
    are neither lost nor duplicated, submitting never fails, waiting returns.
  \<^item> \<open>Connection\<close> (\<open>network/connection.cpp\<close>), \<open>Worker\<close> (\<open>network/tcp_server.cpp\<close>, \<open>worker_main\<close> of \<open>main.cpp\<close>,
    \<open>IoContext::run\<close>). Connections are objects in a store by address; using a freed one is undefined. A
    callback is the one \<open>worker_main\<close> sets, or not set; destructors append to the trace \<open>closed_fds\<close>.
    Shown: commands of clients, the write queue, and the input the code drops. \<open>Remote_Commands\<close>: the
    whole path of a command whose key belongs to another core, and how its reply can be overtaken.
  \<^item> \<open>Cluster\<close>: all cores as the step relation \<open>cluster_step\<close>, one step per wait and per handled
    completion, in any interleaving, and its invariant \<open>cluster_inv\<close>, kept by every step. Shown: no
    wake-up is lost; deleting a connection leaves an operation behind that uses it.
  \<^item> \<open>Core_Lifecycle\<close>: a running core can always get to the messages in its channel; an exception ends its
    thread, which closes its descriptors and leaves its clients; an ended core never answers again.
  \<^item> \<open>Server\<close> (\<open>main.cpp\<close>, \<open>core/config.hpp\<close>): configuration, load, registration and start. Shown: the
    invariant and the placement of keys in every state the server can reach, and what the barrier
    does. This theory adds the restart from a saved dump.
  \<^item> \<open>Reply_Routing\<close>: the numbers of connections and the messages that carry them. Shown: a reply reaches the
    client that asked, or nobody, as long as the counter has not wrapped around.
  \<^item> \<open>Raft\<close> (\<open>consensus\<close>): the abstract class as a locale, the skeleton node as its interpretation.

  \<^bold>\<open>Bounds.\<close> Loops of the code are structural recursions or functions with a termination proof; only
  the event loop can wait for ever, and \<open>wait_loop\<close> takes the list of its \<open>select\<close> rounds, \<open>None\<close> meaning
  that it still waits. \<open>small_slot\<close> (lists below 2^31 and sorted sets below 2^30 elements) keeps the
  \<open>int\<close> arithmetic of LRANGE and ZRANGE in range; the RESP theorems bound arguments by 2^31 as \<open>stoi\<close>
  does, those on dumps bound them by the 32-bit counts of the format.

  \<^bold>\<open>Granularity.\<close> A handler is one step of \<open>cluster_step\<close>. A core touches only its own worker and shard,
  and channels only under their mutex, with one exception: SAVE reads the shards of all cores without
  synchronisation, as its comment says, and is modelled as if no other core ran meanwhile. A step that
  would be undefined behaviour is no step, so reachable states are those of executions without it;
  that such executions can end in one is the subject of the theorem on freed connections.

  \<^bold>\<open>Not modelled.\<close> Memory exhaustion, the limit \<open>FD_SETSIZE\<close> of \<open>select\<close>, console output, the reuse of a closed
  descriptor number by another part of the program (a descriptor is a number in the traces of writes and
  closes), the kernel interface the emulated ring stands in for, the benchmark, which only measures time, the
  integration tests, which are clients of a running server, and the build files.
\<close>

section \<open>Restarting the server\<close>

text \<open>No environment changes where the dump is, or how many threads the hardware gives.\<close>

lemma configure_defaults:
  assumes "configure getenv = Inr cfg"
  shows "rdb_filename cfg = dump_path" "thread_count hw cfg = hw"
  using assms
  by (auto simp: configure_def bindE_def default_config_def dump_path_def thread_count_def split: option.splits sum.splits)

lemma restart:
  assumes "topo_inv hs t" "\<forall>k v e. topo_db t k = Some (v, e) \<longrightarrow> e = None \<and> fits k \<and> value_fits v"
    and "card (dom (topo_db t)) \<le> 10000" "0 < n" "configure getenv = Inr cfg"
  shows "\<exists>bytes. rdb_save t = Inr bytes \<and>
    (\<forall>fs. fs dump_path = Some bytes \<longrightarrow>
       (\<exists>nd. main_init hs' getenv n fs = Inr (n, nd) \<and> topo_db (topo nd) = topo_db t))"
proof -
  obtain bytes t' where t': "rdb_save t = Inr bytes"
    "rdb_load hs' (Some bytes) (new_topology n) = (Inr True, t')" "topo_db t' = topo_db t"
    using save_then_load [OF assms(1) _ _ assms(3,4), of hs'] assms(2) by blast
  have "main_init hs' getenv n fs = Inr (n, \<lparr>topo = t', files = fs\<rparr>)" if "fs dump_path = Some bytes" for fs
    using t'(2) that assms(5) configure_defaults [OF assms(5)] by (simp add: main_init_def)
  with t'(1,3) show ?thesis by auto
qed

text \<open>
  C14: The data survives a restart. In any state the server can reach in which no key has an
  expiration time, every string and container is shorter than 2^32 and there are at most 10000 keys,
  SAVE succeeds when the dump file can be opened, and the server started again on the files it
  leaves, with any valid port setting and any number of cores, holds exactly the same database.
\<close>

theorem restart_restores:
  assumes "main_init hs getenv hw fs = Inr (n, nd)" "0 < n"
    and "start_threads efd sys n nd = Some C\<^sub>0" "(cluster_step hs wr clk)\<^sup>*\<^sup>* C\<^sub>0 C" "nd\<^sub>1 = mnode (mach C)"
    and "\<forall>k v e. topo_db (topo nd\<^sub>1) k = Some (v, e) \<longrightarrow> e = None \<and> fits k \<and> value_fits v"
    and "card (dom (topo_db (topo nd\<^sub>1))) \<le> 10000" "wr dump_path"
    and "configure getenv' = Inr cfg" "0 < n'"
  shows "\<exists>nd\<^sub>2 nd\<^sub>3. execute hs wr clk' SaveCommand core conn args nd\<^sub>1 = (Inr ok_reply, nd\<^sub>2) \<and>
    main_init hs' getenv' n' (files nd\<^sub>2) = Inr (n', nd\<^sub>3) \<and> topo_db (topo nd\<^sub>3) = topo_db (topo nd\<^sub>1)"
proof -
  have "cluster_inv hs C" using start_inv [OF main_init_fresh [OF assms(1,2)] assms(3)] cluster_steps_inv [OF assms(4)] by blast
  then have "topo_inv hs (topo nd\<^sub>1)" using assms(5) by (simp add: cluster_inv_def)
  from restart [OF this assms(6,7) assms(10,9), of hs'] show ?thesis
    using assms(8) by (fastforce simp: save_command_def)
qed

theorem restart_restores_witness:
  "\<exists>fs nd C nd\<^sub>2 nd\<^sub>3. main_init length (\<lambda>_. None) 2 fs = Inr (2, nd) \<and> start_threads (\<lambda>i. Eventfd (7 + int i)) (\<lambda>_ _. 0) 2 nd = Some C \<and>
     execute length (\<lambda>_. True) (\<lambda>_. 0) SaveCommand 1 1 [''SAVE''] (mnode (mach C)) = (Inr ok_reply, nd\<^sub>2) \<and>
     main_init length (\<lambda>_. None) 3 (files nd\<^sub>2) = Inr (3, nd\<^sub>3) \<and>
     topo_db (topo nd\<^sub>3) = [''k'' \<mapsto> (VList [''a'', ''b''], None)]"
proof -
  let ?db = "[''k'' \<mapsto> (VList [''a'', ''b''], None)]"
  have cfg: "configure (\<lambda>_. None) = Inr default_config" by (simp add: configure_def)
  obtain t where t: "topo_inv length t" "topo_db t = ?db"
    by (rule topo_single [of 2 "VList [''a'', ''b'']" length "''k''"]) (simp_all add: value_ok_def)
  have small: "\<forall>k v e. ?db k = Some (v, e) \<longrightarrow> e = None \<and> fits k \<and> value_fits v"
    by (auto simp: fits_def split: if_splits)
  obtain bytes where "\<forall>fs. fs dump_path = Some bytes \<longrightarrow>
      (\<exists>nd. main_init length (\<lambda>_. None) 2 fs = Inr (2, nd) \<and> topo_db (topo nd) = topo_db t)"
    using restart [OF t(1) _ _ _ cfg, of 2 length] small unfolding t(2) by auto
  then obtain fs nd where nd: "main_init length (\<lambda>_. None) 2 fs = Inr (2, nd)" "topo_db (topo nd) = ?db"
    unfolding t(2) by (metis fun_upd_same)
  have fresh: "fresh length 2 (topo nd)" by (rule main_init_fresh [OF nd(1)]) simp
  obtain C where C: "start_threads (\<lambda>i. Eventfd (7 + int i)) (\<lambda>_ _. 0) 2 nd = Some C"
    using start_threads_some [OF fresh, of "\<lambda>i. Eventfd (7 + int i)" "\<lambda>_ _. 0"] by auto
  have db: "topo_db (topo (mnode (mach C))) = ?db" using start_db [OF fresh C] nd(2) by simp
  have "\<exists>nd\<^sub>2 nd\<^sub>3. execute length (\<lambda>_. True) (\<lambda>_. 0) SaveCommand 1 1 [''SAVE''] (mnode (mach C)) = (Inr ok_reply, nd\<^sub>2) \<and>
      main_init length (\<lambda>_. None) 3 (files nd\<^sub>2) = Inr (3, nd\<^sub>3) \<and> topo_db (topo nd\<^sub>3) = topo_db (topo (mnode (mach C)))"
    by (rule restart_restores [where clk = "\<lambda>_ _. 0", OF nd(1) _ C rtranclp.rtrancl_refl refl _ _ _ cfg])
      (use small db in simp_all)
  with nd(1) C show ?thesis unfolding db by blast
qed

end
